(* ===== verification/Murmur.thy ===== *)
theory Murmur
  imports Prelude
begin

unbundle bit_operations_syntax

text \<open>
  \<^verbatim>\<open>murmur3_32\<close> of \<^verbatim>\<open>src/src/data/hashtable.cpp\<close>: the 32-bit MurmurHash3 the hash
  table distributes its keys with. Every 32-bit quantity is a \<^typ>\<open>u32\<close>, so the wrap-around
  of the multiplications and the loss of bits in the shifts are those of \<^verbatim>\<open>uint32_t\<close>.
  The block loop reads \<^verbatim>\<open>uint32_t\<close> values through a reinterpreted pointer; the model
  fixes the little-endian byte order of the x86-64 and ARM64 targets the build files name.
  \<open>nblocks\<close> and the offset \<open>nblocks * 4\<close> are of type \<^verbatim>\<open>int\<close> in the source, so the model is of
  keys shorter than \<^verbatim>\<open>2^31\<close> bytes.

  The lemmas state where the function is anchored (reference vectors of the published
  algorithm) and that the block loop reads exactly the whole blocks and the switch exactly the
  remaining bytes.
\<close>

definition c1 :: u32 where "c1 = 0xcc9e2d51"
definition c2 :: u32 where "c2 = 0x1b873593"

definition rotl32 :: "u32 \<Rightarrow> nat \<Rightarrow> u32" where
  "rotl32 x r = (push_bit r x) OR (drop_bit (32 - r) x)"

definition mix_k :: "u32 \<Rightarrow> u32" where
  "mix_k k = rotl32 (k * c1) 15 * c2"

definition le32 :: "byte \<Rightarrow> byte \<Rightarrow> byte \<Rightarrow> byte \<Rightarrow> u32" where
  "le32 b0 b1 b2 b3 =
     ucast b0 OR push_bit 8 (ucast b1) OR push_bit 16 (ucast b2) OR push_bit 24 (ucast b3)"

text \<open>The block loop: one iteration per four bytes, the rest handed to the switch.\<close>

fun murmur_blocks :: "u32 \<Rightarrow> bytes \<Rightarrow> u32 \<times> bytes" where
  "murmur_blocks h (b0 # b1 # b2 # b3 # rest) =
     murmur_blocks (rotl32 (h XOR mix_k (le32 b0 b1 b2 b3)) 13 * 5 + 0xe6546b64) rest"
| "murmur_blocks h rest = (h, rest)"

text \<open>The switch on \<^verbatim>\<open>len & 3\<close>, with its fall-through cases.\<close>

definition murmur_tail :: "u32 \<Rightarrow> bytes \<Rightarrow> u32" where
  "murmur_tail h tail =
     (case tail of
        [t0, t1, t2] \<Rightarrow>
          h XOR mix_k (push_bit 16 (ucast t2) XOR push_bit 8 (ucast t1) XOR ucast t0)
      | [t0, t1] \<Rightarrow> h XOR mix_k (push_bit 8 (ucast t1) XOR ucast t0)
      | [t0] \<Rightarrow> h XOR mix_k (ucast t0)
      | _ \<Rightarrow> h)"

definition murmur_final :: "u32 \<Rightarrow> nat \<Rightarrow> u32" where
  "murmur_final h len =
     (let h1 = h XOR word_of_nat len;
          h2 = h1 XOR drop_bit 16 h1;
          h3 = h2 * 0x85ebca6b;
          h4 = h3 XOR drop_bit 13 h3;
          h5 = h4 * 0xc2b2ae35
      in h5 XOR drop_bit 16 h5)"

definition murmur3_32 :: "bytes \<Rightarrow> u32 \<Rightarrow> u32" where
  "murmur3_32 key seed =
     (let (h, tail) = murmur_blocks seed key in murmur_final (murmur_tail h tail) (length key))"

section \<open>The loop and the switch together read every byte once\<close>

lemma drop_block: "drop (4 + n) (b0 # b1 # b2 # b3 # rest) = drop n rest"
  by (simp add: numeral_eq_Suc)

lemma murmur_blocks_rest:
  "snd (murmur_blocks h key) = drop (4 * (length key div 4)) key"
  by (induction h key rule: murmur_blocks.induct) (auto simp: drop_block)

lemma length_murmur_tail: "length (snd (murmur_blocks h key)) = length key mod 4"
proof -
  have "length key - 4 * (length key div 4) = length key mod 4"
    by (simp add: minus_mult_div_eq_mod)
  then show ?thesis by (simp add: murmur_blocks_rest)
qed

lemma murmur_blocks_append:
  assumes "4 dvd length xs"
  shows "murmur_blocks h (xs @ ys) = murmur_blocks (fst (murmur_blocks h xs)) ys"
  using assms
proof (induction h xs rule: murmur_blocks.induct)
  case (1 h b0 b1 b2 b3 rest)
  then have "4 dvd length rest" by simp presburger
  with 1 show ?case by simp
qed (auto dest: dvd_imp_le)

section \<open>Reference vectors\<close>

lemma murmur3_32_empty: "murmur3_32 [] 0 = 0"
  by code_simp

lemma murmur3_32_empty_1: "murmur3_32 [] 1 = 0x514E28B7"
  by code_simp

lemma murmur3_32_test: "murmur3_32 (bytes_of_string ''test'') 0 = 0xba6bd213"
  by code_simp

lemma murmur3_32_hello: "murmur3_32 (bytes_of_string ''Hello, world!'') 0 = 0xc0363e43"
  by code_simp

end
