(* ===== verification/Wildcard.thy ===== *)
theory Wildcard
  imports Prelude
begin

text \<open>
  \<^verbatim>\<open>HashTable::matches_pattern\<close> of \<^verbatim>\<open>src/src/data/hashtable.cpp\<close>: the iterative
  wildcard matcher behind \<^verbatim>\<open>KEYS\<close>, with its index variables, its remembered star and
  its backtracking. \<open>glob\<close> is the reference semantics of a pattern (\<open>*\<close> stands for any
  run of characters, \<open>?\<close> for one, every other character for itself). The matcher never
  accepts a string the pattern does not describe, and it accepts every string the pattern
  describes as long as the string itself holds no star; a star in the string is compared as a
  literal before it is looked at as a wildcard, which loses matches.
\<close>

section \<open>The matcher\<close>

text \<open>
  The \<^verbatim>\<open>while\<close> loop over \<open>str_idx\<close> (\<open>i\<close>), \<open>pat_idx\<close> (\<open>j\<close>),
  \<open>star_idx\<close> (\<open>None\<close> for \<^verbatim>\<open>npos\<close>) and \<open>match_idx\<close> (\<open>m\<close>), followed by the
  trailing loop that skips stars.
\<close>

fun skip_stars :: "string \<Rightarrow> string" where
  "skip_stars (c # p) = (if c = CHR ''*'' then skip_stars p else c # p)"
| "skip_stars [] = []"

definition loop_inv :: "nat \<Rightarrow> nat \<Rightarrow> nat option \<Rightarrow> nat \<Rightarrow> bool" where
  "loop_inv i j star m = (case star of None \<Rightarrow> True | Some st \<Rightarrow> st < j \<and> m \<le> i)"

function match_loop ::
  "string \<Rightarrow> string \<Rightarrow> nat \<Rightarrow> nat \<Rightarrow> nat option \<Rightarrow> nat \<Rightarrow> bool" where
  "match_loop str pat i j star m =
     (if i < length str then
        if j < length pat \<and> (pat ! j = str ! i \<or> pat ! j = CHR ''?'')
        then match_loop str pat (i + 1) (j + 1) star m
        else if j < length pat \<and> pat ! j = CHR ''*''
        then match_loop str pat i (j + 1) (Some j) i
        else (case star of
                Some st \<Rightarrow> match_loop str pat (m + 1) (st + 1) star (m + 1)
              | None \<Rightarrow> False)
      else skip_stars (drop j pat) = [])"
  by pat_completeness auto
termination
  by (relation "measures
       [\<lambda>(str, pat, i, j, star, m). if loop_inv i j star m then 0 else 1,
        \<lambda>(str, pat, i, j, star, m). case star of None \<Rightarrow> length pat + 1 | Some st \<Rightarrow> length pat - st,
        \<lambda>(str, pat, i, j, star, m). length str - m,
        \<lambda>(str, pat, i, j, star, m). length str - i + (length pat - j)]")
    (auto simp: loop_inv_def split: option.splits)

declare match_loop.simps [simp del]

definition matches_pattern :: "string \<Rightarrow> string \<Rightarrow> bool" where
  "matches_pattern str pat = (if pat = ''*'' then True else match_loop str pat 0 0 None 0)"

section \<open>The reference semantics of a pattern\<close>

fun glob :: "string \<Rightarrow> string \<Rightarrow> bool" where
  "glob [] s = (s = [])"
| "glob (c # p) [] = (c = CHR ''*'' \<and> glob p [])"
| "glob (c # p) (x # s) =
     (if c = CHR ''*'' then glob p (x # s) \<or> glob (c # p) s
      else (c = CHR ''?'' \<or> c = x) \<and> glob p s)"

lemma glob_Nil: "glob p [] \<longleftrightarrow> skip_stars p = []"
  by (induction p) auto

lemma glob_star: "glob (CHR ''*'' # p) s \<longleftrightarrow> (\<exists>n. glob p (drop n s))"
proof (induction s)
  case Nil
  then show ?case by simp
next
  case (Cons x s)
  have "(\<exists>n. glob p (drop n (x # s))) \<longleftrightarrow> glob p (x # s) \<or> (\<exists>n. glob p (drop n s))"
    by (metis drop0 drop_Suc_Cons old.nat.exhaust)
  with Cons show ?case by simp
qed

lemma glob_star_everything: "glob ''*'' s"
  using glob_star[of "[]" s] by (auto intro: exI[of _ "length s"])

lemma glob_star_at:
  "j < length pat \<Longrightarrow> pat ! j = CHR ''*'' \<Longrightarrow>
   glob (drop j pat) (drop i s) \<longleftrightarrow> (\<exists>n \<ge> i. glob (drop (j + 1) pat) (drop n s))"
  by (simp add: Cons_nth_drop_Suc[symmetric] glob_star)
     (metis add.commute le_Suc_ex le_add1)

lemma glob_char_at:
  "j < length pat \<Longrightarrow> pat ! j \<noteq> CHR ''*'' \<Longrightarrow> i < length s \<Longrightarrow>
   glob (drop j pat) (drop i s) \<longleftrightarrow>
     (pat ! j = CHR ''?'' \<or> pat ! j = s ! i) \<and> glob (drop (j + 1) pat) (drop (i + 1) s)"
  by (simp add: Cons_nth_drop_Suc[symmetric])

lemma glob_stuck_at:
  "i < length s \<Longrightarrow> \<not> (j < length pat \<and> (pat ! j = s ! i \<or> pat ! j = CHR ''?'')) \<Longrightarrow>
   \<not> (j < length pat \<and> pat ! j = CHR ''*'') \<Longrightarrow> \<not> glob (drop j pat) (drop i s)"
  by (cases "j < length pat") (auto simp: glob_char_at)

text \<open>A prefix of a pattern without stars matches exactly as many characters as it is long.\<close>

lemma glob_segment:
  assumes "glob (drop a pat) (drop k s)" "k \<le> length s" "a + n \<le> length pat"
    and "\<forall>t < n. pat ! (a + t) \<noteq> CHR ''*''"
  shows "k + n \<le> length s \<and> glob (drop (a + n) pat) (drop (k + n) s)"
  using assms
proof (induction n arbitrary: a k)
  case 0
  then show ?case by simp
next
  case (Suc n)
  have a: "a < length pat" "pat ! a \<noteq> CHR ''*''" using Suc.prems(3,4) by auto
  have k: "k < length s"
  proof (rule ccontr)
    assume "\<not> k < length s"
    then have "drop k s = []" by simp
    with Suc.prems(1) a show False by (simp add: Cons_nth_drop_Suc[symmetric])
  qed
  have "glob (drop (a + 1) pat) (drop (k + 1) s)"
    using Suc.prems(1) a k by (simp add: glob_char_at)
  moreover have "\<forall>t < n. pat ! (a + 1 + t) \<noteq> CHR ''*''"
    using Suc.prems(4) by (metis Suc_eq_plus1 Suc_mono add_Suc add_Suc_right)
  ultimately show ?case using Suc.IH[of "a + 1" "k + 1"] Suc.prems(3) k by simp
qed

section \<open>Soundness\<close>

text \<open>The three ways in which a round of the loop goes on, named after what they do.\<close>

lemma round_cases:
  obtains (step) "j < length pat" "pat ! j = str ! i \<or> pat ! j = CHR ''?''"
  | (star) "\<not> (j < length pat \<and> (pat ! j = str ! i \<or> pat ! j = CHR ''?''))" "j < length pat" "pat ! j = CHR ''*''"
  | (retry) "\<not> (j < length pat \<and> (pat ! j = str ! i \<or> pat ! j = CHR ''?''))" "\<not> (j < length pat \<and> pat ! j = CHR ''*'')"
  by blast

lemma glob_after_step:
  assumes "glob (drop (j + 1) pat) (drop (i + 1) str)" "i < length str" "j < length pat" "pat ! j = str ! i \<or> pat ! j = CHR ''?''"
  shows "glob (drop j pat) (drop i str)"
proof (cases "pat ! j = CHR ''*''")
  case True
  have "\<exists>n \<ge> i. glob (drop (j + 1) pat) (drop n str)" using assms(1) by (intro exI[of _ "i + 1"]) simp
  with True assms(3) show ?thesis by (simp add: glob_star_at)
next
  case False
  with assms show ?thesis by (auto simp: glob_char_at)
qed

lemma match_loop_sound:
  "match_loop str pat i j star m \<Longrightarrow>
   glob (drop j pat) (drop i str) \<or>
   (\<exists>st k. star = Some st \<and> m < k \<and> glob (drop (st + 1) pat) (drop k str))"
proof (induction str pat i j star m rule: match_loop.induct)
  case (1 str pat i j star m)
  note run = "1.prems"[unfolded match_loop.simps[of str pat i j star m]]
  show ?case
  proof (cases "i < length str")
    case fin: False
    with run show ?thesis by (simp add: glob_Nil)
  next
    case i: True
    show ?thesis
    proof (cases rule: round_cases[of j pat str i])
      case step
      then have "glob (drop (j + 1) pat) (drop (i + 1) str) \<or>
          (\<exists>st k. star = Some st \<and> m < k \<and> glob (drop (st + 1) pat) (drop k str))"
        using "1.IH"(1) i run by simp
      then show ?thesis using glob_after_step[OF _ i step] by blast
    next
      case star
      then have "match_loop str pat i (j + 1) (Some j) i" using i run by simp
      then have "glob (drop (j + 1) pat) (drop i str) \<or> (\<exists>k > i. glob (drop (j + 1) pat) (drop k str))"
        using "1.IH"(2)[OF i star(1)] star by simp
      then have "\<exists>n \<ge> i. glob (drop (j + 1) pat) (drop n str)" by (meson less_or_eq_imp_le order_refl)
      with star show ?thesis by (simp add: glob_star_at)
    next
      case retry
      then obtain st where st: "star = Some st" using i run by (auto split: option.splits)
      then have "match_loop str pat (m + 1) (st + 1) star (m + 1)" using i run retry by simp
      then have "glob (drop (st + 1) pat) (drop (m + 1) str) \<or> (\<exists>k > m + 1. glob (drop (st + 1) pat) (drop k str))"
        using "1.IH"(3)[OF i retry st] st by auto
      then show ?thesis using st by (metis less_add_one less_trans)
    qed
  qed
qed

lemma matches_pattern_sound: "matches_pattern str pat \<Longrightarrow> glob pat str"
  using match_loop_sound[of str pat 0 0 None 0]
  by (auto simp: matches_pattern_def glob_star_everything split: if_splits)

section \<open>Completeness on strings without stars\<close>

text \<open>
  What the greedy search knows: since the remembered star the pattern has advanced over a
  run without stars, over as many characters of the string.
\<close>

definition greedy_inv :: "string \<Rightarrow> nat \<Rightarrow> nat \<Rightarrow> nat option \<Rightarrow> nat \<Rightarrow> bool" where
  "greedy_inv pat i j star m = (j \<le> length pat \<and>
     (case star of None \<Rightarrow> True
      | Some st \<Rightarrow> st < j \<and> i = m + (j - (st + 1)) \<and>
          (\<forall>t < j - (st + 1). pat ! (st + 1 + t) \<noteq> CHR ''*'')))"

definition match_from :: "string \<Rightarrow> string \<Rightarrow> nat \<Rightarrow> nat \<Rightarrow> nat option \<Rightarrow> nat \<Rightarrow> bool" where
  "match_from str pat i j star m = (glob (drop j pat) (drop i str) \<or>
     (\<exists>st k. star = Some st \<and> m < k \<and> k \<le> length str \<and> glob (drop (st + 1) pat) (drop k str)))"

lemma greedy_segment:
  assumes "greedy_inv pat i j (Some st) m" "m < k" "k \<le> length str"
    and "glob (drop (st + 1) pat) (drop k str)"
  shows "\<exists>n > i. n \<le> length str \<and> glob (drop j pat) (drop n str)"
proof -
  let ?n = "j - (st + 1)"
  have inv: "st + 1 + ?n = j" "j \<le> length pat" "i = m + ?n"
    "\<forall>t < ?n. pat ! (st + 1 + t) \<noteq> CHR ''*''"
    using assms(1) by (auto simp: greedy_inv_def)
  have "k + ?n \<le> length str \<and> glob (drop j pat) (drop (k + ?n) str)"
    using glob_segment[OF assms(4,3) _ inv(4)] inv(1,2) by simp
  then show ?thesis using inv(3) assms(2) by (intro exI[of _ "k + ?n"]) simp
qed

lemma greedy_step:
  "greedy_inv pat i j star m \<Longrightarrow> j < length pat \<Longrightarrow> pat ! j \<noteq> CHR ''*'' \<Longrightarrow>
   greedy_inv pat (i + 1) (j + 1) star m"
proof (cases star)
  case None
  assume "greedy_inv pat i j star m" "j < length pat"
  with None show ?thesis by (simp add: greedy_inv_def)
next
  case (Some st)
  assume a: "greedy_inv pat i j star m" "j < length pat" "pat ! j \<noteq> CHR ''*''"
  have "pat ! (st + 1 + t) \<noteq> CHR ''*''" if "t < j - st" for t
  proof (cases "t = j - (st + 1)")
    case True
    then show ?thesis using a Some by (simp add: greedy_inv_def)
  next
    case False
    then have "t < j - (st + 1)" using that by linarith
    then show ?thesis using a Some by (auto simp: greedy_inv_def)
  qed
  then show ?thesis using a Some by (auto simp: greedy_inv_def)
qed

lemma match_from_later:
  "match_from str pat i j star m \<Longrightarrow> greedy_inv pat i j star m \<Longrightarrow> \<not> glob (drop j pat) (drop i str) \<Longrightarrow>
   \<exists>n > i. n \<le> length str \<and> glob (drop j pat) (drop n str)"
  using greedy_segment unfolding match_from_def by blast

lemma match_from_star:
  assumes "match_from str pat i j star m" "greedy_inv pat i j star m" "i < length str" "j < length pat" "pat ! j = CHR ''*''"
  shows "match_from str pat i (j + 1) (Some j) i"
proof -
  have "\<exists>n \<ge> i. glob (drop j pat) (drop n str)" using match_from_later[OF assms(1,2)] by (meson less_imp_le order_refl)
  then obtain n where n: "n \<ge> i" "glob (drop (j + 1) pat) (drop n str)"
    using glob_star_at[OF assms(4,5)] by (meson order.trans)
  then show ?thesis unfolding match_from_def
    by (cases "n = i"; cases "n \<le> length str") (auto intro!: exI[of _ "min n (length str)"] simp: assms(3))
qed

lemma match_from_retry:
  assumes "match_from str pat i j star m" "greedy_inv pat i j star m" "\<not> glob (drop j pat) (drop i str)"
  obtains st where "star = Some st" "m + 1 \<le> length str" "greedy_inv pat (m + 1) (st + 1) star (m + 1)"
    "match_from str pat (m + 1) (st + 1) star (m + 1)"
proof -
  obtain st k where st: "star = Some st" and k: "m < k" "k \<le> length str" "glob (drop (st + 1) pat) (drop k str)"
    using assms(1,3) by (auto simp: match_from_def)
  have "greedy_inv pat (m + 1) (st + 1) star (m + 1)" using assms(2) st by (auto simp: greedy_inv_def)
  moreover have "match_from str pat (m + 1) (st + 1) star (m + 1)"
    using k st unfolding match_from_def by (metis Suc_eq_plus1 Suc_leI le_neq_implies_less)
  ultimately show ?thesis using that st k by simp
qed

lemma match_loop_complete:
  assumes "CHR ''*'' \<notin> set str"
  shows "i \<le> length str \<Longrightarrow> greedy_inv pat i j star m \<Longrightarrow> match_from str pat i j star m \<Longrightarrow>
    match_loop str pat i j star m"
  using assms
proof (induction str pat i j star m rule: match_loop.induct)
  case (1 str pat i j star m)
  note nostar = "1.prems"(4) and inv = "1.prems"(2) and m_from = "1.prems"(3)
  show ?case
  proof (cases "i < length str")
    case fin: False
    then have "glob (drop j pat) []" using match_from_later[OF m_from inv] "1.prems"(1) by force
    with fin show ?thesis by (simp add: match_loop.simps[of str pat i j] glob_Nil)
  next
    case i: True
    show ?thesis
    proof (cases rule: round_cases[of j pat str i])
      case step
      have "str ! i \<noteq> CHR ''*''" using nostar nth_mem[OF i] by metis
      then have "pat ! j \<noteq> CHR ''*''" using step(2) by auto
      then have "match_from str pat (i + 1) (j + 1) star m"
        using m_from step i by (auto simp: match_from_def glob_char_at)
      then have "match_loop str pat (i + 1) (j + 1) star m"
        using "1.IH"(1)[OF i] step greedy_step[OF inv step(1) \<open>pat ! j \<noteq> _\<close>] i nostar by simp
      with i step show ?thesis by (simp add: match_loop.simps[of str pat i j])
    next
      case star
      have "greedy_inv pat i (j + 1) (Some j) i" using star by (simp add: greedy_inv_def)
      then have "match_loop str pat i (j + 1) (Some j) i"
        using "1.IH"(2)[OF i star(1)] match_from_star[OF m_from inv i star(2,3)] star i nostar by simp
      with i star show ?thesis by (simp add: match_loop.simps[of str pat i j])
    next
      case retry
      obtain st where st: "star = Some st" "m + 1 \<le> length str" "greedy_inv pat (m + 1) (st + 1) star (m + 1)"
        "match_from str pat (m + 1) (st + 1) star (m + 1)"
        using match_from_retry[OF m_from inv glob_stuck_at[OF i retry]] .
      then have "match_loop str pat (m + 1) (st + 1) star (m + 1)" using "1.IH"(3)[OF i retry st(1)] nostar by simp
      with i retry st(1) show ?thesis by (auto simp: match_loop.simps[of str pat i j])
    qed
  qed
qed

lemma matches_pattern_complete:
  assumes "CHR ''*'' \<notin> set str" "glob pat str"
  shows "matches_pattern str pat"
proof -
  have "match_loop str pat 0 0 None 0"
    by (rule match_loop_complete) (use assms in \<open>auto simp: greedy_inv_def match_from_def\<close>)
  then show ?thesis by (simp add: matches_pattern_def)
qed

section \<open>Properties\<close>

text \<open>
  C23: The matcher accepts only strings the pattern describes, and on strings without a star
  it accepts exactly those.
\<close>

theorem matches_pattern_spec:
  "(matches_pattern str pat \<longrightarrow> glob pat str) \<and>
   (CHR ''*'' \<notin> set str \<longrightarrow> (matches_pattern str pat \<longleftrightarrow> glob pat str))"
  using matches_pattern_sound matches_pattern_complete by blast

theorem matches_pattern_spec_witness:
  "CHR ''*'' \<notin> set ''user:42'' \<and> matches_pattern ''user:42'' ''us?r:*2''"
  using matches_pattern_spec[of "''user:42''" "''us?r:*2''"] by simp

text \<open>
  On a string that holds a star the matcher can reject what the pattern describes: the
  star of \<open>*b\<close> is consumed as the literal first character of \<open>*ab\<close> and is never
  remembered as a wildcard.
\<close>

theorem matches_pattern_literal_star:
  "glob ''*b'' ''*ab'' \<and> \<not> matches_pattern ''*ab'' ''*b''"
  by (simp add: matches_pattern_def match_loop.simps)

end
