(* ===== verification/Table_Spec.thy ===== *)
theory Table_Spec
  imports Wildcard
begin

text \<open>
  The contract of a string table, as its clients use it: the operations of
  \<^verbatim>\<open>HashTable\<close> and \<^verbatim>\<open>ConcurrentHashTable\<close> against the map from keys to values the
  table stands for. \<open>tbl\<close> is what the table promises: every operation keeps the invariant,
  says what it does to the map, and returns what the map says. The lemmas of the locale are
  what clients need of a table, proved once for any table that keeps the contract.
\<close>

locale kv_table =
  fixes invar :: "'t \<Rightarrow> bool"
    and tmap :: "'t \<Rightarrow> string \<Rightarrow> string option"
    and tset :: "'t \<Rightarrow> string \<Rightarrow> string \<Rightarrow> 't \<times> bool"
    and tget :: "'t \<Rightarrow> string \<Rightarrow> string option"
    and tdel :: "'t \<Rightarrow> string \<Rightarrow> 't \<times> bool"
    and texists :: "'t \<Rightarrow> string \<Rightarrow> bool"
    and tkeys :: "'t \<Rightarrow> string \<Rightarrow> string list"
    and tclear :: "'t \<Rightarrow> 't"
    and tsize :: "'t \<Rightarrow> nat"
  assumes set_invar: "invar t \<Longrightarrow> invar (fst (tset t k v))"
    and set_map: "invar t \<Longrightarrow> tmap (fst (tset t k v)) = (tmap t)(k \<mapsto> v)"
    and set_new: "invar t \<Longrightarrow> snd (tset t k v) \<longleftrightarrow> tmap t k = None"
    and get_map: "invar t \<Longrightarrow> tget t k = tmap t k"
    and del_invar: "invar t \<Longrightarrow> invar (fst (tdel t k))"
    and del_map: "invar t \<Longrightarrow> tmap (fst (tdel t k)) = (tmap t)(k := None)"
    and del_found: "invar t \<Longrightarrow> snd (tdel t k) \<longleftrightarrow> tmap t k \<noteq> None"
    and exists_map: "invar t \<Longrightarrow> texists t k \<longleftrightarrow> tmap t k \<noteq> None"
    and keys_set: "invar t \<Longrightarrow> set (tkeys t p) = {k \<in> dom (tmap t). matches_pattern k p}"
    and keys_distinct: "invar t \<Longrightarrow> distinct (tkeys t p)"
    and clear_invar: "invar t \<Longrightarrow> invar (tclear t)"
    and clear_map: "invar t \<Longrightarrow> tmap (tclear t) = Map.empty"
    and map_finite: "invar t \<Longrightarrow> finite (dom (tmap t))"
    and size_card: "invar t \<Longrightarrow> tsize t = card (dom (tmap t))"
begin

lemmas invars = set_invar del_invar clear_invar
lemmas maps = set_map del_map clear_map get_map exists_map set_new del_found

lemma get_set: "invar t \<Longrightarrow> tget (fst (tset t k v)) k' = (if k' = k then Some v else tget t k')"
  by (simp add: invars maps)

lemma get_del: "invar t \<Longrightarrow> tget (fst (tdel t k)) k' = (if k' = k then None else tget t k')"
  by (simp add: invars maps)

lemma size_set:
  assumes "invar t"
  shows "tsize (fst (tset t k v)) = (if tmap t k = None then Suc (tsize t) else tsize t)"
proof -
  have "dom ((tmap t)(k \<mapsto> v)) = insert k (dom (tmap t))" by simp
  then show ?thesis
    using assms map_finite[OF assms]
    by (auto simp: size_card invars maps card_insert_if domIff)
qed

lemma size_del:
  assumes "invar t"
  shows "tsize (fst (tdel t k)) = (if tmap t k = None then tsize t else tsize t - 1)"
  using assms map_finite[OF assms]
  by (auto simp: size_card invars maps domIff)

lemma size_clear: "invar t \<Longrightarrow> tsize (tclear t) = 0"
  by (simp add: size_card invars maps)

lemma keys_all: "invar t \<Longrightarrow> set (tkeys t ''*'') = dom (tmap t)"
  by (auto simp: keys_set matches_pattern_def)

lemma length_keys_all: "invar t \<Longrightarrow> length (tkeys t ''*'') = tsize t"
  using keys_all keys_distinct distinct_card size_card by metis

lemma keys_glob:
  "invar t \<Longrightarrow> k \<in> set (tkeys t p) \<Longrightarrow> tmap t k \<noteq> None \<and> glob p k"
  using keys_set matches_pattern_sound by auto

end

end
