(* ===== verification/Hash_Table.thy ===== *)
theory Hash_Table
  imports Murmur Table_Spec
begin

text \<open>
  \<^verbatim>\<open>HashTable\<close> of \<^verbatim>\<open>src/src/data/hashtable.hpp\<close> and \<^verbatim>\<open>hashtable.cpp\<close>: an
  array of chains, with the number of entries kept in a counter and the array doubled when the
  load factor is above 0.75. A chain (nodes linked by \<^verbatim>\<open>unique_ptr\<close>) is the list of its
  nodes from the head on; a \<^verbatim>\<open>Node*\<close> into a chain is a position of the list.
  Operations that change the table return the new table beside their result.
  \<^verbatim>\<open>size_t\<close> counters are \<^typ>\<open>nat\<close> (a table with \<^verbatim>\<open>2^64\<close> entries does not fit in
  memory), except in the constructor, whose doubling loop is modelled at its 64 bits.
  The load factor is a quotient of \<^verbatim>\<open>double\<close>s; for the power-of-two capacities of a
  well-formed table and fewer than \<^verbatim>\<open>2^53\<close> entries the division is exact, so it is the
  quotient of reals.
\<close>

section \<open>The table and its operations\<close>

record node =
  node_key :: string
  node_value :: string

type_synonym chain = "node list"

record hash_table =
  ht_buckets :: "chain list"
  ht_size :: nat

definition MAX_LOAD_FACTOR :: real where "MAX_LOAD_FACTOR = 3 / 4"
definition MIN_CAPACITY :: u64 where "MIN_CAPACITY = 16"
definition hash_seed :: u32 where "hash_seed = 0x12345678"

text \<open>The constructor's loop; it does not return when the doubling wraps to zero.\<close>

partial_function (option) grow_capacity :: "u64 \<Rightarrow> u64 \<Rightarrow> u64 option" where
  "grow_capacity capacity initial_capacity =
     (if capacity < initial_capacity
      then grow_capacity (capacity * 2) initial_capacity
      else Some capacity)"

definition ht_new :: "u64 \<Rightarrow> hash_table option" where
  "ht_new initial_capacity =
     map_option (\<lambda>c. \<lparr>ht_buckets = replicate (unat c) [], ht_size = 0\<rparr>)
       (grow_capacity MIN_CAPACITY initial_capacity)"

text \<open>Moving a table leaves its source without buckets and with a zero counter.\<close>

definition ht_move :: "hash_table \<Rightarrow> hash_table \<times> hash_table" where
  "ht_move other = (\<lparr>ht_buckets = ht_buckets other, ht_size = ht_size other\<rparr>,
                    \<lparr>ht_buckets = [], ht_size = 0\<rparr>)"

text \<open>Assignment by move between two tables; what the target held is freed. To itself it does nothing.\<close>

definition ht_assign :: "hash_table \<Rightarrow> hash_table \<Rightarrow> hash_table \<times> hash_table" where
  "ht_assign t other = ht_move other"

definition ht_capacity :: "hash_table \<Rightarrow> nat" where
  "ht_capacity t = length (ht_buckets t)"

definition ht_empty :: "hash_table \<Rightarrow> bool" where
  "ht_empty t = (ht_size t = 0)"

definition load_factor :: "hash_table \<Rightarrow> real" where
  "load_factor t =
     (if ht_buckets t = [] then 0 else real (ht_size t) / real (length (ht_buckets t)))"

definition key_slot :: "nat \<Rightarrow> string \<Rightarrow> nat" where
  "key_slot capacity key = unat (murmur3_32 (bytes_of_string key) hash_seed) mod capacity"

definition ht_hash :: "hash_table \<Rightarrow> string \<Rightarrow> nat" where
  "ht_hash t key = key_slot (length (ht_buckets t)) key"

text \<open>
  The walk along a chain: the position of the node with the key, and that of the node before
  it; a pair of null pointers when there is none.
\<close>

fun find_loop :: "chain \<Rightarrow> string \<Rightarrow> nat option \<Rightarrow> nat \<Rightarrow> nat option \<times> nat option" where
  "find_loop [] key prev cur = (None, None)"
| "find_loop (n # ns) key prev cur =
     (if node_key n = key then (Some cur, prev) else find_loop ns key (Some cur) (Suc cur))"

definition find_in_bucket :: "hash_table \<Rightarrow> nat \<Rightarrow> string \<Rightarrow> nat option \<times> nat option" where
  "find_in_bucket t bucket key = find_loop (ht_buckets t ! bucket) key None 0"

definition rehash_node :: "nat \<Rightarrow> chain list \<Rightarrow> node \<Rightarrow> chain list" where
  "rehash_node new_capacity new_buckets n =
     (let b = key_slot new_capacity (node_key n)
      in new_buckets[b := n # new_buckets ! b])"

definition ht_resize :: "hash_table \<Rightarrow> hash_table" where
  "ht_resize t =
     (let new_capacity = length (ht_buckets t) * 2
      in t\<lparr>ht_buckets :=
             foldl (foldl (rehash_node new_capacity)) (replicate new_capacity [])
               (ht_buckets t)\<rparr>)"

text \<open>\<open>ht_put\<close> is the body of \<^verbatim>\<open>set\<close> after its resize check.\<close>

definition ht_put :: "hash_table \<Rightarrow> string \<Rightarrow> string \<Rightarrow> hash_table \<times> bool" where
  "ht_put t key val =
     (let bucket = ht_hash t key; ch = ht_buckets t ! bucket
      in case find_in_bucket t bucket key of
           (Some i, _) \<Rightarrow>
             (t\<lparr>ht_buckets := (ht_buckets t)[bucket := ch[i := (ch ! i)\<lparr>node_value := val\<rparr>]]\<rparr>,
              False)
         | (None, _) \<Rightarrow>
             (t\<lparr>ht_buckets :=
                  (ht_buckets t)[bucket := \<lparr>node_key = key, node_value = val\<rparr> # ch],
                ht_size := ht_size t + 1\<rparr>,
              True))"

definition ht_set :: "hash_table \<Rightarrow> string \<Rightarrow> string \<Rightarrow> hash_table \<times> bool" where
  "ht_set t key val =
     ht_put (if load_factor t > MAX_LOAD_FACTOR then ht_resize t else t) key val"

definition ht_get :: "hash_table \<Rightarrow> string \<Rightarrow> string option" where
  "ht_get t key =
     (let bucket = ht_hash t key
      in case find_in_bucket t bucket key of
           (Some i, _) \<Rightarrow> Some (node_value (ht_buckets t ! bucket ! i))
         | (None, _) \<Rightarrow> None)"

definition ht_del :: "hash_table \<Rightarrow> string \<Rightarrow> hash_table \<times> bool" where
  "ht_del t key =
     (let bucket = ht_hash t key; ch = ht_buckets t ! bucket
      in case find_in_bucket t bucket key of
           (None, _) \<Rightarrow> (t, False)
         | (Some i, Some p) \<Rightarrow>
             (t\<lparr>ht_buckets := (ht_buckets t)[bucket := take (Suc p) ch @ drop (Suc i) ch],
                ht_size := ht_size t - 1\<rparr>, True)
         | (Some i, None) \<Rightarrow>
             (t\<lparr>ht_buckets := (ht_buckets t)[bucket := drop (Suc i) ch],
                ht_size := ht_size t - 1\<rparr>, True))"

definition ht_exists :: "hash_table \<Rightarrow> string \<Rightarrow> bool" where
  "ht_exists t key = (fst (find_in_bucket t (ht_hash t key) key) \<noteq> None)"

definition ht_clear :: "hash_table \<Rightarrow> hash_table" where
  "ht_clear t = t\<lparr>ht_buckets := map (\<lambda>_. []) (ht_buckets t), ht_size := 0\<rparr>"

definition ht_keys :: "hash_table \<Rightarrow> string \<Rightarrow> string list" where
  "ht_keys t pat =
     concat (map (\<lambda>ch. map node_key (filter (\<lambda>n. matches_pattern (node_key n) pat) ch))
       (ht_buckets t))"

record ht_stats =
  total_entries :: nat
  total_buckets :: nat
  used_buckets :: nat
  max_chain_length :: nat
  average_chain_length :: real
  stat_load_factor :: real

fun stats_loop :: "chain list \<Rightarrow> nat \<times> nat \<times> nat \<Rightarrow> nat \<times> nat \<times> nat" where
  "stats_loop [] acc = acc"
| "stats_loop (ch # chs) (used, chained, longest) =
     stats_loop chs
       (if ch \<noteq> [] then (used + 1, chained + length ch, max longest (length ch))
        else (used, chained, longest))"

definition ht_get_stats :: "hash_table \<Rightarrow> ht_stats" where
  "ht_get_stats t =
     (case stats_loop (ht_buckets t) (0, 0, 0) of (used, chained, longest) \<Rightarrow>
        \<lparr>total_entries = ht_size t, total_buckets = length (ht_buckets t), used_buckets = used,
         max_chain_length = longest,
         average_chain_length = (if used > 0 then real chained / real used else 0),
         stat_load_factor = load_factor t\<rparr>)"

section \<open>The constructor\<close>

lemma grow_capacity_returns:
  assumes "initial \<le> 2 ^ 63" "k \<le> 63"
  shows "\<exists>k'. k \<le> k' \<and> k' \<le> 63 \<and> grow_capacity (2 ^ k) initial = Some (2 ^ k') \<and>
           initial \<le> 2 ^ k' \<and> (k' = k \<or> 2 ^ (k' - 1) < initial)"
  using assms(2)
proof (induction "63 - k" arbitrary: k)
  case 0
  then have "k = 63" by simp
  moreover have "grow_capacity (2 ^ 63) initial = Some (2 ^ 63)"
    using assms(1) by (subst grow_capacity.simps) (auto dest: leD)
  ultimately show ?case using assms(1) by (intro exI[of _ 63]) simp
next
  case (Suc d)
  show ?case
  proof (cases "(2::u64) ^ k < initial")
    case False
    then have "grow_capacity (2 ^ k) initial = Some (2 ^ k)"
      by (subst grow_capacity.simps) simp
    with False show ?thesis using Suc.prems by (intro exI[of _ k]) simp
  next
    case True
    have "d = 63 - Suc k" "Suc k \<le> 63" using Suc.hyps(2) by auto
    then obtain k' where k': "Suc k \<le> k'" "k' \<le> 63"
        "grow_capacity (2 ^ Suc k) initial = Some (2 ^ k')" "initial \<le> 2 ^ k'"
        "k' = Suc k \<or> 2 ^ (k' - 1) < initial"
      using Suc.hyps(1)[of "Suc k"] by blast
    have "grow_capacity (2 ^ k) initial = Some (2 ^ k')"
      using True k'(3) by (simp add: grow_capacity.simps[of "2 ^ k" initial] mult.commute)
    then show ?thesis using True k' by (intro exI[of _ k']) auto
  qed
qed

lemma power_of_two_u64: "(2::u64) ^ k \<le> 2 ^ 63"
proof (cases "k < 64")
  case True
  then have "(2::u64) ^ k = word_of_nat (2 ^ k)" by simp
  moreover have "(2::nat) ^ k \<le> 2 ^ 63" using True by (intro power_increasing) auto
  moreover have "unat (word_of_nat (2 ^ k) :: u64) = 2 ^ k"
  proof -
    have "(2::nat) ^ k < 2 ^ LENGTH(64)" using True by (simp only: power_strict_increasing_iff) simp
    then show ?thesis by (simp only: unat_of_nat mod_less)
  qed
  ultimately show ?thesis by (simp add: word_le_nat_alt)
next
  case False
  then have "(2::u64) ^ k = 0" by (simp add: exp_eq_zero_iff not_less)
  then show ?thesis by (metis word_zero_le)
qed

lemma grow_capacity_return_bound:
  assumes ret: "grow_capacity c i = Some r"
  shows "(\<exists>k. c = 2 ^ k) \<longrightarrow> i \<le> 2 ^ 63"
proof (rule grow_capacity.raw_induct
    [where P = "\<lambda>c i r. (\<exists>k. c = 2 ^ k) \<longrightarrow> i \<le> 2 ^ 63", OF _ ret])
  fix f :: "u64 \<Rightarrow> u64 \<Rightarrow> u64 option" and c i r
  assume IH: "\<And>c i r. f c i = Some r \<Longrightarrow> (\<exists>k. c = 2 ^ k) \<longrightarrow> i \<le> 2 ^ 63"
    and eq: "(if c < i then f (c * 2) i else Some c) = Some r"
  show "(\<exists>k. c = 2 ^ k) \<longrightarrow> i \<le> 2 ^ 63"
  proof (intro impI, elim exE)
    fix k assume c: "c = 2 ^ k"
    show "i \<le> 2 ^ 63"
    proof (cases "c < i")
      case True
      then have "f (c * 2) i = Some r" using eq by simp
      moreover have "c * 2 = 2 ^ Suc k" using c by (simp add: mult.commute)
      ultimately show ?thesis using IH by blast
    next
      case False
      then have "i \<le> c" by simp
      also have "c \<le> 2 ^ 63" using c power_of_two_u64 by simp
      finally show ?thesis .
    qed
  qed
qed

lemma grow_capacity_diverges: "2 ^ 63 < initial \<Longrightarrow> grow_capacity (2 ^ k) initial = None"
  using grow_capacity_return_bound[of "2 ^ k" initial]
  by (cases "grow_capacity (2 ^ k) initial") (auto simp: not_less[symmetric])

section \<open>Well-formed tables and the map they stand for\<close>

definition chain_map :: "chain \<Rightarrow> string \<Rightarrow> string option" where
  "chain_map ch = map_of (map (\<lambda>n. (node_key n, node_value n)) ch)"

definition ht_map :: "hash_table \<Rightarrow> string \<Rightarrow> string option" where
  "ht_map t k = chain_map (ht_buckets t ! ht_hash t k) k"

text \<open>
  Every node sits in the bucket its key hashes to, no key occurs twice in a chain, and the
  counter counts the nodes.
\<close>

definition placed :: "chain list \<Rightarrow> bool" where
  "placed bs = (bs \<noteq> [] \<and>
     (\<forall>i < length bs. distinct (map node_key (bs ! i)) \<and>
        (\<forall>n \<in> set (bs ! i). key_slot (length bs) (node_key n) = i)))"

definition ht_wf :: "hash_table \<Rightarrow> bool" where
  "ht_wf t = (placed (ht_buckets t) \<and> ht_size t = length (concat (ht_buckets t)))"

text \<open>
  The capacity is a power of two not below 16, and the table is never fuller than one entry
  above the threshold.
\<close>

definition ht_sized :: "hash_table \<Rightarrow> bool" where
  "ht_sized t = ((\<exists>k. ht_capacity t = 2 ^ k) \<and> 16 \<le> ht_capacity t \<and>
     4 * ht_size t \<le> 3 * ht_capacity t + 4)"

lemma ht_hash_less: "ht_buckets t \<noteq> [] \<Longrightarrow> ht_hash t k < length (ht_buckets t)"
  by (simp add: ht_hash_def key_slot_def)

lemma ht_wf_hash [simp]: "ht_wf t \<Longrightarrow> ht_hash t k < length (ht_buckets t)"
  by (simp add: ht_wf_def placed_def ht_hash_less)

lemma ht_wf_nonempty [simp]: "ht_wf t \<Longrightarrow> ht_buckets t \<noteq> []"
  by (simp add: ht_wf_def placed_def)

lemma placed_distinct: "placed bs \<Longrightarrow> distinct (map node_key (concat bs))"
  unfolding placed_def by (rule distinct_concat_nth) metis+

lemma placed_concat:
  assumes "placed bs"
  shows "n \<in> set (concat bs) \<longleftrightarrow> n \<in> set (bs ! key_slot (length bs) (node_key n))"
proof
  assume "n \<in> set (concat bs)"
  then obtain i where "i < length bs" "n \<in> set (bs ! i)"
    unfolding set_concat_nth by blast
  with assms show "n \<in> set (bs ! key_slot (length bs) (node_key n))" by (auto simp: placed_def)
next
  assume a: "n \<in> set (bs ! key_slot (length bs) (node_key n))"
  have "key_slot (length bs) (node_key n) < length bs"
    using assms by (simp add: placed_def key_slot_def)
  with a show "n \<in> set (concat bs)" unfolding set_concat_nth by blast
qed

lemma chain_map_Some_iff:
  assumes "distinct (map node_key ch)"
  shows "chain_map ch k = Some v \<longleftrightarrow> (\<exists>n \<in> set ch. node_key n = k \<and> node_value n = v)"
  using assms unfolding chain_map_def by (subst map_of_eq_Some_iff) (auto simp: comp_def)

lemma chain_map_None_iff: "chain_map ch k = None \<longleftrightarrow> k \<notin> node_key ` set ch"
  by (simp add: chain_map_def map_of_eq_None_iff image_image)

lemma ht_map_Some_iff:
  assumes "ht_wf t"
  shows "ht_map t k = Some v \<longleftrightarrow>
    (\<exists>n \<in> set (concat (ht_buckets t)). node_key n = k \<and> node_value n = v)"
proof -
  have p: "placed (ht_buckets t)" using assms by (simp add: ht_wf_def)
  have "distinct (map node_key (ht_buckets t ! ht_hash t k))"
    using p ht_wf_hash[OF assms] by (simp add: placed_def)
  then have "ht_map t k = Some v \<longleftrightarrow>
      (\<exists>n \<in> set (ht_buckets t ! ht_hash t k). node_key n = k \<and> node_value n = v)"
    by (simp add: ht_map_def chain_map_Some_iff)
  then show ?thesis using placed_concat[OF p] by (auto simp: ht_hash_def)
qed

lemma dom_ht_map: "ht_wf t \<Longrightarrow> dom (ht_map t) = node_key ` set (concat (ht_buckets t))"
  by (auto simp: dom_def ht_map_Some_iff)

lemma finite_dom_ht_map: "ht_wf t \<Longrightarrow> finite (dom (ht_map t))"
  by (simp add: dom_ht_map del: set_concat)

lemma ht_size_card: "ht_wf t \<Longrightarrow> ht_size t = card (dom (ht_map t))"
  using placed_distinct[of "ht_buckets t"] distinct_card[of "map node_key (concat (ht_buckets t))"]
  by (simp add: dom_ht_map ht_wf_def del: set_concat)

lemma ht_map_eqI:
  assumes "ht_wf t" "ht_wf u" "mset (concat (ht_buckets t)) = mset (concat (ht_buckets u))"
  shows "ht_map t = ht_map u"
proof
  fix k
  have "set (concat (ht_buckets t)) = set (concat (ht_buckets u))"
    using assms(3) by (metis set_mset_mset)
  then have "ht_map t k = Some v \<longleftrightarrow> ht_map u k = Some v" for v
    using assms(1,2) by (simp add: ht_map_Some_iff del: set_concat)
  then show "ht_map t k = ht_map u k" by (metis not_None_eq)
qed

section \<open>Searching a chain\<close>

lemma find_loop_None: "fst (find_loop ch k prev c) = None \<longleftrightarrow> k \<notin> node_key ` set ch"
  by (induction ch arbitrary: prev c) auto

lemma find_loop_Some:
  "find_loop ch k prev c = (Some i, p) \<Longrightarrow>
   c \<le> i \<and> i < c + length ch \<and> node_key (ch ! (i - c)) = k \<and>
   p = (if i = c then prev else Some (i - 1))"
proof (induction ch arbitrary: prev c)
  case Nil
  then show ?case by simp
next
  case (Cons n ch)
  show ?case
  proof (cases "node_key n = k")
    case True
    with Cons.prems show ?thesis by auto
  next
    case False
    then have "Suc c \<le> i \<and> i < Suc c + length ch \<and> node_key (ch ! (i - Suc c)) = k \<and>
        p = (if i = Suc c then Some c else Some (i - 1))"
      using Cons.IH[of "Some c" "Suc c"] Cons.prems by simp
    then show ?thesis by (auto simp: nth_Cons' Suc_diff_le)
  qed
qed

lemma find_in_bucket_None:
  "fst (find_in_bucket t b k) = None \<longleftrightarrow> k \<notin> node_key ` set (ht_buckets t ! b)"
  by (simp add: find_in_bucket_def find_loop_None)

lemma find_in_bucket_cases:
  obtains (absent) q where "find_in_bucket t b k = (None, q)"
      "k \<notin> node_key ` set (ht_buckets t ! b)"
    | (head) "find_in_bucket t b k = (Some 0, None)" "0 < length (ht_buckets t ! b)"
      "node_key (ht_buckets t ! b ! 0) = k"
    | (inner) i where "find_in_bucket t b k = (Some (Suc i), Some i)"
      "Suc i < length (ht_buckets t ! b)" "node_key (ht_buckets t ! b ! Suc i) = k"
proof (cases "find_in_bucket t b k")
  case (Pair r q)
  show ?thesis
  proof (cases r)
    case None
    then show ?thesis using Pair absent find_in_bucket_None[of t b k] by simp
  next
    case (Some i)
    then have f: "i < length (ht_buckets t ! b)" "node_key (ht_buckets t ! b ! i) = k"
        "q = (if i = 0 then None else Some (i - 1))"
      using Pair find_loop_Some[of "ht_buckets t ! b" k None 0 i q]
      by (auto simp: find_in_bucket_def)
    show ?thesis using f Pair Some head inner by (cases i) auto
  qed
qed

section \<open>Replacing the chain of one bucket\<close>

lemma chain_map_Cons [simp]: "chain_map (n # ch) = (chain_map ch)(node_key n \<mapsto> node_value n)"
  by (simp add: chain_map_def)

lemma chain_map_Nil [simp]: "chain_map [] = Map.empty"
  by (simp add: chain_map_def)

lemma chain_map_update:
  "distinct (map node_key ch) \<Longrightarrow> i < length ch \<Longrightarrow>
   chain_map (ch[i := (ch ! i)\<lparr>node_value := v\<rparr>]) = (chain_map ch)(node_key (ch ! i) \<mapsto> v)"
proof (induction ch arbitrary: i)
  case Nil
  then show ?case by simp
next
  case (Cons n ch)
  show ?case
  proof (cases i)
    case 0
    then show ?thesis by (simp add: fun_eq_iff)
  next
    case (Suc j)
    then have "node_key n \<noteq> node_key (ch ! j)" using Cons.prems by (metis Suc_less_eq distinct.simps(2) length_Cons list.simps(9) nth_mem image_eqI set_map)
    with Suc Cons show ?thesis by (auto simp: fun_eq_iff)
  qed
qed

lemma chain_map_remove:
  "distinct (map node_key ch) \<Longrightarrow> i < length ch \<Longrightarrow>
   chain_map (take i ch @ drop (Suc i) ch) = (chain_map ch)(node_key (ch ! i) := None)"
proof (induction ch arbitrary: i)
  case Nil
  then show ?case by simp
next
  case (Cons n ch)
  show ?case
  proof (cases i)
    case 0
    then have "chain_map ch (node_key n) = None" using Cons.prems by (simp add: chain_map_None_iff)
    with 0 show ?thesis by (auto simp: fun_eq_iff)
  next
    case (Suc j)
    then have "node_key n \<noteq> node_key (ch ! j)" using Cons.prems by (metis Suc_less_eq distinct.simps(2) length_Cons list.simps(9) nth_mem image_eqI set_map)
    with Suc Cons show ?thesis by (auto simp: fun_eq_iff)
  qed
qed

lemma map_node_key_update [simp]:
  "map node_key (ch[i := (ch ! i)\<lparr>node_value := v\<rparr>]) = map node_key ch"
  by (cases "i < length ch")
    (auto simp: list_update_beyond nth_list_update intro!: nth_equalityI)

lemma distinct_remove:
  "distinct xs \<Longrightarrow> distinct (take i xs @ drop (Suc i) xs)"
  by (metis distinct_append distinct_drop distinct_take drop_Suc order_refl set_drop_subset_set_drop
      set_take_disj_set_drop_if_distinct subset_iff disjoint_iff le_SucI)

lemma bucket_keys:
  "ht_wf t \<Longrightarrow> n \<in> set (ht_buckets t ! ht_hash t k) \<Longrightarrow> ht_hash t (node_key n) = ht_hash t k"
  using ht_wf_hash[of t k] by (auto simp: ht_wf_def placed_def ht_hash_def)

lemma bucket_distinct: "ht_wf t \<Longrightarrow> distinct (map node_key (ht_buckets t ! ht_hash t k))"
  using ht_wf_hash[of t k] by (auto simp: ht_wf_def placed_def)

text \<open>
  The one step every update is made of: the bucket of \<open>k\<close> gets another chain, whose keys
  are distinct and hash to that bucket.
\<close>

definition with_chain :: "hash_table \<Rightarrow> string \<Rightarrow> chain \<Rightarrow> nat \<Rightarrow> hash_table" where
  "with_chain t k ch n = t\<lparr>ht_buckets := (ht_buckets t)[ht_hash t k := ch], ht_size := n\<rparr>"

lemma with_chain_hash [simp]: "ht_hash (with_chain t k ch n) = ht_hash t"
  by (simp add: with_chain_def ht_hash_def fun_eq_iff)

lemma with_chain_size [simp]:
  "ht_size (with_chain t k ch n) = n" "ht_capacity (with_chain t k ch n) = ht_capacity t"
  by (simp_all add: with_chain_def ht_capacity_def)

lemma with_chain_wf:
  assumes "ht_wf t" "distinct (map node_key ch)" "\<forall>x \<in> set ch. ht_hash t (node_key x) = ht_hash t k"
    and "n + length (ht_buckets t ! ht_hash t k) = ht_size t + length ch"
  shows "ht_wf (with_chain t k ch n)"
proof -
  have "placed (ht_buckets (with_chain t k ch n))"
    using assms(1-3) ht_wf_hash[OF assms(1), of k]
    by (auto simp: with_chain_def ht_wf_def placed_def nth_list_update ht_hash_def)
  moreover have "n = length (concat ((ht_buckets t)[ht_hash t k := ch]))"
    using assms(1,4) length_concat_update[OF ht_wf_hash[OF assms(1), of k], of ch]
    by (simp add: ht_wf_def)
  ultimately show ?thesis by (simp add: ht_wf_def with_chain_def)
qed

lemma with_chain_map:
  assumes "ht_wf t" "\<And>k'. ht_hash t k' = ht_hash t k \<Longrightarrow> chain_map ch k' = m k'"
    and "\<And>k'. ht_hash t k' \<noteq> ht_hash t k \<Longrightarrow> ht_map t k' = m k'"
  shows "ht_map (with_chain t k ch n) = m"
proof
  fix k'
  show "ht_map (with_chain t k ch n) k' = m k'"
    using assms ht_wf_hash[OF assms(1), of k]
    by (cases "ht_hash t k' = ht_hash t k") (simp_all add: ht_map_def with_chain_def ht_hash_def)
qed

section \<open>What each operation does to the map\<close>

lemma ht_map_bucket: "ht_map t k = chain_map (ht_buckets t ! ht_hash t k) k"
  by (rule ht_map_def)

lemma ht_put_cases:
  obtains (new) "ht_map t k = None"
      "ht_put t k v = (with_chain t k (\<lparr>node_key = k, node_value = v\<rparr> # ht_buckets t ! ht_hash t k)
         (ht_size t + 1), True)"
    | (old) i where "ht_map t k \<noteq> None" "i < length (ht_buckets t ! ht_hash t k)"
      "node_key (ht_buckets t ! ht_hash t k ! i) = k"
      "ht_put t k v = (with_chain t k ((ht_buckets t ! ht_hash t k)
         [i := (ht_buckets t ! ht_hash t k ! i)\<lparr>node_value := v\<rparr>]) (ht_size t), False)"
proof (cases rule: find_in_bucket_cases[of t "ht_hash t k" k])
  case (absent q)
  then show ?thesis using new
    by (simp add: Let_def ht_put_def with_chain_def ht_map_def chain_map_None_iff)
next
  case head
  have "k \<in> node_key ` set (ht_buckets t ! ht_hash t k)" using head(2,3) by (metis image_eqI nth_mem)
  with head show ?thesis using old[of 0]
    by (auto simp: Let_def ht_put_def with_chain_def ht_map_def chain_map_None_iff)
next
  case (inner i)
  have "node_key (ht_buckets t ! ht_hash t k ! Suc i) \<in> node_key ` set (ht_buckets t ! ht_hash t k)"
    using inner(2) by simp
  then show ?thesis using inner old[of "Suc i"]
    by (auto simp: Let_def ht_put_def with_chain_def ht_map_def chain_map_None_iff)
qed

lemma ht_put_wf:
  assumes wf: "ht_wf t"
  shows "ht_wf (fst (ht_put t k v))"
proof (cases rule: ht_put_cases[of t k v])
  case new
  then show ?thesis using wf bucket_distinct[OF wf, of k] bucket_keys[OF wf]
    by (auto intro!: with_chain_wf simp: ht_map_def chain_map_None_iff)
next
  case (old i)
  have "x \<in> set ((ht_buckets t ! ht_hash t k)[i := (ht_buckets t ! ht_hash t k ! i)\<lparr>node_value := v\<rparr>])
    \<Longrightarrow> ht_hash t (node_key x) = ht_hash t k" for x
    using old(2,3) bucket_keys[OF wf] by (auto simp: in_set_conv_nth nth_list_update split: if_splits)
  then show ?thesis using old wf bucket_distinct[OF wf, of k]
    by (auto intro!: with_chain_wf)
qed

lemma ht_put_map:
  assumes wf: "ht_wf t"
  shows "ht_map (fst (ht_put t k v)) = (ht_map t)(k \<mapsto> v)"
proof (cases rule: ht_put_cases[of t k v])
  case new
  with wf new show ?thesis by (auto intro!: with_chain_map simp: ht_map_def)
next
  case (old i)
  with wf old bucket_distinct[of t k] chain_map_update[of "ht_buckets t ! ht_hash t k" i v]
  show ?thesis by (auto intro!: with_chain_map simp: ht_map_def)
qed

lemma ht_put_new: "ht_wf t \<Longrightarrow> snd (ht_put t k v) \<longleftrightarrow> ht_map t k = None"
  by (cases rule: ht_put_cases[of t k v]) auto

lemma ht_put_size:
  "ht_wf t \<Longrightarrow> ht_size (fst (ht_put t k v)) = ht_size t + (if ht_map t k = None then 1 else 0)"
  by (cases rule: ht_put_cases[of t k v]) auto

lemma ht_put_capacity: "ht_wf t \<Longrightarrow> ht_capacity (fst (ht_put t k v)) = ht_capacity t"
  by (cases rule: ht_put_cases[of t k v]) auto

lemma ht_get_map:
  assumes wf: "ht_wf t"
  shows "ht_get t k = ht_map t k"
proof (cases rule: find_in_bucket_cases[of t "ht_hash t k" k])
  case (absent q)
  then show ?thesis by (simp add: Let_def ht_get_def ht_map_def chain_map_None_iff[THEN iffD2])
next
  case head
  have "chain_map (ht_buckets t ! ht_hash t k) k = Some (node_value (ht_buckets t ! ht_hash t k ! 0))"
    using head bucket_distinct[OF wf, of k] by (auto simp: chain_map_Some_iff)
  with head show ?thesis by (simp add: Let_def ht_get_def ht_map_def)
next
  case (inner i)
  have "chain_map (ht_buckets t ! ht_hash t k) k = Some (node_value (ht_buckets t ! ht_hash t k ! Suc i))"
    using inner bucket_distinct[OF wf, of k] by (auto simp: chain_map_Some_iff)
  with inner show ?thesis by (simp add: Let_def ht_get_def ht_map_def)
qed

lemma ht_exists_map: "ht_exists t k \<longleftrightarrow> ht_map t k \<noteq> None"
  by (simp add: ht_exists_def find_in_bucket_None ht_map_def chain_map_None_iff)

lemma ht_del_cases:
  obtains (absent) "ht_map t k = None" "ht_del t k = (t, False)"
    | (found) i where "ht_map t k \<noteq> None" "i < length (ht_buckets t ! ht_hash t k)"
      "node_key (ht_buckets t ! ht_hash t k ! i) = k"
      "ht_del t k = (with_chain t k (take i (ht_buckets t ! ht_hash t k) @
         drop (Suc i) (ht_buckets t ! ht_hash t k)) (ht_size t - 1), True)"
proof (cases rule: find_in_bucket_cases[of t "ht_hash t k" k])
  case (absent q)
  then show ?thesis using that(1) by (simp add: Let_def ht_del_def ht_map_def chain_map_None_iff)
next
  case head
  have "k \<in> node_key ` set (ht_buckets t ! ht_hash t k)" using head(2,3) by (metis image_eqI nth_mem)
  with head show ?thesis using that(2)[of 0]
    by (auto simp: Let_def ht_del_def with_chain_def ht_map_def chain_map_None_iff)
next
  case (inner i)
  have "k \<in> node_key ` set (ht_buckets t ! ht_hash t k)" using inner(2,3) by (metis image_eqI nth_mem)
  then show ?thesis using inner that(2)[of "Suc i"]
    by (simp add: Let_def ht_del_def with_chain_def ht_map_def chain_map_None_iff)
qed

lemma ht_del_wf:
  assumes wf: "ht_wf t"
  shows "ht_wf (fst (ht_del t k))"
proof (cases rule: ht_del_cases[of t k])
  case absent
  with wf absent show ?thesis by simp
next
  case (found i)
  let ?ch = "ht_buckets t ! ht_hash t k"
  have "length ?ch \<le> ht_size t"
    using wf length_concat_update[OF ht_wf_hash[OF wf, of k], of "[]"] by (simp add: ht_wf_def)
  moreover have "x \<in> set (take i ?ch @ drop (Suc i) ?ch) \<Longrightarrow> x \<in> set ?ch" for x
    by (auto dest: in_set_takeD in_set_dropD)
  moreover have "distinct (map node_key (take i ?ch @ drop (Suc i) ?ch))"
    using distinct_remove[OF bucket_distinct[OF wf, of k], of i] by (simp add: take_map drop_map)
  ultimately show ?thesis using found wf bucket_keys[OF wf]
    by (auto intro!: with_chain_wf)
qed

lemma ht_del_map:
  assumes wf: "ht_wf t"
  shows "ht_map (fst (ht_del t k)) = (ht_map t)(k := None)"
proof (cases rule: ht_del_cases[of t k])
  case absent
  then show ?thesis by (auto simp: fun_eq_iff)
next
  case (found i)
  with wf found bucket_distinct[of t k] chain_map_remove[of "ht_buckets t ! ht_hash t k" i]
  show ?thesis by (auto intro!: with_chain_map simp: ht_map_def)
qed

lemma ht_del_found: "snd (ht_del t k) \<longleftrightarrow> ht_map t k \<noteq> None"
  by (cases rule: ht_del_cases[of t k]) auto

lemma ht_del_size_le: "ht_size (fst (ht_del t k)) \<le> ht_size t"
  by (cases rule: ht_del_cases[of t k]) auto

lemma ht_del_capacity: "ht_capacity (fst (ht_del t k)) = ht_capacity t"
  by (cases rule: ht_del_cases[of t k]) auto

section \<open>Clearing, resizing, setting\<close>

lemma key_slot_less [simp]: "0 < c \<Longrightarrow> key_slot c k < c"
  by (simp add: key_slot_def)

lemma ht_clear_wf: "ht_wf t \<Longrightarrow> ht_wf (ht_clear t)"
  by (auto simp: ht_clear_def ht_wf_def placed_def)

lemma ht_clear_map: "ht_wf t \<Longrightarrow> ht_map (ht_clear t) = Map.empty"
  using ht_wf_hash[of t] by (auto simp: fun_eq_iff ht_clear_def ht_map_def ht_hash_def)

text \<open>One moved node: the placement is kept and the node is added to the multiset of nodes.\<close>

definition slots_ok :: "nat \<Rightarrow> chain list \<Rightarrow> bool" where
  "slots_ok c bs = (length bs = c \<and> (\<forall>i < c. \<forall>n \<in> set (bs ! i). key_slot c (node_key n) = i))"

lemma rehash_node_ok:
  "0 < c \<Longrightarrow> slots_ok c bs \<Longrightarrow> slots_ok c (rehash_node c bs n) \<and>
   mset (concat (rehash_node c bs n)) = add_mset n (mset (concat bs))"
  by (auto simp: slots_ok_def rehash_node_def Let_def nth_list_update mset_concat_push)

lemma rehash_chain_ok:
  "0 < c \<Longrightarrow> slots_ok c bs \<Longrightarrow> slots_ok c (foldl (rehash_node c) bs ch) \<and>
   mset (concat (foldl (rehash_node c) bs ch)) = mset ch + mset (concat bs)"
  by (induction ch arbitrary: bs) (auto simp: rehash_node_ok)

lemma rehash_all_ok:
  "0 < c \<Longrightarrow> slots_ok c bs \<Longrightarrow> slots_ok c (foldl (foldl (rehash_node c)) bs chs) \<and>
   mset (concat (foldl (foldl (rehash_node c)) bs chs)) = mset (concat chs) + mset (concat bs)"
  by (induction chs arbitrary: bs) (auto simp: rehash_chain_ok)

lemma ht_resize_props:
  assumes "ht_wf t"
  shows "slots_ok (2 * length (ht_buckets t)) (ht_buckets (ht_resize t))"
    and "mset (concat (ht_buckets (ht_resize t))) = mset (concat (ht_buckets t))"
proof -
  have pos: "0 < length (ht_buckets t) * 2" using ht_wf_nonempty[OF assms] by simp
  have "slots_ok (length (ht_buckets t) * 2) (replicate (length (ht_buckets t) * 2) [])"
    by (simp add: slots_ok_def)
  from rehash_all_ok[OF pos this, of "ht_buckets t"]
  show "slots_ok (2 * length (ht_buckets t)) (ht_buckets (ht_resize t))"
    and "mset (concat (ht_buckets (ht_resize t))) = mset (concat (ht_buckets t))"
    by (simp_all add: ht_resize_def Let_def mult.commute)
qed

lemma distinct_bucket:
  "distinct (map f (concat bs)) \<Longrightarrow> i < length bs \<Longrightarrow> distinct (map f (bs ! i))"
  by (metis distinct_append concat.simps(2) concat_append id_take_nth_drop map_append)

lemma ht_resize_wf:
  assumes wf: "ht_wf t"
  shows "ht_wf (ht_resize t)"
proof -
  have same: "mset (map node_key (concat (ht_buckets (ht_resize t)))) =
      mset (map node_key (concat (ht_buckets t)))"
    using ht_resize_props(2)[OF wf] by (metis mset_map)
  have "distinct (map node_key (concat (ht_buckets t)))"
    using wf placed_distinct by (simp add: ht_wf_def)
  then have "distinct (map node_key (concat (ht_buckets (ht_resize t))))"
    using same mset_eq_imp_distinct_iff by blast
  then have "placed (ht_buckets (ht_resize t))"
    using ht_resize_props(1)[OF wf] ht_wf_nonempty[OF wf]
    by (auto simp: placed_def slots_ok_def intro: distinct_bucket)
  moreover have "length (concat (ht_buckets (ht_resize t))) = length (concat (ht_buckets t))"
    using ht_resize_props(2)[OF wf] by (metis size_mset)
  moreover have "ht_size (ht_resize t) = ht_size t" by (simp add: ht_resize_def Let_def)
  ultimately show ?thesis using wf by (simp add: ht_wf_def)
qed

lemma ht_resize_map: "ht_wf t \<Longrightarrow> ht_map (ht_resize t) = ht_map t"
  by (rule ht_map_eqI) (simp_all add: ht_resize_wf ht_resize_props(2))

lemma ht_resize_capacity:
  "ht_wf t \<Longrightarrow> ht_capacity (ht_resize t) = 2 * ht_capacity t \<and> ht_size (ht_resize t) = ht_size t"
  using ht_resize_props(1)[of t] by (simp add: ht_capacity_def slots_ok_def ht_resize_def Let_def)

lemma ht_set_wf [wf_intros]: "ht_wf t \<Longrightarrow> ht_wf (fst (ht_set t k v))"
  by (simp add: ht_set_def ht_put_wf ht_resize_wf)

lemma ht_set_map [abs_simps]: "ht_wf t \<Longrightarrow> ht_map (fst (ht_set t k v)) = (ht_map t)(k \<mapsto> v)"
  by (simp add: ht_set_def ht_put_map ht_resize_wf ht_resize_map)

lemma ht_set_new [abs_simps]: "ht_wf t \<Longrightarrow> snd (ht_set t k v) \<longleftrightarrow> ht_map t k = None"
  by (simp add: ht_set_def ht_put_new ht_resize_wf ht_resize_map)

lemmas ht_wf_ops [wf_intros] = ht_del_wf ht_clear_wf ht_resize_wf
lemmas ht_map_ops [abs_simps] = ht_get_map ht_exists_map ht_del_map ht_del_found ht_clear_map

lemma load_factor_iff:
  "ht_buckets t \<noteq> [] \<Longrightarrow> load_factor t > MAX_LOAD_FACTOR \<longleftrightarrow> 3 * ht_capacity t < 4 * ht_size t"
proof -
  assume "ht_buckets t \<noteq> []"
  then have "0 < real (ht_capacity t)" "load_factor t = real (ht_size t) / real (ht_capacity t)"
    by (simp_all add: load_factor_def ht_capacity_def)
  then have "load_factor t > MAX_LOAD_FACTOR \<longleftrightarrow> real (3 * ht_capacity t) < real (4 * ht_size t)"
    by (simp add: MAX_LOAD_FACTOR_def less_divide_eq mult.commute)
  then show ?thesis by (simp only: of_nat_less_iff)
qed

lemma ht_set_sized:
  assumes "ht_wf t" "ht_sized t"
  shows "ht_sized (fst (ht_set t k v))"
proof (cases "load_factor t > MAX_LOAD_FACTOR")
  case True
  obtain e where "ht_capacity t = 2 ^ e" using assms(2) by (auto simp: ht_sized_def)
  then have "ht_capacity (ht_resize t) = 2 ^ Suc e" using ht_resize_capacity[OF assms(1)] by simp
  then show ?thesis
    using True assms ht_resize_capacity[OF assms(1)] ht_resize_wf[OF assms(1)]
    by (auto simp: ht_sized_def ht_set_def ht_put_capacity ht_put_size intro: exI[of _ "Suc e"])
next
  case False
  then have "4 * ht_size t \<le> 3 * ht_capacity t"
    using load_factor_iff[of t] assms(1) by simp
  then show ?thesis using False assms
    by (auto simp: ht_sized_def ht_set_def ht_put_capacity ht_put_size)
qed

lemma ht_del_sized: "ht_sized t \<Longrightarrow> ht_sized (fst (ht_del t k))"
  using ht_del_size_le[of t k] by (auto simp: ht_sized_def ht_del_capacity)

lemma ht_clear_sized: "ht_sized t \<Longrightarrow> ht_sized (ht_clear t)"
  by (auto simp: ht_sized_def ht_clear_def ht_capacity_def)

section \<open>Listing keys\<close>

lemma ht_keys_filter:
  "ht_keys t pat = filter (\<lambda>k. matches_pattern k pat) (map node_key (concat (ht_buckets t)))"
proof -
  have "concat (map (\<lambda>ch. map node_key (filter (\<lambda>n. matches_pattern (node_key n) pat) ch)) bs) =
      filter (\<lambda>k. matches_pattern k pat) (map node_key (concat bs))" for bs
    by (induction bs) (auto simp: filter_map comp_def)
  then show ?thesis by (simp add: ht_keys_def)
qed

lemma ht_keys_set: "ht_wf t \<Longrightarrow> set (ht_keys t pat) = {k \<in> dom (ht_map t). matches_pattern k pat}"
  by (auto simp: ht_keys_filter dom_ht_map simp del: set_concat)

lemma ht_keys_distinct: "ht_wf t \<Longrightarrow> distinct (ht_keys t pat)"
  unfolding ht_keys_filter by (rule distinct_filter) (simp add: ht_wf_def placed_distinct)

section \<open>The table keeps the contract\<close>

interpretation ht: kv_table ht_wf ht_map ht_set ht_get ht_del ht_exists ht_keys ht_clear ht_size
  by unfold_locales
    (simp_all add: wf_intros abs_simps ht_keys_set ht_keys_distinct finite_dom_ht_map ht_size_card)

section \<open>Statistics\<close>

lemma stats_loop_eq:
  "stats_loop bs (u, c, l) =
     (u + length (filter (\<lambda>ch. ch \<noteq> []) bs), c + length (concat bs),
      foldl (\<lambda>l ch. max l (length ch)) l bs)"
  by (induction bs arbitrary: u c l) auto

lemma foldl_max_bound:
  "(l :: nat) \<le> foldl (\<lambda>l ch. max l (length ch)) l bs \<and>
   (\<forall>ch \<in> set bs. length ch \<le> foldl (\<lambda>l ch. max l (length ch)) l bs)"
proof (induction bs arbitrary: l)
  case Nil
  then show ?case by simp
next
  case (Cons ch bs)
  from Cons[of "max l (length ch)"] show ?case by auto
qed

lemma ht_stats_total:
  "ht_wf t \<Longrightarrow> ch \<in> set (ht_buckets t) \<Longrightarrow>
   length ch \<le> max_chain_length (ht_get_stats t) \<and>
   average_chain_length (ht_get_stats t) * real (used_buckets (ht_get_stats t)) =
     real (total_entries (ht_get_stats t))"
proof -
  assume wf: "ht_wf t" and ch: "ch \<in> set (ht_buckets t)"
  define u where "u = length (filter (\<lambda>ch. ch \<noteq> []) (ht_buckets t))"
  define n where "n = length (concat (ht_buckets t))"
  have "n = 0" if "u = 0"
    using that by (simp add: u_def n_def filter_empty_conv)
  moreover have "ht_get_stats t = \<lparr>total_entries = ht_size t,
      total_buckets = length (ht_buckets t), used_buckets = u,
      max_chain_length = foldl (\<lambda>l ch. max l (length ch)) 0 (ht_buckets t),
      average_chain_length = (if u > 0 then real n / real u else 0),
      stat_load_factor = load_factor t\<rparr>"
    by (simp only: ht_get_stats_def stats_loop_eq u_def n_def prod.case add_0)
  ultimately have avg: "average_chain_length (ht_get_stats t) * real (used_buckets (ht_get_stats t)) =
      real n" by simp
  have "length ch \<le> max_chain_length (ht_get_stats t)"
    using ch foldl_max_bound[of 0 "ht_buckets t"] by (simp add: ht_get_stats_def stats_loop_eq)
  moreover have "total_entries (ht_get_stats t) = n"
    using wf by (simp add: ht_get_stats_def stats_loop_eq ht_wf_def n_def)
  ultimately show ?thesis using avg by simp
qed

section \<open>Fresh tables\<close>

lemma ht_new_wf:
  assumes "initial \<le> 2 ^ 63"
  obtains t where "ht_new initial = Some t" "ht_wf t" "ht_sized t" "ht_map t = Map.empty"
    "unat initial \<le> ht_capacity t" "ht_capacity t = 16 \<or> ht_capacity t < 2 * unat initial"
proof -
  have p: "unat ((2::u64) ^ k) = 2 ^ k" if "k \<le> 63" for k
  proof -
    have "(2::nat) ^ k < 2 ^ LENGTH(64)" using that by (simp only: power_strict_increasing_iff) simp
    then have "unat (word_of_nat (2 ^ k) :: u64) = 2 ^ k" by (simp only: unat_of_nat mod_less)
    then show ?thesis by simp
  qed
  obtain k where k: "4 \<le> k" "k \<le> 63" "grow_capacity (2 ^ 4) initial = Some (2 ^ k)"
      "initial \<le> 2 ^ k" "k = 4 \<or> 2 ^ (k - 1) < initial"
    using grow_capacity_returns[OF assms, of 4] by auto
  define t where "t = \<lparr>ht_buckets = replicate (unat ((2::u64) ^ k)) [], ht_size = 0\<rparr>"
  have cap: "ht_capacity t = 2 ^ k" using p[OF k(2)] by (simp add: t_def ht_capacity_def)
  have new: "ht_new initial = Some t" using k(3) by (simp add: ht_new_def MIN_CAPACITY_def t_def)
  have wf: "ht_wf t" using p[OF k(2)] by (auto simp: t_def ht_wf_def placed_def)
  have empty: "ht_map t = Map.empty"
    using ht_wf_hash[OF wf] by (auto simp: fun_eq_iff ht_map_def t_def)
  have big: "(16::nat) \<le> 2 ^ k" using power_increasing[OF k(1), of "2::nat"] by simp
  have fits: "unat initial \<le> 2 ^ k" using k(4) p[OF k(2)] by (simp add: word_le_nat_alt)
  have tight: "(2::nat) ^ k = 16 \<or> 2 ^ k < 2 * unat initial"
  proof (cases "k = 4")
    case False
    then have "2 ^ (k - 1) < initial" "k = Suc (k - 1)" using k(1,5) by auto
    then have "2 ^ (k - 1) < unat initial" using p[of "k - 1"] k(2) by (simp add: word_less_nat_alt)
    then show ?thesis using \<open>k = Suc (k - 1)\<close> by (metis mult_less_cancel1 power_Suc zero_less_numeral)
  qed simp
  show ?thesis
    by (rule that[OF new wf _ empty]) (use cap big fits tight in \<open>auto simp: ht_sized_def t_def\<close>)
qed

section \<open>Every table a client can build\<close>

text \<open>
  A table that has been moved from (\<open>moved\<close>) can still be cleared, moved and assigned to. Its methods that hash a key take the remainder of a
  division by its number of buckets, which is zero, and are undefined.
\<close>

inductive ht_reachable :: "bool \<Rightarrow> hash_table \<Rightarrow> bool" where
  created: "ht_new initial = Some t \<Longrightarrow> ht_reachable False t"
| after_set: "ht_reachable False t \<Longrightarrow> ht_reachable False (fst (ht_set t k v))"
| after_del: "ht_reachable False t \<Longrightarrow> ht_reachable False (fst (ht_del t k))"
| after_clear: "ht_reachable moved t \<Longrightarrow> ht_reachable moved (ht_clear t)"
| move_target: "ht_reachable moved t \<Longrightarrow> ht_reachable moved (fst (ht_move t))"
| move_source: "ht_reachable moved t \<Longrightarrow> ht_reachable True (snd (ht_move t))"
| assign_target: "ht_reachable moved' t \<Longrightarrow> ht_reachable moved other \<Longrightarrow> ht_reachable moved (fst (ht_assign t other))"
| assign_source: "ht_reachable moved' t \<Longrightarrow> ht_reachable moved other \<Longrightarrow> ht_reachable True (snd (ht_assign t other))"

lemma ht_new_diverges: "2 ^ 63 < initial \<Longrightarrow> ht_new initial = None"
  using grow_capacity_diverges[of initial 4] by (simp add: ht_new_def MIN_CAPACITY_def)

lemma ht_new_Some:
  assumes "ht_new initial = Some t"
  shows "initial \<le> 2 ^ 63 \<and> ht_wf t \<and> ht_sized t \<and> ht_map t = Map.empty"
proof -
  have small: "initial \<le> 2 ^ 63"
  proof (rule ccontr)
    assume "\<not> initial \<le> 2 ^ 63"
    then have "ht_new initial = None" by (intro ht_new_diverges) (simp only: not_le)
    with assms show False by simp
  qed
  then show ?thesis using assms by (metis ht_new_wf option.inject)
qed

lemma fst_ht_move [simp]: "fst (ht_move t) = t"
  by (simp add: ht_move_def)

lemma snd_ht_move [simp]: "snd (ht_move t) = \<lparr>ht_buckets = [], ht_size = 0\<rparr>"
  by (simp add: ht_move_def)

lemma ht_clear_no_buckets: "ht_buckets t = [] \<Longrightarrow> ht_buckets (ht_clear t) = [] \<and> ht_size (ht_clear t) = 0"
  by (simp add: ht_clear_def)

lemma ht_reachable_inv:
  "ht_reachable moved t \<Longrightarrow> if moved then ht_buckets t = [] \<and> ht_size t = 0 else ht_wf t \<and> ht_sized t"
  by (induction rule: ht_reachable.induct)
    (auto simp: wf_intros ht_set_sized ht_del_sized ht_clear_sized ht_assign_def ht_clear_no_buckets split: if_splits
      dest: ht_new_Some)

definition default_table :: hash_table where
  "default_table = \<lparr>ht_buckets = replicate 16 [], ht_size = 0\<rparr>"

lemma default_table_new: "ht_new 16 = Some default_table"
  by (simp add: ht_new_def MIN_CAPACITY_def grow_capacity.simps[of 16 16] default_table_def)

lemma default_table_reachable: "ht_reachable False default_table"
  using default_table_new by (rule ht_reachable.created)

lemma default_table_wf: "ht_wf default_table"
  using ht_reachable_inv[OF default_table_reachable] by simp

lemma default_table_map: "ht_map default_table = Map.empty"
  using ht_new_Some[OF default_table_new] by simp

section \<open>Properties\<close>

text \<open>
  C21: Every table a client can build with constructors, methods and moves, unless it is one that was moved from, keeps every node in the
  bucket of its hash, no key twice, the counter equal to the number of nodes, a power-of-two capacity of at least 16, and
  at most one entry more than three quarters of the capacity. A table that was moved from, and not assigned to since, is empty and has no
  buckets.
\<close>

theorem reachable_table_invariant:
  "ht_reachable moved t \<Longrightarrow> if moved then ht_buckets t = [] \<and> ht_size t = 0 else ht_wf t \<and> ht_sized t"
  by (rule ht_reachable_inv)

text \<open>A table that is filled and then assigned to one that was moved from.\<close>

theorem reachable_table_invariant_witness:
  "ht_wf (fst (ht_assign (snd (ht_move default_table)) (fst (ht_set default_table ''k'' ''v'')))) \<and>
   ht_sized (fst (ht_assign (snd (ht_move default_table)) (fst (ht_set default_table ''k'' ''v''))))"
proof -
  have "ht_reachable False (fst (ht_assign (snd (ht_move default_table)) (fst (ht_set default_table ''k'' ''v''))))"
    by (rule assign_target[OF move_source[OF default_table_reachable] after_set[OF default_table_reachable]])
  from reachable_table_invariant[OF this] show ?thesis by simp
qed

text \<open>
  C6: \<^verbatim>\<open>set\<close> is map update. It keeps the invariant, whether or not the table is
  resized first; it returns true exactly when the key was new; a later \<^verbatim>\<open>get\<close> of the
  key returns the value and of another key what it returned before; the size grows by one
  exactly for a new key.
\<close>

theorem set_refines_map_update:
  assumes "ht_wf t"
  shows "ht_wf (fst (ht_set t k v)) \<and>
    ht_map (fst (ht_set t k v)) = (ht_map t)(k \<mapsto> v) \<and>
    snd (ht_set t k v) = (ht_map t k = None) \<and>
    ht_get (fst (ht_set t k v)) k' = (if k' = k then Some v else ht_get t k') \<and>
    ht_size (fst (ht_set t k v)) = ht_size t + (if ht_map t k = None then 1 else 0)"
  using assms ht.size_set[OF assms, of k v] by (simp add: ht.invars ht.maps ht.get_set)

theorem set_refines_map_update_witness:
  "ht_get (fst (ht_set default_table ''k'' ''v'')) ''k'' = Some ''v''"
  using set_refines_map_update[OF default_table_wf, of "''k''" "''v''" "''k''"] by simp

text \<open>
  C22: \<^verbatim>\<open>del\<close> is map removal. It keeps the invariant, returns true exactly when the key
  was present, removes that key and no other, and lowers the size by one exactly then.
\<close>

theorem del_refines_map_removal:
  assumes "ht_wf t"
  shows "ht_wf (fst (ht_del t k)) \<and> ht_map (fst (ht_del t k)) = (ht_map t)(k := None) \<and>
    snd (ht_del t k) = (ht_map t k \<noteq> None) \<and>
    ht_get (fst (ht_del t k)) k' = (if k' = k then None else ht_get t k') \<and>
    (ht_map t k \<noteq> None \<longrightarrow> ht_size (fst (ht_del t k)) + 1 = ht_size t)"
proof -
  have "0 < ht_size t" if "ht_map t k \<noteq> None"
    using that assms by (auto simp: ht.size_card card_gt_0_iff ht.map_finite)
  then show ?thesis
    using assms ht.size_del[OF assms, of k] by (auto simp: ht.invars ht.maps ht.get_del)
qed

theorem del_refines_map_removal_witness:
  "ht_get (fst (ht_del (fst (ht_set default_table ''k'' ''v'')) ''k'')) ''k'' = None"
  using del_refines_map_removal[OF ht_set_wf[OF default_table_wf, of "''k''" "''v''"], of "''k''" "''k''"]
  by simp

text \<open>
  Resizing doubles the capacity, re-places every node by its hash modulo the new
  capacity, and changes neither the map nor the number of entries.
\<close>

theorem resize_preserves_map:
  assumes "ht_wf t"
  shows "ht_wf (ht_resize t) \<and> ht_map (ht_resize t) = ht_map t \<and>
    ht_size (ht_resize t) = ht_size t \<and> ht_capacity (ht_resize t) = 2 * ht_capacity t"
  using assms ht_resize_wf ht_resize_map ht_resize_capacity by blast

theorem resize_preserves_map_witness:
  "ht_map (ht_resize (fst (ht_set default_table ''k'' ''v''))) ''k'' = Some ''v''"
  using resize_preserves_map[OF ht_set_wf[OF default_table_wf, of "''k''" "''v''"]]
  by (simp add: ht_set_map[OF default_table_wf])

text \<open>
  \<^verbatim>\<open>keys\<close> lists without repetition exactly the keys present that the matcher
  accepts; for the pattern \<open>*\<close> it lists all of them, as many as \<^verbatim>\<open>size()\<close>.
\<close>

theorem keys_lists_matching_keys:
  assumes "ht_wf t"
  shows "distinct (ht_keys t pat) \<and>
    set (ht_keys t pat) = {k. ht_map t k \<noteq> None \<and> matches_pattern k pat} \<and>
    length (ht_keys t ''*'') = ht_size t"
  using assms ht.length_keys_all[OF assms] by (auto simp: ht.keys_set ht.keys_distinct)

theorem keys_lists_matching_keys_witness:
  "set (ht_keys (fst (ht_set default_table ''k'' ''v'')) ''*'') = {''k''}"
  using keys_lists_matching_keys[OF ht_set_wf[OF default_table_wf, of "''k''" "''v''"], of "''*''"]
  by (simp add: ht_set_map[OF default_table_wf] default_table_map matches_pattern_def
      split: if_splits)

text \<open>
  The constructor returns for every requested capacity up to \<open>2 ^ 63\<close>, with an empty
  well-formed table whose capacity is a power of two, covers the request and is the least such
  (16, or below twice the request).
\<close>

theorem constructor_rounds_up:
  assumes "initial \<le> 2 ^ 63"
  shows "\<exists>t. ht_new initial = Some t \<and> ht_wf t \<and> ht_sized t \<and> ht_map t = Map.empty \<and>
    unat initial \<le> ht_capacity t \<and> (ht_capacity t = 16 \<or> ht_capacity t < 2 * unat initial)"
  using ht_new_wf[OF assms] by metis

theorem constructor_rounds_up_witness:
  "\<exists>t. ht_new 100 = Some t \<and> ht_sized t \<and> 100 \<le> ht_capacity t \<and> ht_capacity t < 200"
  using constructor_rounds_up[of 100] by fastforce

text \<open>
  For a requested capacity above \<open>2 ^ 63\<close> the doubling wraps to zero and the
  constructor never returns.
\<close>

theorem constructor_diverges_above_2_63: "2 ^ 63 < initial \<Longrightarrow> ht_new initial = None"
  by (rule ht_new_diverges)

theorem constructor_diverges_above_2_63_witness: "ht_new (2 ^ 63 + 1) = None"
  by (rule constructor_diverges_above_2_63) simp

end
