(* ===== verification/Hash_Iterator.thy ===== *)
theory Hash_Iterator
  imports Hash_Table
begin

text \<open>
  \<^verbatim>\<open>HashTable::Iterator\<close>, \<^verbatim>\<open>begin()\<close> and \<^verbatim>\<open>end()\<close>. An iterator holds a table
  pointer, a bucket index and a node pointer. There is one table, so the table pointer is the
  flag \<open>it_table\<close> (false for null); the node pointer is a position in the chain of the
  bucket. Dereferencing a null node is undefined in the source and \<open>None\<close> here.
  The lemmas say which entries a walk from \<^verbatim>\<open>begin()\<close> visits and that it never
  compares equal to \<^verbatim>\<open>end()\<close>.
\<close>

section \<open>Iterators\<close>

record iterator =
  it_table :: bool
  it_bucket :: nat
  it_node :: "nat option"

text \<open>The scan of \<^verbatim>\<open>advance_to_next\<close> from bucket \<open>b\<close> on.\<close>

function advance_scan :: "hash_table \<Rightarrow> nat \<Rightarrow> iterator" where
  "advance_scan t b =
     (if b < length (ht_buckets t) then
        if ht_buckets t ! b \<noteq> [] then \<lparr>it_table = True, it_bucket = b, it_node = Some 0\<rparr>
        else advance_scan t (b + 1)
      else \<lparr>it_table = False, it_bucket = b, it_node = None\<rparr>)"
  by pat_completeness auto
termination by (relation "measure (\<lambda>(t, b). length (ht_buckets t) - b)") auto

declare advance_scan.simps [simp del]

definition advance_to_next :: "hash_table \<Rightarrow> iterator \<Rightarrow> iterator" where
  "advance_to_next t it = advance_scan t (it_bucket it + 1)"

definition new_iterator :: "hash_table \<Rightarrow> bool \<Rightarrow> nat \<Rightarrow> nat option \<Rightarrow> iterator" where
  "new_iterator t table bucket nd =
     (let it = \<lparr>it_table = table, it_bucket = bucket, it_node = nd\<rparr>
      in if nd = None \<and> table then advance_to_next t it else it)"

definition ht_begin :: "hash_table \<Rightarrow> iterator" where
  "ht_begin t = new_iterator t True 0 None"

definition ht_end :: "hash_table \<Rightarrow> iterator" where
  "ht_end t = new_iterator t False 0 None"

definition it_next :: "hash_table \<Rightarrow> iterator \<Rightarrow> iterator" where
  "it_next t it =
     (case it_node it of
        None \<Rightarrow> it
      | Some p \<Rightarrow>
          if \<not> it_table it then it
          else if p + 1 < length (ht_buckets t ! it_bucket it)
          then it\<lparr>it_node := Some (p + 1)\<rparr>
          else advance_to_next t (it\<lparr>it_node := None\<rparr>))"

definition it_eq :: "iterator \<Rightarrow> iterator \<Rightarrow> bool" where
  "it_eq a b = (it_table a = it_table b \<and> it_bucket a = it_bucket b \<and> it_node a = it_node b)"

definition it_deref :: "hash_table \<Rightarrow> iterator \<Rightarrow> (string \<times> string) option" where
  "it_deref t it =
     (case it_node it of
        None \<Rightarrow> None
      | Some p \<Rightarrow> let n = ht_buckets t ! it_bucket it ! p in Some (node_key n, node_value n))"

section \<open>Walks\<close>

text \<open>The entries of at most \<open>n\<close> steps from an iterator, up to a null node.\<close>

fun walk :: "hash_table \<Rightarrow> nat \<Rightarrow> iterator \<Rightarrow> (string \<times> string) list" where
  "walk t 0 it = []"
| "walk t (Suc n) it =
     (case it_deref t it of None \<Rightarrow> [] | Some e \<Rightarrow> e # walk t n (it_next t it))"

definition entries :: "chain \<Rightarrow> (string \<times> string) list" where
  "entries ch = map (\<lambda>n. (node_key n, node_value n)) ch"

lemma entries_simps [simp]:
  "entries [] = []" "entries (n # ch) = (node_key n, node_value n) # entries ch"
  "entries (a @ b) = entries a @ entries b" "length (entries ch) = length ch"
  by (simp_all add: entries_def)

lemma walk_null: "it_node it = None \<Longrightarrow> walk t n it = []"
  by (cases n) (auto simp: it_deref_def)

lemma walk_in_chain:
  assumes "b < length (ht_buckets t)" "p < length (ht_buckets t ! b)"
    and "\<And>n. length (concat (drop (b + 1) (ht_buckets t))) \<le> n \<Longrightarrow>
      walk t n (advance_scan t (b + 1)) = entries (concat (drop (b + 1) (ht_buckets t)))"
    and "length (ht_buckets t ! b) - p + length (concat (drop (b + 1) (ht_buckets t))) \<le> n"
  shows "walk t n \<lparr>it_table = True, it_bucket = b, it_node = Some p\<rparr> =
    entries (drop p (ht_buckets t ! b) @ concat (drop (b + 1) (ht_buckets t)))"
  using assms(2,4)
proof (induction n arbitrary: p)
  case 0
  then show ?case by simp
next
  case (Suc n)
  let ?ch = "ht_buckets t ! b"
  have here: "drop p ?ch = ?ch ! p # drop (p + 1) ?ch"
    using Suc.prems(1) by (simp add: Cons_nth_drop_Suc)
  show ?case
  proof (cases "p + 1 < length ?ch")
    case True
    then have "walk t n \<lparr>it_table = True, it_bucket = b, it_node = Some (p + 1)\<rparr> =
        entries (drop (p + 1) ?ch @ concat (drop (b + 1) (ht_buckets t)))"
      by (intro Suc.IH) (use Suc.prems in auto)
    with True here show ?thesis by (simp add: it_deref_def it_next_def Let_def)
  next
    case False
    then have "length (concat (drop (b + 1) (ht_buckets t))) \<le> n" "drop (p + 1) ?ch = []"
      using Suc.prems by auto
    with False here assms(3) show ?thesis
      by (simp add: it_deref_def it_next_def advance_to_next_def Let_def)
  qed
qed

lemma walk_scan:
  "length (concat (drop b (ht_buckets t))) \<le> n \<Longrightarrow>
   walk t n (advance_scan t b) = entries (concat (drop b (ht_buckets t)))"
proof (induction "length (ht_buckets t) - b" arbitrary: b n)
  case 0
  then show ?case by (simp add: advance_scan.simps[of t b] walk_null)
next
  case (Suc d)
  have b: "b < length (ht_buckets t)" using Suc.hyps(2) by simp
  then have split: "drop b (ht_buckets t) = ht_buckets t ! b # drop (b + 1) (ht_buckets t)"
    by (simp add: Cons_nth_drop_Suc)
  have rest: "walk t m (advance_scan t (b + 1)) = entries (concat (drop (b + 1) (ht_buckets t)))"
    if "length (concat (drop (b + 1) (ht_buckets t))) \<le> m" for m
    using Suc.hyps that by simp
  show ?case
  proof (cases "ht_buckets t ! b = []")
    case True
    then show ?thesis using b split rest Suc.prems by (simp add: advance_scan.simps[of t b])
  next
    case False
    then show ?thesis
      using b split walk_in_chain[OF b, of 0 n] rest Suc.prems
      by (simp add: advance_scan.simps[of t b])
  qed
qed

lemma walk_begin:
  "length (concat (ht_buckets t)) \<le> n \<Longrightarrow>
   walk t n (ht_begin t) = entries (concat (drop 1 (ht_buckets t)))"
proof -
  assume "length (concat (ht_buckets t)) \<le> n"
  moreover have "length (concat (drop 1 (ht_buckets t))) \<le> length (concat (ht_buckets t))"
    by (cases "ht_buckets t") auto
  ultimately show ?thesis
    using walk_scan[of 1 t n] by (simp add: ht_begin_def new_iterator_def advance_to_next_def)
qed

section \<open>The end is never reached\<close>

lemma advance_scan_bucket: "b \<le> it_bucket (advance_scan t b)"
proof (induction t b rule: advance_scan.induct)
  case (1 t b)
  then show ?case by (subst advance_scan.simps) auto
qed

lemma it_next_bucket: "it_bucket it \<le> it_bucket (it_next t it)"
  using advance_scan_bucket[of "it_bucket it + 1" t]
  by (auto simp: it_next_def advance_to_next_def split: option.splits)

lemma iterate_bucket: "it_bucket it \<le> it_bucket ((it_next t ^^ n) it)"
  by (induction n) (auto intro: order_trans it_next_bucket)

lemma begin_bucket: "1 \<le> it_bucket (ht_begin t)"
  using advance_scan_bucket[of 1 t] by (simp add: ht_begin_def new_iterator_def advance_to_next_def)

definition two_entries :: hash_table where
  "two_entries = \<lparr>ht_buckets = [[\<lparr>node_key = ''a'', node_value = ''1''\<rparr>], [],
     [\<lparr>node_key = ''b'', node_value = ''2''\<rparr>]], ht_size = 2\<rparr>"

section \<open>Properties\<close>

text \<open>
  A walk from \<^verbatim>\<open>begin()\<close> visits exactly the entries of the buckets from index 1
  on, each once and in bucket order; the entries of bucket 0 are not visited.
\<close>

theorem iteration_skips_first_bucket:
  "ht_buckets t = b # bs \<Longrightarrow> length (concat (b # bs)) \<le> n \<Longrightarrow>
   walk t n (ht_begin t) = entries (concat bs)"
  using walk_begin[of t n] by simp

theorem iteration_skips_first_bucket_witness:
  "walk two_entries 5 (ht_begin two_entries) = [(''b'', ''2'')]"
  using iteration_skips_first_bucket
    [of two_entries "[\<lparr>node_key = ''a'', node_value = ''1''\<rparr>]"
      "[[], [\<lparr>node_key = ''b'', node_value = ''2''\<rparr>]]" 5]
  by (simp add: two_entries_def)

text \<open>
  No number of increments takes \<^verbatim>\<open>begin()\<close> to an iterator that compares equal to
  \<^verbatim>\<open>end()\<close>, so a loop guarded by \<^verbatim>\<open>it != end()\<close> does not end.
\<close>

theorem iterator_never_reaches_end: "\<not> it_eq ((it_next t ^^ n) (ht_begin t)) (ht_end t)"
proof -
  have "1 \<le> it_bucket ((it_next t ^^ n) (ht_begin t))"
    using begin_bucket iterate_bucket order_trans by blast
  then show ?thesis by (auto simp: it_eq_def ht_end_def new_iterator_def)
qed

end
