(* ===== verification/Locked_Object.thy ===== *)
theory Locked_Object
  imports Prelude
begin

text \<open>
  Objects whose methods run under a lock, for any object: \<open>body\<close> is what a method does to the state of the
  object, \<open>exclusive\<close> says whether it takes the lock alone (\<^verbatim>\<open>std::unique_lock\<close>, \<^verbatim>\<open>std::lock_guard\<close>) or shares it
  (\<^verbatim>\<open>std::shared_lock\<close>). A method takes the lock, reads the state, writes its result back and
  releases the lock, in separate steps between which other threads run. The locale \<open>locked_object\<close> shows once that methods under such
  a lock are atomic: every interleaving is that of the methods one after the other.
\<close>

section \<open>Sequences of steps\<close>

lemma three_steps: "R a b \<Longrightarrow> R b c \<Longrightarrow> R c d \<Longrightarrow> R\<^sup>*\<^sup>* a d"
  by (meson converse_rtranclp_into_rtranclp rtranclp.rtrancl_refl)

lemma steps_weaken: "a\<^sup>*\<^sup>* x y \<Longrightarrow> (\<And>u v. a u v \<Longrightarrow> b u v) \<Longrightarrow> b\<^sup>*\<^sup>* x y"
  by (induction rule: rtranclp_induct) (auto intro: rtranclp.rtrancl_into_rtrancl)

section \<open>The lock\<close>

datatype ('c, 's, 'r) thread_pc =
    Outside
  | Waiting 'c
  | Locked 'c
  | Loaded 'c 's
  | Stored 'c 'r

record ('c, 's, 'r) lock_state =
  lo_data :: 's
  lo_writer :: "nat option"
  lo_readers :: "nat set"
  lo_pc :: "nat \<Rightarrow> ('c, 's, 'r) thread_pc"
  lo_log :: "('c \<times> 'r) list"

definition lock_new :: "'s \<Rightarrow> ('c, 's, 'r) lock_state" where
  "lock_new s = \<lparr>lo_data = s, lo_writer = None, lo_readers = {}, lo_pc = (\<lambda>_. Outside), lo_log = []\<rparr>"

definition lock_call :: "('c, 's, 'r) lock_state \<Rightarrow> nat \<Rightarrow> 'c \<Rightarrow> ('c, 's, 'r) lock_state" where
  "lock_call l i c = l\<lparr>lo_pc := (lo_pc l)(i := Waiting c)\<rparr>"

definition lock_release :: "('c \<Rightarrow> bool) \<Rightarrow> ('c, 's, 'r) lock_state \<Rightarrow> nat \<Rightarrow> 'c \<Rightarrow> ('c, 's, 'r) lock_state" where
  "lock_release exclusive l i c =
     l\<lparr>lo_writer := (if exclusive c then None else lo_writer l),
       lo_readers := (if exclusive c then lo_readers l else lo_readers l - {i}),
       lo_pc := (lo_pc l)(i := Outside)\<rparr>"

definition lock_store :: "('c \<Rightarrow> 's \<Rightarrow> 's \<times> 'r) \<Rightarrow> ('c \<Rightarrow> bool) \<Rightarrow> ('c, 's, 'r) lock_state \<Rightarrow> nat \<Rightarrow> 'c \<Rightarrow> 's \<Rightarrow> ('c, 's, 'r) lock_state" where
  "lock_store body exclusive l i c s =
     l\<lparr>lo_data := (if exclusive c then fst (body c s) else lo_data l),
       lo_pc := (lo_pc l)(i := Stored c (snd (body c s))), lo_log := lo_log l @ [(c, snd (body c s))]\<rparr>"

text \<open>
  The steps of a thread inside a method. \<open>lo_log\<close> records the methods with their results in the order in which
  they write back.
\<close>

inductive lock_inner :: "('c \<Rightarrow> 's \<Rightarrow> 's \<times> 'r) \<Rightarrow> ('c \<Rightarrow> bool) \<Rightarrow> ('c, 's, 'r) lock_state \<Rightarrow> ('c, 's, 'r) lock_state \<Rightarrow> bool"
  for body exclusive where
  lock_unique: "lo_pc l i = Waiting c \<Longrightarrow> exclusive c \<Longrightarrow> lo_writer l = None \<Longrightarrow> lo_readers l = {} \<Longrightarrow>
    lock_inner body exclusive l (l\<lparr>lo_writer := Some i, lo_pc := (lo_pc l)(i := Locked c)\<rparr>)"
| lock_shared: "lo_pc l i = Waiting c \<Longrightarrow> \<not> exclusive c \<Longrightarrow> lo_writer l = None \<Longrightarrow>
    lock_inner body exclusive l (l\<lparr>lo_readers := insert i (lo_readers l), lo_pc := (lo_pc l)(i := Locked c)\<rparr>)"
| load: "lo_pc l i = Locked c \<Longrightarrow> lock_inner body exclusive l (l\<lparr>lo_pc := (lo_pc l)(i := Loaded c (lo_data l))\<rparr>)"
| store: "lo_pc l i = Loaded c s \<Longrightarrow> lock_inner body exclusive l (lock_store body exclusive l i c s)"

text \<open>Any thread may call any method.\<close>

inductive lock_reachable :: "('c \<Rightarrow> 's \<Rightarrow> 's \<times> 'r) \<Rightarrow> ('c \<Rightarrow> bool) \<Rightarrow> 's \<Rightarrow> ('c, 's, 'r) lock_state \<Rightarrow> bool"
  for body exclusive s0 where
  start: "lock_reachable body exclusive s0 (lock_new s0)"
| call: "lock_reachable body exclusive s0 l \<Longrightarrow> lo_pc l i = Outside \<Longrightarrow> lock_reachable body exclusive s0 (lock_call l i c)"
| inner: "lock_reachable body exclusive s0 l \<Longrightarrow> lock_inner body exclusive l l' \<Longrightarrow> lock_reachable body exclusive s0 l'"
| release: "lock_reachable body exclusive s0 l \<Longrightarrow> lo_pc l i = Stored c r \<Longrightarrow>
    lock_reachable body exclusive s0 (lock_release exclusive l i c)"

text \<open>Methods one after the other.\<close>

fun replay :: "('c \<Rightarrow> 's \<Rightarrow> 's \<times> 'r) \<Rightarrow> 's \<Rightarrow> 'c list \<Rightarrow> 's \<times> 'r list" where
  "replay body s [] = (s, [])"
| "replay body s (c # cs) = (let (s', r) = body c s; (s'', rs) = replay body s' cs in (s'', r # rs))"

lemma replay_snoc:
  "replay body s (cs @ [c]) =
     (fst (body c (fst (replay body s cs))), snd (replay body s cs) @ [snd (body c (fst (replay body s cs)))])"
  by (induction cs arbitrary: s) (auto simp: case_prod_beta Let_def)

lemma replay_preserves:
  "(\<And>s c. P s \<Longrightarrow> P (fst (body c s))) \<Longrightarrow> P s \<Longrightarrow> P (fst (replay body s cs))"
  by (induction cs arbitrary: s) (auto simp: case_prod_beta Let_def)

section \<open>Who holds the lock\<close>

text \<open>The method a thread is inside of.\<close>

fun pc_call :: "('c, 's, 'r) thread_pc \<Rightarrow> 'c option" where
  "pc_call Outside = None"
| "pc_call (Waiting c) = Some c"
| "pc_call (Locked c) = Some c"
| "pc_call (Loaded c s) = Some c"
| "pc_call (Stored c r) = Some c"

text \<open>A thread holds the lock exclusively (\<open>Some True\<close>), shared (\<open>Some False\<close>), or not.\<close>

fun mode :: "('c \<Rightarrow> bool) \<Rightarrow> ('c, 's, 'r) thread_pc \<Rightarrow> bool option" where
  "mode exclusive (Locked c) = Some (exclusive c)"
| "mode exclusive (Loaded c s) = Some (exclusive c)"
| "mode exclusive (Stored c r) = Some (exclusive c)"
| "mode exclusive _ = None"

definition lock_inv :: "('c \<Rightarrow> bool) \<Rightarrow> ('c, 's, 'r) lock_state \<Rightarrow> bool" where
  "lock_inv exclusive l =
     ((\<forall>i. lo_writer l = Some i \<longleftrightarrow> mode exclusive (lo_pc l i) = Some True) \<and>
      (\<forall>i. i \<in> lo_readers l \<longleftrightarrow> mode exclusive (lo_pc l i) = Some False) \<and>
      (lo_writer l = None \<or> lo_readers l = {}))"

lemma lock_inv_new: "lock_inv exclusive (lock_new s)"
  by (simp add: lock_inv_def lock_new_def)

lemma lock_inv_call: "lock_inv exclusive l \<Longrightarrow> lo_pc l i = Outside \<Longrightarrow> lock_inv exclusive (lock_call l i c)"
  by (auto simp: lock_inv_def lock_call_def)

lemma lock_inv_inner: "lock_inner body exclusive l l' \<Longrightarrow> lock_inv exclusive l \<Longrightarrow> lock_inv exclusive l'"
proof (induction rule: lock_inner.induct)
  case (lock_unique l i c)
  then have "mode exclusive (lo_pc l j) = None" for j
    by (metis lock_inv_def empty_iff option.distinct(1) option.exhaust)
  then show ?case using lock_unique by (simp add: lock_inv_def)
next
  case (lock_shared l i c)
  then have "mode exclusive (lo_pc l j) \<noteq> Some True" for j by (metis lock_inv_def option.distinct(1))
  then show ?case using lock_shared by (simp add: lock_inv_def)
qed (auto simp: lock_inv_def lock_store_def)

lemma lock_inv_release:
  assumes "lock_inv exclusive l" "lo_pc l i = Stored c r"
  shows "lock_inv exclusive (lock_release exclusive l i c)"
proof (cases "exclusive c")
  case True
  then have "mode exclusive (lo_pc l i) = Some True" using assms(2) by simp
  then have "lo_writer l = Some i" "lo_readers l = {}" using assms(1) by (auto simp: lock_inv_def)
  then show ?thesis using True assms(1) by (auto simp: lock_inv_def lock_release_def)
next
  case False
  then show ?thesis using assms by (auto simp: lock_inv_def lock_release_def)
qed

lemma exclusive_alone:
  assumes "lock_inv exclusive l" "mode exclusive (lo_pc l i) = Some True" "j \<noteq> i"
  shows "mode exclusive (lo_pc l j) = None"
proof -
  have "lo_writer l = Some i" "lo_readers l = {}" using assms(1,2) by (auto simp: lock_inv_def)
  then have "mode exclusive (lo_pc l j) \<noteq> Some True" "mode exclusive (lo_pc l j) \<noteq> Some False"
    using assms(1,3) by (auto simp: lock_inv_def)
  then show ?thesis by (metis not_Some_eq)
qed

text \<open>What a thread has read is still the state, and the log explains the state.\<close>

definition fresh_loads :: "('c, 's, 'r) lock_state \<Rightarrow> bool" where
  "fresh_loads l = (\<forall>i c s. lo_pc l i = Loaded c s \<longrightarrow> s = lo_data l)"

definition log_explains :: "('c \<Rightarrow> 's \<Rightarrow> 's \<times> 'r) \<Rightarrow> 's \<Rightarrow> ('c, 's, 'r) lock_state \<Rightarrow> bool" where
  "log_explains body s0 l = (replay body s0 (map fst (lo_log l)) = (lo_data l, map snd (lo_log l)))"

section \<open>Methods under the lock are atomic\<close>

text \<open>The contract of an object whose methods may share the lock: those that do only read.\<close>

text \<open>Nobody is inside a method; a method that runs then from its call to its return.\<close>

definition unlocked :: "('c, 's, 'r) lock_state \<Rightarrow> bool" where
  "unlocked l = (lo_writer l = None \<and> lo_readers l = {} \<and> lo_pc l = (\<lambda>_. Outside))"

definition whole_call :: "('c \<Rightarrow> 's \<Rightarrow> 's \<times> 'r) \<Rightarrow> ('c, 's, 'r) lock_state \<Rightarrow> 'c \<Rightarrow> ('c, 's, 'r) lock_state" where
  "whole_call body l c = l\<lparr>lo_data := fst (body c (lo_data l)), lo_log := lo_log l @ [(c, snd (body c (lo_data l)))]\<rparr>"

lemma unlocked_intros [simp]: "unlocked (lock_new s)" "unlocked l \<Longrightarrow> unlocked (whole_call body l c)"
  by (simp_all add: unlocked_def lock_new_def whole_call_def)

lemma whole_call_data [simp]: "lo_data (lock_new s) = s" "lo_data (whole_call body l c) = fst (body c (lo_data l))"
  by (simp_all add: whole_call_def lock_new_def)

locale locked_object =
  fixes body :: "'c \<Rightarrow> 's \<Rightarrow> 's \<times> 'r" and exclusive :: "'c \<Rightarrow> bool"
  assumes shared_reads: "\<not> exclusive c \<Longrightarrow> fst (body c s) = s"
begin

lemma stored_data:
  "fresh_loads l \<Longrightarrow> lo_pc l i = Loaded c s \<Longrightarrow> lo_data (lock_store body exclusive l i c s) = fst (body c (lo_data l))"
  by (auto simp: fresh_loads_def lock_store_def shared_reads)

lemma fresh_inner:
  "lock_inner body exclusive l l' \<Longrightarrow> lock_inv exclusive l \<Longrightarrow> fresh_loads l \<Longrightarrow> fresh_loads l'"
proof (induction rule: lock_inner.induct)
  case (store l i c s)
  have "s' = fst (body c s)" if "j \<noteq> i" "lo_pc l j = Loaded c' s'" "exclusive c" for j c' s'
    using exclusive_alone[OF store.prems(1), of i j] store.hyps that by simp
  moreover have "s' = lo_data l" if "lo_pc l j = Loaded c' s'" for j c' s'
    using store.prems(2) that by (simp add: fresh_loads_def)
  ultimately show ?case unfolding fresh_loads_def by (cases "exclusive c") (auto simp: lock_store_def)
qed (auto simp: fresh_loads_def)

lemma log_inner: "lock_inner body exclusive l l' \<Longrightarrow> fresh_loads l \<Longrightarrow> log_explains body s0 l \<Longrightarrow> log_explains body s0 l'"
proof (induction rule: lock_inner.induct)
  case (store l i c s)
  have "s = lo_data l" using store by (simp add: fresh_loads_def)
  then show ?case using store stored_data[OF store.prems(1) store.hyps]
    by (simp add: log_explains_def replay_snoc) (simp add: lock_store_def replay_snoc)
qed (auto simp: log_explains_def)

lemma reachable_inv:
  "lock_reachable body exclusive s0 l \<Longrightarrow> lock_inv exclusive l \<and> fresh_loads l \<and> log_explains body s0 l"
proof (induction rule: lock_reachable.induct)
  case start
  show ?case by (simp add: lock_inv_new) (simp add: fresh_loads_def log_explains_def lock_new_def)
next
  case (call l i c)
  then show ?case by (auto simp: lock_inv_call fresh_loads_def log_explains_def) (auto simp: lock_call_def split: if_splits)
next
  case (inner l l')
  then show ?case using lock_inv_inner fresh_inner log_inner by blast
next
  case (release l i c r)
  have "fresh_loads (lock_release exclusive l i c)" "log_explains body s0 (lock_release exclusive l i c)"
    using release by (auto simp: fresh_loads_def log_explains_def lock_release_def)
  then show ?case using release.IH lock_inv_release[OF _ release.hyps(2), of exclusive] by simp
qed

lemma linearizable:
  assumes "lock_reachable body exclusive s0 l"
  shows "replay body s0 (map fst (lo_log l)) = (lo_data l, map snd (lo_log l))"
    "mode exclusive (lo_pc l i) = Some True \<Longrightarrow> j \<noteq> i \<Longrightarrow> mode exclusive (lo_pc l j) = None"
  using reachable_inv[OF assms] exclusive_alone by (auto simp: log_explains_def)

text \<open>On an unlocked object a method goes through: it takes the lock, reads, writes back and can release.\<close>

lemma unlocked_call_path:
  assumes "unlocked l"
  obtains l' where "(\<lambda>a b. lock_inner body exclusive a b \<and> (\<forall>j d s. lo_pc a j = Loaded d s \<longrightarrow> d = c \<and> s = lo_data l))\<^sup>*\<^sup>* (lock_call l i c) l'"
    "lo_pc l' i = Stored c (snd (body c (lo_data l)))" "lock_release exclusive l' i c = whole_call body l c"
proof -
  let ?R = "\<lambda>a b. lock_inner body exclusive a b \<and> (\<forall>j d s. lo_pc a j = Loaded d s \<longrightarrow> d = c \<and> s = lo_data l)"
  let ?w = "lo_pc (lock_call l i c)"
  let ?l1 = "(if exclusive c then l\<lparr>lo_writer := Some i\<rparr> else l\<lparr>lo_readers := {i}\<rparr>)\<lparr>lo_pc := ?w(i := Locked c)\<rparr>"
  let ?l2 = "?l1\<lparr>lo_pc := (lo_pc ?l1)(i := Loaded c (lo_data ?l1))\<rparr>"
  let ?l3 = "lock_store body exclusive ?l2 i c (lo_data l)"
  note q = assms[unfolded unlocked_def]
  have "lock_inner body exclusive (lock_call l i c) ?l1"
    using q lock_inner.lock_unique[of "lock_call l i c" i c exclusive body]
      lock_inner.lock_shared[of "lock_call l i c" i c exclusive body] by (simp add: lock_call_def)
  then have r1: "?R (lock_call l i c) ?l1" using q by (auto simp: lock_call_def)
  have "lock_inner body exclusive ?l1 ?l2" by (rule lock_inner.load) simp
  then have r2: "?R ?l1 ?l2" using q by (auto simp: lock_call_def)
  have "lock_inner body exclusive ?l2 ?l3" by (rule lock_inner.store) simp
  then have r3: "?R ?l2 ?l3" using q by (auto simp: lock_call_def)
  have "?R\<^sup>*\<^sup>* (lock_call l i c) ?l3" by (rule three_steps[of ?R, OF r1 r2 r3])
  moreover have "lo_pc ?l3 i = Stored c (snd (body c (lo_data l)))" by (simp add: lock_store_def)
  moreover have "lock_release exclusive ?l3 i c = whole_call body l c"
    using q by (cases "exclusive c")
      (auto simp: lock_release_def lock_store_def whole_call_def lock_call_def shared_reads fun_eq_iff)
  ultimately show ?thesis using that by blast
qed

lemma unlocked_call:
  assumes "unlocked l"
  obtains l' where "(lock_inner body exclusive)\<^sup>*\<^sup>* (lock_call l i c) l'" "lo_pc l' i = Stored c (snd (body c (lo_data l)))"
    "lock_release exclusive l' i c = whole_call body l c"
proof -
  obtain l' where l': "(\<lambda>a b. lock_inner body exclusive a b \<and> (\<forall>j d s. lo_pc a j = Loaded d s \<longrightarrow> d = c \<and> s = lo_data l))\<^sup>*\<^sup>* (lock_call l i c) l'"
    "lo_pc l' i = Stored c (snd (body c (lo_data l)))" "lock_release exclusive l' i c = whole_call body l c"
    using unlocked_call_path[OF assms] .
  have "(lock_inner body exclusive)\<^sup>*\<^sup>* (lock_call l i c) l'" by (rule steps_weaken[OF l'(1)]) simp
  then show ?thesis using that l'(2,3) by blast
qed

lemma reachable_whole_call:
  assumes "lock_reachable body exclusive s0 l" "unlocked l"
  shows "lock_reachable body exclusive s0 (whole_call body l c)"
proof -
  obtain l' where l': "(lock_inner body exclusive)\<^sup>*\<^sup>* (lock_call l 0 c) l'" "lo_pc l' 0 = Stored c (snd (body c (lo_data l)))"
    "lock_release exclusive l' 0 c = whole_call body l c" using unlocked_call[OF assms(2)] .
  have "lock_reachable body exclusive s0 (lock_call l 0 c)"
    using assms by (intro lock_reachable.call) (auto simp: unlocked_def)
  with l'(1) have "lock_reachable body exclusive s0 l'"
    by (induction rule: rtranclp_induct) (auto intro: lock_reachable.inner)
  then show ?thesis using lock_reachable.release[OF _ l'(2)] l'(3) by metis
qed

end

end
