(* ===== verification/Threads.thy ===== *)
theory Threads
  imports Locked_Object
begin

text \<open>
  Threads that serve requests by calling the methods of a locked object and atomic counters. A request is
  served by a program: a tree that branches on what the calls answer. \<open>locked_run\<close> is the system with the
  lock, \<open>atomic_run\<close> the one in which a method is a single step; the first simulates the second. A history lists when requests
  come in and when they are answered. If every program has one call that decides its answer, each request takes
  effect at one point in between (locale \<open>point_requests\<close>).
\<close>

section \<open>Programs\<close>

datatype ('c, 'r, 'a, 'x) prog =
    Return 'x
  | Call 'c "'r \<Rightarrow> ('c, 'r, 'a, 'x) prog"
  | Atomic 'a "nat \<Rightarrow> ('c, 'r, 'a, 'x) prog"

text \<open>A program that runs alone.\<close>

primrec run_prog :: "('c \<Rightarrow> 's \<Rightarrow> 's \<times> 'r) \<Rightarrow> ('a \<Rightarrow> 'k \<Rightarrow> 'k \<times> nat) \<Rightarrow> ('c, 'r, 'a, 'x) prog \<Rightarrow> 's \<Rightarrow> 'k \<Rightarrow> 's \<times> 'k \<times> 'x" where
  "run_prog body counter (Return x) = (\<lambda>s k. (s, k, x))"
| "run_prog body counter (Call c f) = (\<lambda>s k. run_prog body counter (f (snd (body c s))) (fst (body c s)) k)"
| "run_prog body counter (Atomic a f) = (\<lambda>s k. run_prog body counter (f (snd (counter a k))) s (fst (counter a k)))"

section \<open>Threads over an object\<close>

text \<open>Requests that come in and are answered; \<open>Lin\<close> marks where a request takes effect.\<close>

datatype ('q, 'x) event = Inv nat 'q | Lin nat 'q 'x | Res nat 'q 'x

record ('q, 'c, 'r, 'a, 'k, 'x) threads =
  th_prog :: "nat \<Rightarrow> ('q \<times> ('c, 'r, 'a, 'x) prog) option"
  th_counters :: 'k
  th_hist :: "('q, 'x) event list"

definition threads_new :: "'k \<Rightarrow> ('q, 'c, 'r, 'a, 'k, 'x) threads" where
  "threads_new k = \<lparr>th_prog = Map.empty, th_counters = k, th_hist = []\<rparr>"

definition th_invoke :: "('q, 'c, 'r, 'a, 'k, 'x) threads \<Rightarrow> nat \<Rightarrow> 'q \<Rightarrow> ('c, 'r, 'a, 'x) prog \<Rightarrow> ('q, 'c, 'r, 'a, 'k, 'x) threads" where
  "th_invoke t i q p = t\<lparr>th_prog := (th_prog t)(i \<mapsto> (q, p)), th_hist := th_hist t @ [Inv i q]\<rparr>"

definition th_goto :: "('q, 'c, 'r, 'a, 'k, 'x) threads \<Rightarrow> nat \<Rightarrow> 'q \<Rightarrow> ('c, 'r, 'a, 'x) prog \<Rightarrow> ('q, 'c, 'r, 'a, 'k, 'x) threads" where
  "th_goto t i q p = t\<lparr>th_prog := (th_prog t)(i \<mapsto> (q, p))\<rparr>"

definition th_count :: "('q, 'c, 'r, 'a, 'k, 'x) threads \<Rightarrow> nat \<Rightarrow> 'q \<Rightarrow> ('c, 'r, 'a, 'x) prog \<Rightarrow> 'k \<Rightarrow> ('q, 'c, 'r, 'a, 'k, 'x) threads" where
  "th_count t i q p k = t\<lparr>th_prog := (th_prog t)(i \<mapsto> (q, p)), th_counters := k\<rparr>"

definition th_finish :: "('q, 'c, 'r, 'a, 'k, 'x) threads \<Rightarrow> nat \<Rightarrow> 'q \<Rightarrow> 'x \<Rightarrow> ('q, 'c, 'r, 'a, 'k, 'x) threads" where
  "th_finish t i q x = t\<lparr>th_prog := (th_prog t)(i := None), th_hist := th_hist t @ [Res i q x]\<rparr>"

inductive locked_run ::
  "('c \<Rightarrow> 's \<Rightarrow> 's \<times> 'r) \<Rightarrow> ('c \<Rightarrow> bool) \<Rightarrow> ('a \<Rightarrow> 'k \<Rightarrow> 'k \<times> nat) \<Rightarrow> ('q \<Rightarrow> ('c, 'r, 'a, 'x) prog) \<Rightarrow> ('q \<Rightarrow> bool) \<Rightarrow> 's \<Rightarrow> 'k \<Rightarrow>
   ('c, 's, 'r) lock_state \<Rightarrow> ('q, 'c, 'r, 'a, 'k, 'x) threads \<Rightarrow> bool"
  for body exclusive counter prog_of ok s0 k0 where
  start: "locked_run body exclusive counter prog_of ok s0 k0 (lock_new s0) (threads_new k0)"
| invoke: "locked_run body exclusive counter prog_of ok s0 k0 l t \<Longrightarrow> th_prog t i = None \<Longrightarrow> ok q \<Longrightarrow>
    locked_run body exclusive counter prog_of ok s0 k0 l (th_invoke t i q (prog_of q))"
| count: "locked_run body exclusive counter prog_of ok s0 k0 l t \<Longrightarrow> th_prog t i = Some (q, Atomic a f) \<Longrightarrow>
    counter a (th_counters t) = (k, n) \<Longrightarrow> locked_run body exclusive counter prog_of ok s0 k0 l (th_count t i q (f n) k)"
| call: "locked_run body exclusive counter prog_of ok s0 k0 l t \<Longrightarrow> th_prog t i = Some (q, Call c f) \<Longrightarrow> lo_pc l i = Outside \<Longrightarrow>
    locked_run body exclusive counter prog_of ok s0 k0 (lock_call l i c) t"
| inner: "locked_run body exclusive counter prog_of ok s0 k0 l t \<Longrightarrow> lock_inner body exclusive l l' \<Longrightarrow>
    locked_run body exclusive counter prog_of ok s0 k0 l' t"
| release: "locked_run body exclusive counter prog_of ok s0 k0 l t \<Longrightarrow> lo_pc l i = Stored c r \<Longrightarrow> th_prog t i = Some (q, Call c f) \<Longrightarrow>
    locked_run body exclusive counter prog_of ok s0 k0 (lock_release exclusive l i c) (th_goto t i q (f r))"
| finish: "locked_run body exclusive counter prog_of ok s0 k0 l t \<Longrightarrow> th_prog t i = Some (q, Return x) \<Longrightarrow>
    locked_run body exclusive counter prog_of ok s0 k0 l (th_finish t i q x)"

inductive atomic_run ::
  "('c \<Rightarrow> 's \<Rightarrow> 's \<times> 'r) \<Rightarrow> ('a \<Rightarrow> 'k \<Rightarrow> 'k \<times> nat) \<Rightarrow> ('q \<Rightarrow> ('c, 'r, 'a, 'x) prog) \<Rightarrow> ('q \<Rightarrow> bool) \<Rightarrow> 's \<Rightarrow> 'k \<Rightarrow>
   's \<Rightarrow> ('q, 'c, 'r, 'a, 'k, 'x) threads \<Rightarrow> bool"
  for body counter prog_of ok s0 k0 where
  start: "atomic_run body counter prog_of ok s0 k0 s0 (threads_new k0)"
| invoke: "atomic_run body counter prog_of ok s0 k0 s t \<Longrightarrow> th_prog t i = None \<Longrightarrow> ok q \<Longrightarrow>
    atomic_run body counter prog_of ok s0 k0 s (th_invoke t i q (prog_of q))"
| count: "atomic_run body counter prog_of ok s0 k0 s t \<Longrightarrow> th_prog t i = Some (q, Atomic a f) \<Longrightarrow>
    counter a (th_counters t) = (k, n) \<Longrightarrow> atomic_run body counter prog_of ok s0 k0 s (th_count t i q (f n) k)"
| call: "atomic_run body counter prog_of ok s0 k0 s t \<Longrightarrow> th_prog t i = Some (q, Call c f) \<Longrightarrow> body c s = (s', r) \<Longrightarrow>
    atomic_run body counter prog_of ok s0 k0 s' (th_goto t i q (f r))"
| finish: "atomic_run body counter prog_of ok s0 k0 s t \<Longrightarrow> th_prog t i = Some (q, Return x) \<Longrightarrow>
    atomic_run body counter prog_of ok s0 k0 s (th_finish t i q x)"

section \<open>The lock simulates atomic methods\<close>

text \<open>A thread is inside a method only when its program calls it.\<close>

definition calls_agree :: "('c, 's, 'r) lock_state \<Rightarrow> ('q, 'c, 'r, 'a, 'k, 'x) threads \<Rightarrow> bool" where
  "calls_agree l t = (\<forall>i c. pc_call (lo_pc l i) = Some c \<longrightarrow> (\<exists>q f. th_prog t i = Some (q, Call c f)))"

text \<open>A thread whose method has written back is already past it.\<close>

definition past :: "('c, 's, 'r) thread_pc \<Rightarrow> ('q \<times> ('c, 'r, 'a, 'x) prog) option \<Rightarrow> ('q \<times> ('c, 'r, 'a, 'x) prog) option" where
  "past pc p = (case pc of Stored c r \<Rightarrow> (case p of Some (q, Call c' f) \<Rightarrow> Some (q, f r) | _ \<Rightarrow> p) | _ \<Rightarrow> p)"

definition abs_threads :: "('c, 's, 'r) lock_state \<Rightarrow> ('q, 'c, 'r, 'a, 'k, 'x) threads \<Rightarrow> ('q, 'c, 'r, 'a, 'k, 'x) threads" where
  "abs_threads l t = t\<lparr>th_prog := (\<lambda>i. past (lo_pc l i) (th_prog t i))\<rparr>"

lemma past_simps [simp]:
  "past Outside p = p" "past (Waiting c) p = p" "past (Locked c) p = p" "past (Loaded c s) p = p"
  "past (Stored c r) (Some (q, Call c' f)) = Some (q, f r)" "past pc None = None"
  "past pc (Some (q, Return x)) = Some (q, Return x)" "past pc (Some (q, Atomic a g)) = Some (q, Atomic a g)"
  by (auto simp: past_def split: thread_pc.split)

lemma calls_agree_outside: "calls_agree l t \<Longrightarrow> \<nexists>q c f. th_prog t i = Some (q, Call c f) \<Longrightarrow> lo_pc l i = Outside"
  unfolding calls_agree_def by (cases "lo_pc l i") (metis pc_call.simps)+

lemma abs_threads_hist [simp]: "th_hist (abs_threads l t) = th_hist t" "th_counters (abs_threads l t) = th_counters t"
  "th_prog (abs_threads l t) i = past (lo_pc l i) (th_prog t i)"
  by (simp_all add: abs_threads_def)

lemma abs_threads_same:
  "(\<And>j. past (lo_pc l' j) (th_prog t' j) = past (lo_pc l j) (th_prog t j)) \<Longrightarrow> th_counters t' = th_counters t \<Longrightarrow>
   th_hist t' = th_hist t \<Longrightarrow> abs_threads l' t' = abs_threads l t"
  by (simp add: abs_threads_def fun_eq_iff)

lemma abs_threads_ops:
  assumes "lo_pc l i = Outside"
  shows "abs_threads l (th_invoke t i q p) = th_invoke (abs_threads l t) i q p"
    "abs_threads l (th_count t i q p k) = th_count (abs_threads l t) i q p k"
    "abs_threads l (th_finish t i q x) = th_finish (abs_threads l t) i q x"
  using assms by (auto simp: abs_threads_def th_invoke_def th_count_def th_finish_def fun_eq_iff)

lemma calls_agree_ops:
  assumes "calls_agree l t" "lo_pc l i = Outside"
  shows "calls_agree l (th_invoke t i q p)" "calls_agree l (th_count t i q p k)" "calls_agree l (th_finish t i q x)"
  using assms by (auto simp: calls_agree_def th_invoke_def th_count_def th_finish_def)

lemma calls_agree_inner: "lock_inner body exclusive l l' \<Longrightarrow> calls_agree l t \<Longrightarrow> calls_agree l' t"
  by (induction rule: lock_inner.induct) (auto simp: calls_agree_def lock_store_def)

lemma abs_threads_inner:
  assumes "lock_inner body exclusive l l'" "calls_agree l t"
  obtains "abs_threads l' t = abs_threads l t" "lo_data l' = lo_data l"
  | i c s q f where "lo_pc l i = Loaded c s" "th_prog t i = Some (q, Call c f)" "l' = lock_store body exclusive l i c s"
      "abs_threads l' t = th_goto (abs_threads l t) i q (f (snd (body c s)))"
  using assms(1)
proof cases
  case (store i c s)
  have "pc_call (lo_pc l i) = Some c" using store(2) by simp
  then obtain q f where p: "th_prog t i = Some (q, Call c f)" using assms(2) unfolding calls_agree_def by blast
  have "abs_threads l' t = th_goto (abs_threads l t) i q (f (snd (body c s)))"
    using store p by (auto simp: abs_threads_def lock_store_def th_goto_def fun_eq_iff)
  then show ?thesis using that(2) store p by blast
qed (auto intro!: that(1) abs_threads_same)

text \<open>
  A run that has come to an unlocked object: what is known of its state, the programs the threads are in and the history.
  Runs are built step by step from such states.
\<close>

definition run_at ::
  "('c \<Rightarrow> 's \<Rightarrow> 's \<times> 'r) \<Rightarrow> ('c \<Rightarrow> bool) \<Rightarrow> ('a \<Rightarrow> 'k \<Rightarrow> 'k \<times> nat) \<Rightarrow> ('q \<Rightarrow> ('c, 'r, 'a, 'x) prog) \<Rightarrow> ('q \<Rightarrow> bool) \<Rightarrow> 's \<Rightarrow> 'k \<Rightarrow>
   ('s \<Rightarrow> bool) \<Rightarrow> (nat \<Rightarrow> ('q \<times> ('c, 'r, 'a, 'x) prog) option) \<Rightarrow> ('q, 'x) event list \<Rightarrow> bool" where
  "run_at body exclusive counter prog_of ok s0 k0 P pr h =
     (\<exists>l t. locked_run body exclusive counter prog_of ok s0 k0 l t \<and> unlocked l \<and> P (lo_data l) \<and> th_prog t = pr \<and> th_hist t = h)"

lemma run_at_start: "P s0 \<Longrightarrow> run_at body exclusive counter prog_of ok s0 k0 P Map.empty []"
  unfolding run_at_def by (intro exI[of _ "lock_new s0"] exI[of _ "threads_new k0"])
    (simp add: locked_run.start, simp add: threads_new_def)

lemma run_at_invoke:
  "run_at body exclusive counter prog_of ok s0 k0 P pr h \<Longrightarrow> pr i = None \<Longrightarrow> ok q \<Longrightarrow>
   run_at body exclusive counter prog_of ok s0 k0 P (pr(i \<mapsto> (q, prog_of q))) (h @ [Inv i q])"
  unfolding run_at_def by (elim exE conjE, intro exI conjI, rule locked_run.invoke) (auto simp: th_invoke_def)

lemma run_at_return:
  "run_at body exclusive counter prog_of ok s0 k0 P pr h \<Longrightarrow> pr i = Some (q, Return x) \<Longrightarrow>
   run_at body exclusive counter prog_of ok s0 k0 P (pr(i := None)) (h @ [Res i q x])"
  unfolding run_at_def by (elim exE conjE, intro exI conjI, rule locked_run.finish) (auto simp: th_finish_def)

context locked_object
begin

lemma locked_run_inv:
  "locked_run body exclusive counter prog_of ok s0 k0 l t \<Longrightarrow> lock_reachable body exclusive s0 l \<and> calls_agree l t"
proof (induction rule: locked_run.induct)
  case start
  show ?case by (simp add: lock_reachable.start) (simp add: calls_agree_def lock_new_def)
next
  case (call l t i q c f)
  then have "calls_agree (lock_call l i c) t" by (auto simp: calls_agree_def lock_call_def)
  then show ?case using call lock_reachable.call[of body exclusive s0 l i c] by simp
next
  case (inner l t l')
  then show ?case using lock_reachable.inner[of body exclusive s0 l l'] calls_agree_inner[of body exclusive l l' t] by simp
next
  case (release l t i c r q f)
  then have "calls_agree (lock_release exclusive l i c) (th_goto t i q (f r))"
    by (auto simp: calls_agree_def lock_release_def th_goto_def)
  then show ?case using release lock_reachable.release[of body exclusive s0 l i c r] by simp
next
  case (invoke l t i q)
  then show ?case using calls_agree_outside[of l t i] calls_agree_ops(1)[of l t i] by simp
next
  case (count l t i q a f k n)
  then show ?case using calls_agree_outside[of l t i] calls_agree_ops(2)[of l t i] by simp
next
  case (finish l t i q x)
  then show ?case using calls_agree_outside[of l t i] calls_agree_ops(3)[of l t i] by simp
qed

lemma locked_run_simulates:
  "locked_run body exclusive counter prog_of ok s0 k0 l t \<Longrightarrow>
   atomic_run body counter prog_of ok s0 k0 (lo_data l) (abs_threads l t)"
proof (induction rule: locked_run.induct)
  case start
  have "abs_threads (lock_new s0) (threads_new k0) = threads_new k0"
    by (simp add: abs_threads_def lock_new_def threads_new_def)
  moreover have "lo_data (lock_new s0) = s0" by (simp add: lock_new_def)
  ultimately show ?case using atomic_run.start by metis
next
  case (invoke l t i q)
  then have "lo_pc l i = Outside" using locked_run_inv calls_agree_outside by fastforce
  then show ?case using atomic_run.invoke[OF invoke.IH] invoke.hyps by (simp add: abs_threads_ops)
next
  case (count l t i q a f k n)
  then have "lo_pc l i = Outside" using locked_run_inv calls_agree_outside by fastforce
  then show ?case using atomic_run.count[OF count.IH] count.hyps by (simp add: abs_threads_ops)
next
  case (call l t i q c f)
  have "abs_threads (lock_call l i c) t = abs_threads l t"
    using call.hyps by (intro abs_threads_same) (auto simp: lock_call_def)
  then show ?case using call.IH by (simp add: lock_call_def)
next
  case (inner l t l')
  have agree: "calls_agree l t" and fresh: "fresh_loads l" using locked_run_inv[OF inner.hyps(1)] reachable_inv by auto
  show ?case using inner.hyps(2) agree
  proof (cases rule: abs_threads_inner)
    case (2 i c s q f)
    have "s = lo_data l" using fresh 2(1) by (simp add: fresh_loads_def)
    then have "body c (lo_data l) = (lo_data l', snd (body c s))" using stored_data[OF fresh 2(1)] 2(3) by (simp add: prod_eq_iff)
    then show ?thesis unfolding 2(4) using atomic_run.call[OF inner.IH] 2(1,2) by simp
  qed (use inner.IH in simp)
next
  case (release l t i c r q f)
  have "abs_threads (lock_release exclusive l i c) (th_goto t i q (f r)) = abs_threads l t"
    using release.hyps by (intro abs_threads_same) (auto simp: lock_release_def th_goto_def)
  then show ?case using release.IH by (simp add: lock_release_def)
next
  case (finish l t i q x)
  then have "lo_pc l i = Outside" using locked_run_inv calls_agree_outside by fastforce
  then show ?case using atomic_run.finish[OF finish.IH] finish.hyps by (simp add: abs_threads_ops)
qed

lemma locked_run_whole_call:
  assumes "locked_run body exclusive counter prog_of ok s0 k0 l t" "unlocked l" "th_prog t i = Some (q, Call c f)"
  shows "locked_run body exclusive counter prog_of ok s0 k0 (whole_call body l c) (th_goto t i q (f (snd (body c (lo_data l)))))"
proof -
  obtain l' where l': "(lock_inner body exclusive)\<^sup>*\<^sup>* (lock_call l i c) l'" "lo_pc l' i = Stored c (snd (body c (lo_data l)))"
    "lock_release exclusive l' i c = whole_call body l c" using unlocked_call[OF assms(2)] .
  have "locked_run body exclusive counter prog_of ok s0 k0 (lock_call l i c) t"
    using assms by (intro locked_run.call) (auto simp: unlocked_def)
  with l'(1) have "locked_run body exclusive counter prog_of ok s0 k0 l' t"
    by (induction rule: rtranclp_induct) (auto intro: locked_run.inner)
  then show ?thesis using locked_run.release[OF _ l'(2) assms(3)] l'(3) by metis
qed

text \<open>A request that runs alone is answered, with what its program computes alone.\<close>

lemma locked_run_alone:
  "locked_run body exclusive counter prog_of ok s0 k0 l t \<Longrightarrow> unlocked l \<Longrightarrow> th_prog t i = Some (q, p) \<Longrightarrow>
   run_prog body counter p (lo_data l) (th_counters t) = (s', k', x) \<Longrightarrow>
   \<exists>l'. unlocked l' \<and> lo_data l' = s' \<and>
     locked_run body exclusive counter prog_of ok s0 k0 l' (t\<lparr>th_prog := (th_prog t)(i \<mapsto> (q, Return x)), th_counters := k'\<rparr>)"
proof (induction p arbitrary: l t)
  case (Return y)
  then have "t\<lparr>th_prog := (th_prog t)(i \<mapsto> (q, Return x)), th_counters := k'\<rparr> = t" by (simp add: fun_upd_idem)
  then show ?case using Return.prems by (intro exI[of _ l]) (simp del: fun_upd_apply)
next
  case (Call c f)
  let ?r = "snd (body c (lo_data l))" and ?l = "whole_call body l c"
  have "locked_run body exclusive counter prog_of ok s0 k0 ?l (th_goto t i q (f ?r))"
    using locked_run_whole_call[OF Call.prems(1-3)] .
  from Call.IH[OF rangeI[of f ?r] this] Call.prems show ?case by (simp add: th_goto_def fun_upd_same del: fun_upd_apply)
next
  case (Atomic a f)
  obtain k n where kn: "counter a (th_counters t) = (k, n)" by fastforce
  then have "locked_run body exclusive counter prog_of ok s0 k0 l (th_count t i q (f n) k)"
    using locked_run.count[OF Atomic.prems(1,3)] by simp
  from Atomic.IH[OF rangeI[of f n] this] Atomic.prems kn show ?case by (simp add: th_count_def fun_upd_same del: fun_upd_apply)
qed

lemma locked_run_request:
  assumes "locked_run body exclusive counter prog_of ok s0 k0 l t" "unlocked l" "th_prog t i = None" "ok q"
    "run_prog body counter (prog_of q) (lo_data l) (th_counters t) = (s', k', x)"
  shows "\<exists>l'. unlocked l' \<and> lo_data l' = s' \<and>
    locked_run body exclusive counter prog_of ok s0 k0 l' (t\<lparr>th_counters := k', th_hist := th_hist t @ [Inv i q, Res i q x]\<rparr>)"
proof -
  let ?t = "th_invoke t i q (prog_of q)"
  have "locked_run body exclusive counter prog_of ok s0 k0 l ?t" using assms by (intro locked_run.invoke)
  then obtain l' where l': "unlocked l'" "lo_data l' = s'"
    "locked_run body exclusive counter prog_of ok s0 k0 l' (?t\<lparr>th_prog := (th_prog ?t)(i \<mapsto> (q, Return x)), th_counters := k'\<rparr>)"
    using locked_run_alone[OF _ assms(2), of counter prog_of ok s0 k0 ?t i q "prog_of q" s' k' x] assms(5)
    by (auto simp: th_invoke_def)
  from locked_run.finish[OF l'(3), of i q x] l'(1,2) assms(3) show ?thesis
    by (auto simp: th_finish_def th_invoke_def fun_upd_idem fun_upd_same simp del: fun_upd_apply)
qed

lemma run_at_count:
  assumes "run_at body exclusive counter prog_of ok s0 k0 P pr h" "pr i = Some (q, Atomic a f)" "\<And>n. f n = p"
  shows "run_at body exclusive counter prog_of ok s0 k0 P (pr(i \<mapsto> (q, p))) h"
proof -
  obtain l t where lt: "locked_run body exclusive counter prog_of ok s0 k0 l t" "unlocked l" "P (lo_data l)" "th_prog t = pr" "th_hist t = h"
    using assms(1) unfolding run_at_def by auto
  obtain k n where "counter a (th_counters t) = (k, n)" by fastforce
  then have "locked_run body exclusive counter prog_of ok s0 k0 l (th_count t i q (f n) k)"
    using lt assms(2) by (intro locked_run.count) auto
  then show ?thesis unfolding run_at_def using lt assms(3) by (fastforce simp: th_count_def)
qed

lemma run_at_call:
  assumes "run_at body exclusive counter prog_of ok s0 k0 P pr h" "pr i = Some (q, Call c f)"
    "\<And>s. P s \<Longrightarrow> P' (fst (body c s)) \<and> f (snd (body c s)) = p"
  shows "run_at body exclusive counter prog_of ok s0 k0 P' (pr(i \<mapsto> (q, p))) h"
proof -
  obtain l t where lt: "locked_run body exclusive counter prog_of ok s0 k0 l t" "unlocked l" "P (lo_data l)" "th_prog t = pr" "th_hist t = h"
    using assms(1) unfolding run_at_def by auto
  have "locked_run body exclusive counter prog_of ok s0 k0 (whole_call body l c) (th_goto t i q p)"
    using locked_run_whole_call[OF lt(1,2), of i q c f] lt assms(2,3) by simp
  then show ?thesis unfolding run_at_def
    using lt assms(3) by (intro exI[of _ "whole_call body l c"] exI[of _ "th_goto t i q p"]) (simp add: th_goto_def)
qed

end

section \<open>Histories\<close>

text \<open>
  Of one thread a history shows requests one after the other, each coming in, taking effect and being
  answered.
\<close>

fun thread_of :: "('q, 'x) event \<Rightarrow> nat" where
  "thread_of (Inv i q) = i"
| "thread_of (Lin i q x) = i"
| "thread_of (Res i q x) = i"

datatype ('q, 'x) phase = Idle | Invoked 'q | Linearized 'q 'x

fun phase_step :: "('q, 'x) event \<Rightarrow> ('q, 'x) phase option \<Rightarrow> ('q, 'x) phase option" where
  "phase_step (Inv i q) (Some Idle) = Some (Invoked q)"
| "phase_step (Lin i q x) (Some (Invoked q')) = (if q' = q then Some (Linearized q x) else None)"
| "phase_step (Res i q x) (Some (Linearized q' x')) = (if q' = q \<and> x' = x then Some Idle else None)"
| "phase_step _ _ = None"

definition thread_phase :: "('q, 'x) event list \<Rightarrow> nat \<Rightarrow> ('q, 'x) phase option" where
  "thread_phase h i = fold phase_step (filter (\<lambda>e. thread_of e = i) h) (Some Idle)"

fun is_lin :: "('q, 'x) event \<Rightarrow> bool" where
  "is_lin (Lin i q x) = True"
| "is_lin _ = False"

fun lin_ops :: "('q, 'x) event list \<Rightarrow> ('q \<times> 'x) list" where
  "lin_ops [] = []"
| "lin_ops (Lin i q x # h) = (q, x) # lin_ops h"
| "lin_ops (_ # h) = lin_ops h"

inductive spec_run :: "('m \<Rightarrow> 'q \<Rightarrow> 'm \<Rightarrow> 'x \<Rightarrow> bool) \<Rightarrow> 'm \<Rightarrow> ('q \<times> 'x) list \<Rightarrow> 'm \<Rightarrow> bool" for spec m where
  none: "spec_run spec m [] m"
| one_more: "spec_run spec m ops m1 \<Longrightarrow> spec m1 q m2 x \<Longrightarrow> spec_run spec m (ops @ [(q, x)]) m2"

text \<open>
  \<open>h'\<close> explains the history \<open>h\<close>: it adds to \<open>h\<close> one point for each request between its coming in and its answer, at which it
  takes effect with that answer, and the requests in the order of these points are a run of the specification.
\<close>

definition linearizes :: "('m \<Rightarrow> 'q \<Rightarrow> 'm \<Rightarrow> 'x \<Rightarrow> bool) \<Rightarrow> 'm \<Rightarrow> ('q, 'x) event list \<Rightarrow> 'm \<Rightarrow> ('q, 'x) event list \<Rightarrow> bool" where
  "linearizes spec m0 h m h' =
     (filter (\<lambda>e. \<not> is_lin e) h' = h \<and> (\<forall>i. thread_phase h' i \<noteq> None) \<and> spec_run spec m0 (lin_ops h') m)"

lemma thread_phase_nil [simp]: "thread_phase [] i = Some Idle"
  by (simp add: thread_phase_def)

lemma thread_phase_snoc [simp]:
  "thread_phase (h @ [e]) i = (if thread_of e = i then phase_step e (thread_phase h i) else thread_phase h i)"
  by (simp add: thread_phase_def)

lemma lin_ops_append [simp]: "lin_ops (g @ h) = lin_ops g @ lin_ops h"
  by (induction g rule: lin_ops.induct) simp_all

text \<open>
  The states the specification can be in after a history, with what each thread is in: a history that has a
  linearisation reaches one. This is how to show that a history has none.
\<close>

inductive lin_state ::
  "('m \<Rightarrow> 'q \<Rightarrow> 'm \<Rightarrow> 'x \<Rightarrow> bool) \<Rightarrow> 'm \<Rightarrow> ('q, 'x) event list \<Rightarrow> 'm \<Rightarrow> (nat \<Rightarrow> ('q, 'x) phase) \<Rightarrow> bool" for spec m0 where
  start: "lin_state spec m0 [] m0 (\<lambda>_. Idle)"
| lin: "lin_state spec m0 h m ph \<Longrightarrow> ph i = Invoked q \<Longrightarrow> spec m q m' x \<Longrightarrow> lin_state spec m0 h m' (ph(i := Linearized q x))"
| inv: "lin_state spec m0 h m ph \<Longrightarrow> ph i = Idle \<Longrightarrow> lin_state spec m0 (h @ [Inv i q]) m (ph(i := Invoked q))"
| res: "lin_state spec m0 h m ph \<Longrightarrow> ph i = Linearized q x \<Longrightarrow> lin_state spec m0 (h @ [Res i q x]) m (ph(i := Idle))"

inductive_simps spec_run_Nil: "spec_run spec m [] m'"
inductive_simps spec_run_snoc: "spec_run spec m (ops @ [(q, x)]) m'"

lemma phase_step_Some:
  "phase_step (Inv i q) p = Some y \<longleftrightarrow> p = Some Idle \<and> y = Invoked q"
  "phase_step (Lin i q x) p = Some y \<longleftrightarrow> p = Some (Invoked q) \<and> y = Linearized q x"
  "phase_step (Res i q x) p = Some y \<longleftrightarrow> p = Some (Linearized q x) \<and> y = Idle"
  by (auto elim!: phase_step.elims split: if_splits)

lemma thread_phases_snoc:
  assumes "\<forall>i. thread_phase (h @ [e]) i \<noteq> None"
  shows "\<forall>i. thread_phase h i \<noteq> None"
    "(\<lambda>i. the (thread_phase (h @ [e]) i)) =
       (\<lambda>i. the (thread_phase h i))(thread_of e := the (phase_step e (thread_phase h (thread_of e))))"
proof -
  have "phase_step e None = None" by (cases e) auto
  then show "\<forall>i. thread_phase h i \<noteq> None" using assms by (metis thread_phase_snoc)
qed (auto simp: fun_eq_iff)

lemma linearizes_lin_state:
  "linearizes spec m0 h m h' \<Longrightarrow> lin_state spec m0 h m (\<lambda>i. the (thread_phase h' i))"
proof (induction h' arbitrary: h m rule: rev_induct)
  case Nil
  then show ?case by (auto simp: linearizes_def spec_run_Nil intro: lin_state.start)
next
  case (snoc e h')
  note a = snoc.prems[unfolded linearizes_def]
  have ph: "\<forall>i. thread_phase h' i \<noteq> None" "\<exists>y. phase_step e (thread_phase h' (thread_of e)) = Some y"
    using thread_phases_snoc(1)[of h' e] a by (auto dest: spec[of _ "thread_of e"])
  note upd = thread_phases_snoc(2)[of h' e]
  show ?case
  proof (cases e)
    case (Inv i q)
    then show ?thesis using a ph upd snoc.IH[of "filter (\<lambda>e. \<not> is_lin e) h'" m]
      lin_state.inv[of spec m0 _ m "\<lambda>i. the (thread_phase h' i)" i q] by (auto simp: linearizes_def phase_step_Some)
  next
    case (Lin i q x)
    then obtain m1 where "spec_run spec m0 (lin_ops h') m1" "spec m1 q m x" using a by (auto simp: spec_run_snoc)
    then show ?thesis using a ph upd Lin snoc.IH[of "filter (\<lambda>e. \<not> is_lin e) h'" m1]
      lin_state.lin[of spec m0 _ m1 "\<lambda>i. the (thread_phase h' i)" i q m x] by (auto simp: linearizes_def phase_step_Some)
  next
    case (Res i q x)
    then show ?thesis using a ph upd snoc.IH[of "filter (\<lambda>e. \<not> is_lin e) h'" m]
      lin_state.res[of spec m0 _ m "\<lambda>i. the (thread_phase h' i)" i q x] by (auto simp: linearizes_def phase_step_Some)
  qed
qed

section \<open>Requests that take effect at one call\<close>

text \<open>From here on the program leaves the object as it is and answers \<open>x\<close>.\<close>

primrec settled ::
  "('c \<Rightarrow> 's \<Rightarrow> 's \<times> 'r) \<Rightarrow> ('s \<Rightarrow> bool) \<Rightarrow> ('s \<Rightarrow> 'm) \<Rightarrow> 'x \<Rightarrow> ('c, 'r, 'a, 'x) prog \<Rightarrow> bool" where
  "settled body invar abst x (Return y) = (y = x)"
| "settled body invar abst x (Call c f) =
     (\<forall>s. invar s \<longrightarrow> abst (fst (body c s)) = abst s \<and> settled body invar abst x (f (snd (body c s))))"
| "settled body invar abst x (Atomic a f) = (\<forall>n. settled body invar abst x (f n))"

text \<open>The program changes nothing up to one call, after which it is settled.\<close>

primrec one_point ::
  "('c \<Rightarrow> 's \<Rightarrow> 's \<times> 'r) \<Rightarrow> ('s \<Rightarrow> bool) \<Rightarrow> ('s \<Rightarrow> 'm) \<Rightarrow> ('m \<Rightarrow> 'q \<Rightarrow> 'm \<Rightarrow> 'x \<Rightarrow> bool) \<Rightarrow> 'q \<Rightarrow> ('c, 'r, 'a, 'x) prog \<Rightarrow> bool" where
  "one_point body invar abst spec q (Return x) = (\<forall>m. spec m q m x)"
| "one_point body invar abst spec q (Call c f) =
     (\<forall>s. invar s \<longrightarrow>
        (\<exists>x. settled body invar abst x (f (snd (body c s))) \<and> spec (abst s) q (abst (fst (body c s))) x) \<or>
        (abst (fst (body c s)) = abst s \<and> one_point body invar abst spec q (f (snd (body c s)))))"
| "one_point body invar abst spec q (Atomic a f) = (\<forall>n. one_point body invar abst spec q (f n))"

locale point_requests = locked_object body exclusive
  for body :: "'c \<Rightarrow> 's \<Rightarrow> 's \<times> 'r" and exclusive :: "'c \<Rightarrow> bool" +
  fixes invar :: "'s \<Rightarrow> bool" and abst :: "'s \<Rightarrow> 'm" and spec :: "'m \<Rightarrow> 'q \<Rightarrow> 'm \<Rightarrow> 'x \<Rightarrow> bool"
    and prog_of :: "'q \<Rightarrow> ('c, 'r, 'a, 'x) prog" and ok :: "'q \<Rightarrow> bool"
  assumes body_invar: "invar s \<Longrightarrow> invar (fst (body c s))"
    and prog_one_point: "ok q \<Longrightarrow> one_point body invar abst spec q (prog_of q)"
begin

definition in_phase :: "('q, 'x) event list \<Rightarrow> nat \<Rightarrow> ('q \<times> ('c, 'r, 'a, 'x) prog) option \<Rightarrow> bool" where
  "in_phase h i tp =
     (case tp of
        None \<Rightarrow> thread_phase h i = Some Idle
      | Some (q, p) \<Rightarrow> (thread_phase h i = Some (Invoked q) \<and> one_point body invar abst spec q p) \<or>
                     (\<exists>x. thread_phase h i = Some (Linearized q x) \<and> settled body invar abst x p))"

definition explains :: "'s \<Rightarrow> 's \<Rightarrow> ('q, 'c, 'r, 'a, 'k, 'x) threads \<Rightarrow> ('q, 'x) event list \<Rightarrow> bool" where
  "explains s0 s t h' =
     (invar s \<and> filter (\<lambda>e. \<not> is_lin e) h' = th_hist t \<and> spec_run spec (abst s0) (lin_ops h') (abst s) \<and>
      (\<forall>i. in_phase h' i (th_prog t i)))"

lemma in_phase_other: "thread_of e \<noteq> i \<Longrightarrow> in_phase (h @ [e]) i tp = in_phase h i tp"
  by (simp add: in_phase_def split: option.split)

lemma explains_invoke:
  assumes "explains s0 s t h" "th_prog t i = None" "ok q"
  shows "explains s0 s (th_invoke t i q (prog_of q)) (h @ [Inv i q])"
proof -
  have "thread_phase h i = Some Idle" using assms(1,2) by (auto simp: explains_def in_phase_def dest!: spec[of _ i])
  then show ?thesis using assms prog_one_point
    by (auto simp: explains_def th_invoke_def in_phase_other) (simp add: in_phase_def)
qed

lemma explains_phase: "explains s0 s t h \<Longrightarrow> th_prog t i = p \<Longrightarrow> in_phase h i p"
  by (auto simp: explains_def)

lemma explains_count:
  assumes "explains s0 s t h" "th_prog t i = Some (q, Atomic a f)"
  shows "explains s0 s (th_count t i q (f n) k) h"
proof -
  have "in_phase h i (Some (q, f n))" using explains_phase[OF assms] by (auto simp: in_phase_def)
  then show ?thesis using assms by (auto simp: explains_def th_count_def)
qed

lemma explains_lin:
  assumes "explains s0 s t h" "thread_phase h i = Some (Invoked q)" "invar s'" "spec (abst s) q (abst s') x"
    "settled body invar abst x p"
  shows "explains s0 s' (th_goto t i q p) (h @ [Lin i q x])"
proof -
  have "in_phase (h @ [Lin i q x]) i (Some (q, p))" using assms(2,5) by (simp add: in_phase_def)
  moreover have "spec_run spec (abst s0) (lin_ops (h @ [Lin i q x])) (abst s')"
    using assms(1) spec_run.one_more[of spec "abst s0" "lin_ops h" "abst s", OF _ assms(4)] by (simp add: explains_def)
  ultimately show ?thesis using assms by (auto simp: explains_def th_goto_def in_phase_other)
qed

lemma explains_call:
  assumes "explains s0 s t h" "th_prog t i = Some (q, Call c f)" "body c s = (s', r)"
  shows "\<exists>h'. explains s0 s' (th_goto t i q (f r)) h'"
proof -
  have s: "invar s" and s': "invar s'" using assms(1,3) body_invar[of s c] by (auto simp: explains_def)
  have stay: "explains s0 s' (th_goto t i q (f r)) h" if "abst s' = abst s" "in_phase h i (Some (q, f r))"
    using assms(1) s' that by (auto simp: explains_def th_goto_def)
  consider "thread_phase h i = Some (Invoked q)" "one_point body invar abst spec q (Call c f)"
    | x where "thread_phase h i = Some (Linearized q x)" "settled body invar abst x (Call c f)"
    using explains_phase[OF assms(1,2)] by (auto simp: in_phase_def)
  then show ?thesis
  proof cases
    case 1
    then consider x where "settled body invar abst x (f r)" "spec (abst s) q (abst s') x"
      | "abst s' = abst s" "one_point body invar abst spec q (f r)" using s assms(3) by fastforce
    then show ?thesis
    proof cases
      case 2
      then show ?thesis using stay 1(1) by (auto simp: in_phase_def)
    qed (use explains_lin[OF assms(1) 1(1) s'] in blast)
  next
    case (2 x)
    then have "abst s' = abst s" "settled body invar abst x (f r)" using s assms(3) by force+
    then show ?thesis using stay 2(1) by (auto simp: in_phase_def)
  qed
qed

lemma explains_finish:
  assumes "explains s0 s t h" "th_prog t i = Some (q, Return x)"
  shows "\<exists>h'. explains s0 s (th_finish t i q x) h'"
proof -
  have res: "\<exists>h'. explains s0 s (th_finish t i q x) h'"
    if "explains s0 s u g" "thread_phase g i = Some (Linearized q x)" "th_prog u = th_prog t" "th_hist u = th_hist t" for u g
  proof -
    have "in_phase (g @ [Res i q x]) i None" using that(2) by (simp add: in_phase_def)
    then have "explains s0 s (th_finish t i q x) (g @ [Res i q x])"
      using that by (auto simp: explains_def th_finish_def in_phase_other)
    then show ?thesis by blast
  qed
  consider "thread_phase h i = Some (Invoked q)" "\<forall>m. spec m q m x" | "thread_phase h i = Some (Linearized q x)"
    using explains_phase[OF assms] by (auto simp: in_phase_def)
  then show ?thesis
  proof cases
    case 1
    then have "explains s0 s (th_goto t i q (Return x)) (h @ [Lin i q x])"
      using assms(1) by (intro explains_lin[of s0 s]) (auto simp: explains_def)
    then show ?thesis using res[of "th_goto t i q (Return x)" "h @ [Lin i q x]"] 1 assms(2)
      by (auto simp: th_goto_def fun_upd_idem)
  qed (use res[OF assms(1)] in simp)
qed

lemma atomic_run_explained:
  assumes "invar s0"
  shows "atomic_run body counter prog_of ok s0 k0 s t \<Longrightarrow> \<exists>h'. explains s0 s t h'"
proof (induction rule: atomic_run.induct)
  case start
  have "explains s0 s0 (threads_new k0) []"
    using assms spec_run.none by (simp add: explains_def threads_new_def in_phase_def)
  then show ?case by blast
next
  case (invoke s t i q)
  then show ?case using explains_invoke[of s0 s t _ i q] by metis
next
  case (count s t i q a f k n)
  then show ?case using explains_count[of s0 s t _ i q a f n k] by metis
next
  case (call s t i q c f s' r)
  then show ?case using explains_call[of s0 s t _ i q c f s' r] by metis
next
  case (finish s t i q x)
  then show ?case using explains_finish[of s0 s t _ i q x] by metis
qed

lemma explains_linearizes: "explains s0 s t h' \<Longrightarrow> linearizes spec (abst s0) (th_hist t) (abst s) h'"
  unfolding explains_def linearizes_def in_phase_def by (fastforce split: option.splits)

lemma requests_linearizable:
  assumes "invar s0" "locked_run body exclusive counter prog_of ok s0 k0 l t"
  shows "\<exists>h'. linearizes spec (abst s0) (th_hist t) (abst (lo_data l)) h'"
  using atomic_run_explained[OF assms(1) locked_run_simulates[OF assms(2)]] explains_linearizes by fastforce

end

end
