(* ===== verification/Concurrent_Table.thy ===== *)
theory Concurrent_Table
  imports Hash_Table Threads
begin

text \<open>
  \<^verbatim>\<open>ConcurrentHashTable\<close> of \<^verbatim>\<open>src/src/data/hashtable.{hpp,cpp}\<close>: a \<^verbatim>\<open>HashTable\<close>
  behind a \<^verbatim>\<open>std::shared_mutex\<close>. A method takes the lock, exclusively (\<^verbatim>\<open>unique_lock\<close>) or
  shared (\<^verbatim>\<open>shared_lock\<close>), reads the table, writes its result back and releases the lock when it
  returns; the methods are a \<open>locked_object\<close>. The theorem is that the locks are enough: every interleaving of
  any number of threads is equivalent to running the methods one after the other.
\<close>

section \<open>Methods\<close>

datatype cht_call =
    Call_set string string | Call_get string | Call_del string | Call_exists string
  | Call_keys string | Call_clear | Call_size

datatype cht_result = RBool bool | RValue "string option" | RKeys "string list" | RUnit | RSize nat

text \<open>The body of a method, on the table it sees.\<close>

fun call_body :: "cht_call \<Rightarrow> hash_table \<Rightarrow> hash_table \<times> cht_result" where
  "call_body (Call_set k v) t = (let (t', b) = ht_set t k v in (t', RBool b))"
| "call_body (Call_get k) t = (t, RValue (ht_get t k))"
| "call_body (Call_del k) t = (let (t', b) = ht_del t k in (t', RBool b))"
| "call_body (Call_exists k) t = (t, RBool (ht_exists t k))"
| "call_body (Call_keys p) t = (t, RKeys (ht_keys t p))"
| "call_body Call_clear t = (ht_clear t, RUnit)"
| "call_body Call_size t = (t, RSize (ht_size t))"

text \<open>The methods that take \<^verbatim>\<open>std::unique_lock\<close>; the others take \<^verbatim>\<open>std::shared_lock\<close>.\<close>

fun exclusive :: "cht_call \<Rightarrow> bool" where
  "exclusive (Call_set k v) = True"
| "exclusive (Call_del k) = True"
| "exclusive Call_clear = True"
| "exclusive _ = False"

lemma shared_body_reads: "\<not> exclusive c \<Longrightarrow> fst (call_body c t) = t"
  by (cases c) auto

section \<open>The table under its lock\<close>

type_synonym cht_state = "(cht_call, hash_table, cht_result) lock_state"

definition cht_new :: "hash_table \<Rightarrow> cht_state" where
  "cht_new t = lock_new t"

interpretation cht: locked_object call_body exclusive
  by unfold_locales (rule shared_body_reads)

abbreviation cht_reachable :: "hash_table \<Rightarrow> cht_state \<Rightarrow> bool" where
  "cht_reachable \<equiv> lock_reachable call_body exclusive"

lemma call_body_wf: "ht_wf t \<Longrightarrow> ht_wf (fst (call_body c t))"
  by (cases c) (auto simp: case_prod_beta ht.invars)

section \<open>Property\<close>

text \<open>
  C14: \<^verbatim>\<open>ConcurrentHashTable\<close> is linearisable: in every interleaving of any number of threads,
  a thread with the exclusive lock is alone, and the table and the results the methods return
  are those of running the methods one at a time in the order in which they took effect; the
  table keeps its invariant.
\<close>

theorem concurrent_table_linearizable:
  assumes "ht_wf t0" "cht_reachable t0 s"
  shows "replay call_body t0 (map fst (lo_log s)) = (lo_data s, map snd (lo_log s)) \<and> ht_wf (lo_data s) \<and>
    (\<forall>i j. mode exclusive (lo_pc s i) = Some True \<longrightarrow> j \<noteq> i \<longrightarrow> mode exclusive (lo_pc s j) = None)"
proof -
  have "ht_wf (fst (replay call_body t0 (map fst (lo_log s))))"
    using replay_preserves[of ht_wf call_body] call_body_wf assms(1) by blast
  then show ?thesis using cht.linearizable[OF assms(2)] by (metis fst_conv)
qed

theorem concurrent_table_linearizable_witness:
  "\<exists>s. cht_reachable default_table s \<and> lo_log s = [(Call_set ''k'' ''v'', RBool True), (Call_get ''k'', RValue (Some ''v''))] \<and>
     ht_wf (lo_data s) \<and> replay call_body default_table [Call_set ''k'' ''v'', Call_get ''k''] = (lo_data s, [RBool True, RValue (Some ''v'')])"
proof -
  let ?s1 = "whole_call call_body (cht_new default_table) (Call_set ''k'' ''v'')"
  let ?s = "whole_call call_body ?s1 (Call_get ''k'')"
  have r: "cht_reachable default_table ?s" unfolding cht_new_def
    by (intro cht.reachable_whole_call lock_reachable.start) simp_all
  have "lo_log ?s = [(Call_set ''k'' ''v'', RBool True), (Call_get ''k'', RValue (Some ''v''))]"
    using default_table_wf
    by (simp add: whole_call_def cht_new_def lock_new_def case_prod_beta Let_def ht.get_map ht.maps ht.invars ht.set_new default_table_map)
  then show ?thesis using concurrent_table_linearizable[OF default_table_wf r] r by (intro exI[of _ ?s]) simp
qed

end
