(* ===== verification/Avl_Tree.thy ===== *)
theory Avl_Tree
  imports Prelude
begin

text \<open>
  \<^verbatim>\<open>AVLTree<K, V, Compare>\<close> of \<^verbatim>\<open>src/src/data/avl_tree.hpp\<close>. A node pointer is a
  value of \<open>avl\<close>, \<open>Null\<close> for the null pointer; the comparator of the template is the
  parameter \<open>lt\<close>. The tree is not shared, so the in-place updates of the source are the
  functional updates of the model, and a function that assigns through a \<^verbatim>\<open>bool&\<close>
  returns the flag. Rotations read through child pointers; where such a pointer is null (never
  on a tree that satisfies the invariant) the source is undefined and the model leaves the tree
  as it is. Heights, ranks and counts are \<^verbatim>\<open>int\<close> in the source; a tree with fewer than
  \<^verbatim>\<open>2^31\<close> nodes does not overflow them.

  The comparator is asked to be a strict weak order on the keys that are stored
  (\<open>strict_weak_order\<close>); the lemmas of that locale are: insertion, removal, lookup, range
  and rank are those of the sorted list of entries, and the balance invariant is kept.
\<close>

section \<open>Nodes\<close>

datatype ('k, 'v) avl =
    Null
  | Node (nkey: 'k) (nvalue: 'v) (nheight: int) (nleft: "('k, 'v) avl") (nright: "('k, 'v) avl")

fun getHeight :: "('k, 'v) avl \<Rightarrow> int" where
  "getHeight Null = 0"
| "getHeight (Node k v h l r) = h"

fun getBalance :: "('k, 'v) avl \<Rightarrow> int" where
  "getBalance Null = 0"
| "getBalance (Node k v h l r) = getHeight l - getHeight r"

fun updateHeight :: "('k, 'v) avl \<Rightarrow> ('k, 'v) avl" where
  "updateHeight Null = Null"
| "updateHeight (Node k v h l r) = Node k v (1 + max (getHeight l) (getHeight r)) l r"

fun rotateRight :: "('k, 'v) avl \<Rightarrow> ('k, 'v) avl" where
  "rotateRight (Node yk yv yh (Node xk xv xh xl T2) yr) =
     updateHeight (Node xk xv xh xl (updateHeight (Node yk yv yh T2 yr)))"
| "rotateRight t = t"

fun rotateLeft :: "('k, 'v) avl \<Rightarrow> ('k, 'v) avl" where
  "rotateLeft (Node xk xv xh xl (Node yk yv yh T2 yr)) =
     updateHeight (Node yk yv yh (updateHeight (Node xk xv xh xl T2)) yr)"
| "rotateLeft t = t"

text \<open>Assignments \<^verbatim>\<open>node->left = ...\<close> and \<^verbatim>\<open>node->right = ...\<close>.\<close>

fun set_left :: "('k, 'v) avl \<Rightarrow> ('k, 'v) avl \<Rightarrow> ('k, 'v) avl" where
  "set_left (Node k v h l r) l' = Node k v h l' r"
| "set_left Null l' = Null"

fun set_right :: "('k, 'v) avl \<Rightarrow> ('k, 'v) avl \<Rightarrow> ('k, 'v) avl" where
  "set_right (Node k v h l r) r' = Node k v h l r'"
| "set_right Null r' = Null"

section \<open>Insertion\<close>

text \<open>The part of \<^verbatim>\<open>insertNode\<close> after the recursive call.\<close>

definition insertFixup :: "('k \<Rightarrow> 'k \<Rightarrow> bool) \<Rightarrow> 'k \<Rightarrow> ('k, 'v) avl \<Rightarrow> ('k, 'v) avl" where
  "insertFixup lt key node0 =
     (let node = updateHeight node0; balance = getBalance node
      in if balance > 1 \<and> lt key (nkey (nleft node)) then rotateRight node
         else if balance < -1 \<and> lt (nkey (nright node)) key then rotateLeft node
         else if balance > 1 \<and> lt (nkey (nleft node)) key
         then rotateRight (set_left node (rotateLeft (nleft node)))
         else if balance < -1 \<and> lt key (nkey (nright node))
         then rotateLeft (set_right node (rotateRight (nright node)))
         else node)"

fun insertNode ::
  "('k \<Rightarrow> 'k \<Rightarrow> bool) \<Rightarrow> ('k, 'v) avl \<Rightarrow> 'k \<Rightarrow> 'v \<Rightarrow> ('k, 'v) avl \<times> bool" where
  "insertNode lt Null key val = (Node key val 1 Null Null, True)"
| "insertNode lt (Node nk nv h l r) key val =
     (if lt key nk then
        let (l', inserted) = insertNode lt l key val
        in (insertFixup lt key (Node nk nv h l' r), inserted)
      else if lt nk key then
        let (r', inserted) = insertNode lt r key val
        in (insertFixup lt key (Node nk nv h l r'), inserted)
      else (Node nk val h l r, False))"

section \<open>Removal\<close>

fun findMin :: "('k, 'v) avl \<Rightarrow> ('k, 'v) avl" where
  "findMin Null = Null"
| "findMin (Node k v h Null r) = Node k v h Null r"
| "findMin (Node k v h l r) = findMin l"

text \<open>The part of \<^verbatim>\<open>removeNode\<close> after the recursive call.\<close>

definition removeFixup :: "('k, 'v) avl \<Rightarrow> ('k, 'v) avl" where
  "removeFixup node0 =
     (let node = updateHeight node0; balance = getBalance node
      in if balance > 1 \<and> getBalance (nleft node) \<ge> 0 then rotateRight node
         else if balance > 1 \<and> getBalance (nleft node) < 0
         then rotateRight (set_left node (rotateLeft (nleft node)))
         else if balance < -1 \<and> getBalance (nright node) \<le> 0 then rotateLeft node
         else if balance < -1 \<and> getBalance (nright node) > 0
         then rotateLeft (set_right node (rotateRight (nright node)))
         else node)"

fun removeNode ::
  "('k \<Rightarrow> 'k \<Rightarrow> bool) \<Rightarrow> ('k, 'v) avl \<Rightarrow> 'k \<Rightarrow> ('k, 'v) avl \<times> bool" where
  "removeNode lt Null key = (Null, False)"
| "removeNode lt (Node nk nv h l r) key =
     (if lt key nk then
        let (l', removed) = removeNode lt l key in (removeFixup (Node nk nv h l' r), removed)
      else if lt nk key then
        let (r', removed) = removeNode lt r key in (removeFixup (Node nk nv h l r'), removed)
      else if l = Null \<or> r = Null then (if l \<noteq> Null then l else r, True)
      else
        let temp = findMin r;
            (r', removed) = removeNode lt r (nkey temp)
        in (removeFixup (Node (nkey temp) (nvalue temp) h l r'), removed))"

section \<open>Queries\<close>

fun findNode :: "('k \<Rightarrow> 'k \<Rightarrow> bool) \<Rightarrow> ('k, 'v) avl \<Rightarrow> 'k \<Rightarrow> ('k, 'v) avl" where
  "findNode lt Null key = Null"
| "findNode lt (Node nk nv h l r) key =
     (if lt key nk then findNode lt l key
      else if lt nk key then findNode lt r key
      else Node nk nv h l r)"

fun inorderTraversal :: "('k, 'v) avl \<Rightarrow> ('k \<times> 'v) list \<Rightarrow> ('k \<times> 'v) list" where
  "inorderTraversal Null result = result"
| "inorderTraversal (Node k v h l r) result =
     inorderTraversal r (inorderTraversal l result @ [(k, v)])"

fun rangeQuery ::
  "('k \<Rightarrow> 'k \<Rightarrow> bool) \<Rightarrow> ('k, 'v) avl \<Rightarrow> 'k \<Rightarrow> 'k \<Rightarrow> ('k \<times> 'v) list \<Rightarrow> ('k \<times> 'v) list" where
  "rangeQuery lt Null from to result = result"
| "rangeQuery lt (Node k v h l r) from to result =
     (if \<not> lt k from \<and> \<not> lt to k
      then rangeQuery lt r from to (rangeQuery lt l from to result @ [(k, v)])
      else if lt k from then rangeQuery lt r from to result
      else rangeQuery lt l from to result)"

fun getSubtreeSize :: "('k, 'v) avl \<Rightarrow> int" where
  "getSubtreeSize Null = 0"
| "getSubtreeSize (Node k v h l r) = 1 + getSubtreeSize l + getSubtreeSize r"

fun getRank :: "('k \<Rightarrow> 'k \<Rightarrow> bool) \<Rightarrow> ('k, 'v) avl \<Rightarrow> 'k \<Rightarrow> int" where
  "getRank lt Null key = -1"
| "getRank lt (Node nk nv h l r) key =
     (if lt key nk then getRank lt l key
      else if lt nk key then
        let leftSize = getSubtreeSize l; rightRank = getRank lt r key
        in if rightRank = -1 then -1 else leftSize + 1 + rightRank
      else getSubtreeSize l)"

section \<open>The tree object\<close>

record ('k, 'v) avl_tree =
  avl_root :: "('k, 'v) avl"
  avl_size :: nat

definition avl_empty :: "('k, 'v) avl_tree" where
  "avl_empty = \<lparr>avl_root = Null, avl_size = 0\<rparr>"

definition avl_insert ::
  "('k \<Rightarrow> 'k \<Rightarrow> bool) \<Rightarrow> ('k, 'v) avl_tree \<Rightarrow> 'k \<Rightarrow> 'v \<Rightarrow> ('k, 'v) avl_tree \<times> bool" where
  "avl_insert lt t key val =
     (let (root, inserted) = insertNode lt (avl_root t) key val
      in (\<lparr>avl_root = root, avl_size = (if inserted then avl_size t + 1 else avl_size t)\<rparr>, inserted))"

definition avl_remove ::
  "('k \<Rightarrow> 'k \<Rightarrow> bool) \<Rightarrow> ('k, 'v) avl_tree \<Rightarrow> 'k \<Rightarrow> ('k, 'v) avl_tree \<times> bool" where
  "avl_remove lt t key =
     (let (root, removed) = removeNode lt (avl_root t) key
      in (\<lparr>avl_root = root, avl_size = (if removed then avl_size t - 1 else avl_size t)\<rparr>, removed))"

definition avl_find :: "('k \<Rightarrow> 'k \<Rightarrow> bool) \<Rightarrow> ('k, 'v) avl_tree \<Rightarrow> 'k \<Rightarrow> 'v option" where
  "avl_find lt t key =
     (let node = findNode lt (avl_root t) key in if node \<noteq> Null then Some (nvalue node) else None)"

definition avl_contains :: "('k \<Rightarrow> 'k \<Rightarrow> bool) \<Rightarrow> ('k, 'v) avl_tree \<Rightarrow> 'k \<Rightarrow> bool" where
  "avl_contains lt t key = (findNode lt (avl_root t) key \<noteq> Null)"

definition avl_inorder :: "('k, 'v) avl_tree \<Rightarrow> ('k \<times> 'v) list" where
  "avl_inorder t = inorderTraversal (avl_root t) []"

definition avl_range ::
  "('k \<Rightarrow> 'k \<Rightarrow> bool) \<Rightarrow> ('k, 'v) avl_tree \<Rightarrow> 'k \<Rightarrow> 'k \<Rightarrow> ('k \<times> 'v) list" where
  "avl_range lt t from to = rangeQuery lt (avl_root t) from to []"

definition avl_rank :: "('k \<Rightarrow> 'k \<Rightarrow> bool) \<Rightarrow> ('k, 'v) avl_tree \<Rightarrow> 'k \<Rightarrow> int" where
  "avl_rank lt t key = getRank lt (avl_root t) key"

definition avl_clear :: "('k, 'v) avl_tree \<Rightarrow> ('k, 'v) avl_tree" where
  "avl_clear t = t\<lparr>avl_root := Null, avl_size := 0\<rparr>"

definition avl_height :: "('k, 'v) avl_tree \<Rightarrow> int" where
  "avl_height t = getHeight (avl_root t)"

section \<open>In-order contents\<close>

fun contents :: "('k, 'v) avl \<Rightarrow> ('k \<times> 'v) list" where
  "contents Null = []"
| "contents (Node k v h l r) = contents l @ (k, v) # contents r"

lemma inorderTraversal_contents: "inorderTraversal t result = result @ contents t"
  by (induction t arbitrary: result) auto

lemma getSubtreeSize_contents: "getSubtreeSize t = int (length (contents t))"
  by (induction t) auto

lemma contents_updateHeight [simp]: "contents (updateHeight t) = contents t"
  by (cases t) auto

lemma contents_rotateRight [simp]: "contents (rotateRight t) = contents t"
  by (induction t rule: rotateRight.induct) auto

lemma contents_rotateLeft [simp]: "contents (rotateLeft t) = contents t"
  by (induction t rule: rotateLeft.induct) auto

lemma contents_set_left [simp]:
  "contents l' = contents (nleft t) \<Longrightarrow> t \<noteq> Null \<Longrightarrow> contents (set_left t l') = contents t"
  by (cases t) auto

lemma contents_set_right [simp]:
  "contents r' = contents (nright t) \<Longrightarrow> t \<noteq> Null \<Longrightarrow> contents (set_right t r') = contents t"
  by (cases t) auto

lemma updateHeight_Null [simp]: "updateHeight t = Null \<longleftrightarrow> t = Null"
  by (cases t) auto

lemma contents_insertFixup [simp]:
  "contents (insertFixup lt k (Node nk nv h l r)) = contents l @ (nk, nv) # contents r"
  by (simp add: insertFixup_def Let_def)

lemma contents_removeFixup [simp]:
  "contents (removeFixup (Node nk nv h l r)) = contents l @ (nk, nv) # contents r"
  by (simp add: removeFixup_def Let_def)

lemma findMin_contents:
  "t \<noteq> Null \<Longrightarrow> contents t = (nkey (findMin t), nvalue (findMin t)) # tl (contents t)"
proof (induction t rule: findMin.induct)
  case (3 k v h lk lv lh ll lr r)
  then show ?case by (metis append_Cons contents.simps(2) findMin.simps(3) list.sel(3) avl.distinct(1))
qed auto

section \<open>The same operations on sorted lists\<close>

fun ins_list :: "('k \<Rightarrow> 'k \<Rightarrow> bool) \<Rightarrow> 'k \<Rightarrow> 'v \<Rightarrow> ('k \<times> 'v) list \<Rightarrow> ('k \<times> 'v) list" where
  "ins_list lt k v [] = [(k, v)]"
| "ins_list lt k v ((a, b) # ps) =
     (if lt k a then (k, v) # (a, b) # ps
      else if lt a k then (a, b) # ins_list lt k v ps
      else (a, v) # ps)"

fun del_list :: "('k \<Rightarrow> 'k \<Rightarrow> bool) \<Rightarrow> 'k \<Rightarrow> ('k \<times> 'v) list \<Rightarrow> ('k \<times> 'v) list" where
  "del_list lt k [] = []"
| "del_list lt k ((a, b) # ps) =
     (if lt k a then (a, b) # ps
      else if lt a k then (a, b) # del_list lt k ps
      else ps)"

definition same_key :: "('k \<Rightarrow> 'k \<Rightarrow> bool) \<Rightarrow> 'k \<Rightarrow> 'k \<Rightarrow> bool" where
  "same_key lt a b = (\<not> lt a b \<and> \<not> lt b a)"

definition has_key :: "('k \<Rightarrow> 'k \<Rightarrow> bool) \<Rightarrow> 'k \<Rightarrow> ('k \<times> 'v) list \<Rightarrow> bool" where
  "has_key lt k ps = (\<exists>p \<in> set ps. same_key lt k (fst p))"

definition in_order :: "('k \<Rightarrow> 'k \<Rightarrow> bool) \<Rightarrow> ('k \<times> 'v) list \<Rightarrow> bool" where
  "in_order lt ps = sorted_wrt (\<lambda>p q. lt (fst p) (fst q)) ps"

lemma in_order_simps [simp]:
  "in_order lt []"
  "in_order lt (p # ps) \<longleftrightarrow> (\<forall>q \<in> set ps. lt (fst p) (fst q)) \<and> in_order lt ps"
  "in_order lt (ps @ qs) \<longleftrightarrow>
     in_order lt ps \<and> in_order lt qs \<and> (\<forall>p \<in> set ps. \<forall>q \<in> set qs. lt (fst p) (fst q))"
  by (simp_all add: in_order_def sorted_wrt_append)

section \<open>What the comparator promises\<close>

locale strict_weak_order =
  fixes lt :: "'k \<Rightarrow> 'k \<Rightarrow> bool"
    and ok :: "'k \<Rightarrow> bool"
  assumes irrefl: "ok x \<Longrightarrow> \<not> lt x x"
    and trans: "ok x \<Longrightarrow> ok y \<Longrightarrow> ok z \<Longrightarrow> lt x y \<Longrightarrow> lt y z \<Longrightarrow> lt x z"
    and incomparable: "ok x \<Longrightarrow> ok y \<Longrightarrow> ok z \<Longrightarrow> \<not> lt x y \<Longrightarrow> \<not> lt y z \<Longrightarrow> \<not> lt x z"
begin

lemma asym: "ok x \<Longrightarrow> ok y \<Longrightarrow> lt x y \<Longrightarrow> \<not> lt y x"
  using irrefl[of x] trans[of x y x] by blast

lemma le_less: "ok x \<Longrightarrow> ok y \<Longrightarrow> ok z \<Longrightarrow> \<not> lt y x \<Longrightarrow> lt y z \<Longrightarrow> lt x z"
  using incomparable[of y x z] by blast

lemma less_le: "ok x \<Longrightarrow> ok y \<Longrightarrow> ok z \<Longrightarrow> lt x y \<Longrightarrow> \<not> lt z y \<Longrightarrow> lt x z"
  using incomparable[of x z y] by blast

lemma ins_list_left:
  "in_order lt (ps @ [(a, b)]) \<Longrightarrow> \<forall>p \<in> set ps. ok (fst p) \<Longrightarrow> ok a \<Longrightarrow> ok k \<Longrightarrow> lt k a \<Longrightarrow>
   ins_list lt k v (ps @ (a, b) # qs) = ins_list lt k v ps @ (a, b) # qs"
  by (induction ps) auto

lemma ins_list_right:
  "in_order lt (ps @ [(a, b)]) \<Longrightarrow> \<forall>p \<in> set ps. ok (fst p) \<Longrightarrow> ok a \<Longrightarrow> ok k \<Longrightarrow> \<not> lt k a \<Longrightarrow>
   ins_list lt k v (ps @ (a, b) # qs) = ps @ ins_list lt k v ((a, b) # qs)"
proof (induction ps)
  case Nil
  then show ?case by simp
next
  case (Cons p ps)
  obtain c d where p: "p = (c, d)" by force
  have "lt c k" using Cons.prems p less_le[of c a k] by auto
  moreover from this have "\<not> lt k c" using Cons.prems p asym[of c k] by auto
  ultimately show ?case using Cons p by auto
qed

lemma del_list_left:
  "in_order lt (ps @ [(a, b)]) \<Longrightarrow> \<forall>p \<in> set ps. ok (fst p) \<Longrightarrow> ok a \<Longrightarrow> ok k \<Longrightarrow> lt k a \<Longrightarrow>
   del_list lt k (ps @ (a, b) # qs) = del_list lt k ps @ (a, b) # qs"
  by (induction ps) auto

lemma del_list_right:
  "in_order lt (ps @ [(a, b)]) \<Longrightarrow> \<forall>p \<in> set ps. ok (fst p) \<Longrightarrow> ok a \<Longrightarrow> ok k \<Longrightarrow> \<not> lt k a \<Longrightarrow>
   del_list lt k (ps @ (a, b) # qs) = ps @ del_list lt k ((a, b) # qs)"
proof (induction ps)
  case Nil
  then show ?case by simp
next
  case (Cons p ps)
  obtain c d where p: "p = (c, d)" by force
  have "lt c k" using Cons.prems p less_le[of c a k] by auto
  moreover from this have "\<not> lt k c" using Cons.prems p asym[of c k] by auto
  ultimately show ?case using Cons p by auto
qed

lemma contents_insertNode:
  "in_order lt (contents t) \<Longrightarrow> \<forall>p \<in> set (contents t). ok (fst p) \<Longrightarrow> ok k \<Longrightarrow>
   contents (fst (insertNode lt t k v)) = ins_list lt k v (contents t)"
proof (induction t)
  case Null
  then show ?case by simp
next
  case (Node nk nv h l r)
  consider (left) "lt k nk" | (right) "\<not> lt k nk" "lt nk k" | (same) "\<not> lt k nk" "\<not> lt nk k" by blast
  then show ?case
  proof cases
    case left
    then show ?thesis using Node by (auto simp: ins_list_left case_prod_beta)
  next
    case right
    then show ?thesis using Node by (auto simp: ins_list_right case_prod_beta)
  next
    case same
    then show ?thesis using Node by (auto simp: ins_list_right)
  qed
qed

lemma contents_removeNode:
  "in_order lt (contents t) \<Longrightarrow> \<forall>p \<in> set (contents t). ok (fst p) \<Longrightarrow> ok k \<Longrightarrow>
   contents (fst (removeNode lt t k)) = del_list lt k (contents t)"
proof (induction t arbitrary: k)
  case Null
  then show ?case by simp
next
  case (Node nk nv h l r)
  consider (left) "lt k nk" | (right) "\<not> lt k nk" "lt nk k"
    | (leaf) "\<not> lt k nk" "\<not> lt nk k" "l = Null \<or> r = Null"
    | (inner) "\<not> lt k nk" "\<not> lt nk k" "l \<noteq> Null" "r \<noteq> Null" by blast
  then show ?case
  proof cases
    case left
    then show ?thesis using Node by (auto simp: del_list_left case_prod_beta)
  next
    case right
    then show ?thesis using Node by (auto simp: del_list_right case_prod_beta)
  next
    case leaf
    then show ?thesis using Node.prems by (auto simp: del_list_right)
  next
    case inner
    let ?m = "findMin r"
    have r: "contents r = (nkey ?m, nvalue ?m) # tl (contents r)" using inner(4) by (rule findMin_contents)
    then have okm: "ok (nkey ?m)" using Node.prems(2)
      by (metis fst_conv Un_iff contents.simps(2) list.set_intros(1,2) set_append)
    have "contents (fst (removeNode lt r (nkey ?m))) = del_list lt (nkey ?m) (contents r)"
      using Node by (intro Node.IH(2)) (auto simp: okm)
    also have "\<dots> = tl (contents r)" using irrefl[OF okm] by (subst r) simp
    finally have "contents (fst (removeNode lt (Node nk nv h l r) k)) =
        contents l @ (nkey ?m, nvalue ?m) # tl (contents r)"
      using inner by (simp add: case_prod_beta Let_def)
    then show ?thesis using inner r Node.prems by (simp add: del_list_right)
  qed
qed

end

section \<open>Balance\<close>

fun balanced :: "('k, 'v) avl \<Rightarrow> bool" where
  "balanced Null = True"
| "balanced (Node k v h l r) =
     (balanced l \<and> balanced r \<and> h = 1 + max (getHeight l) (getHeight r) \<and>
      \<bar>getHeight l - getHeight r\<bar> \<le> 1)"

lemma balanced_height_nonneg: "balanced t \<Longrightarrow> 0 \<le> getHeight t"
  by (induction t) auto

lemma balanced_height_pos: "balanced t \<Longrightarrow> 0 < getHeight t \<longleftrightarrow> t \<noteq> Null"
  using balanced_height_nonneg by (cases t) fastforce+

lemma balanced_NodeE:
  assumes "balanced t" "0 < getHeight t"
  obtains k v h l r where "t = Node k v h l r" "balanced l" "balanced r"
    "h = 1 + max (getHeight l) (getHeight r)" "\<bar>getHeight l - getHeight r\<bar> \<le> 1"
    "0 \<le> getHeight l" "0 \<le> getHeight r"
  using assms by (cases t) (auto simp: balanced_height_nonneg)

text \<open>The four rotations of a node that is out of balance by two.\<close>

lemma rotate_LL:
  assumes "balanced l" "balanced r" "getHeight l = getHeight r + 2" "0 \<le> getBalance l"
  shows "balanced (rotateRight (Node k v h l r)) \<and>
    getHeight (rotateRight (Node k v h l r)) = getHeight l + (if getBalance l = 0 then 1 else 0)"
proof -
  have "0 < getHeight l" using assms(3) balanced_height_nonneg[OF assms(2)] by linarith
  then show ?thesis using assms by (elim balanced_NodeE[OF assms(1)]) auto
qed

lemma rotate_RR:
  assumes "balanced l" "balanced r" "getHeight r = getHeight l + 2" "getBalance r \<le> 0"
  shows "balanced (rotateLeft (Node k v h l r)) \<and>
    getHeight (rotateLeft (Node k v h l r)) = getHeight r + (if getBalance r = 0 then 1 else 0)"
proof -
  have "0 < getHeight r" using assms(3) balanced_height_nonneg[OF assms(1)] by linarith
  then show ?thesis using assms by (elim balanced_NodeE[OF assms(2)]) auto
qed

lemma rotate_LR:
  assumes "balanced l" "balanced r" "getHeight l = getHeight r + 2" "getBalance l < 0"
  shows "balanced (rotateRight (Node k v h (rotateLeft l) r)) \<and>
    getHeight (rotateRight (Node k v h (rotateLeft l) r)) = getHeight l"
proof -
  have "0 < getHeight l" using assms(3) balanced_height_nonneg[OF assms(2)] by linarith
  then obtain lk lv lh ll lr where l: "l = Node lk lv lh ll lr" "balanced ll" "balanced lr"
      "lh = 1 + max (getHeight ll) (getHeight lr)" "\<bar>getHeight ll - getHeight lr\<bar> \<le> 1"
      "0 \<le> getHeight ll" "0 \<le> getHeight lr"
    by (rule balanced_NodeE[OF assms(1)])
  then have "0 < getHeight lr" using assms(4) by simp
  then show ?thesis using l assms by (elim balanced_NodeE[OF l(3)]) auto
qed

lemma rotate_RL:
  assumes "balanced l" "balanced r" "getHeight r = getHeight l + 2" "0 < getBalance r"
  shows "balanced (rotateLeft (Node k v h l (rotateRight r))) \<and>
    getHeight (rotateLeft (Node k v h l (rotateRight r))) = getHeight r"
proof -
  have "0 < getHeight r" using assms(3) balanced_height_nonneg[OF assms(1)] by linarith
  then obtain rk rv rh rl rr where r: "r = Node rk rv rh rl rr" "balanced rl" "balanced rr"
      "rh = 1 + max (getHeight rl) (getHeight rr)" "\<bar>getHeight rl - getHeight rr\<bar> \<le> 1"
      "0 \<le> getHeight rl" "0 \<le> getHeight rr"
    by (rule balanced_NodeE[OF assms(2)])
  then have "0 < getHeight rl" using assms(4) by simp
  then show ?thesis using r assms by (elim balanced_NodeE[OF r(2)]) auto
qed

lemma removeFixup_balanced:
  assumes "balanced l" "balanced r" "\<bar>getHeight l - getHeight r\<bar> \<le> 2"
  shows "balanced (removeFixup (Node k v h l r)) \<and>
    (let m = max (getHeight l) (getHeight r); n = getHeight (removeFixup (Node k v h l r))
     in (if \<bar>getHeight l - getHeight r\<bar> \<le> 1 then n = m + 1 else n = m \<or> n = m + 1))"
proof -
  consider "getHeight l = getHeight r + 2" "0 \<le> getBalance l"
    | "getHeight l = getHeight r + 2" "getBalance l < 0"
    | "getHeight r = getHeight l + 2" "getBalance r \<le> 0"
    | "getHeight r = getHeight l + 2" "0 < getBalance r"
    | "\<bar>getHeight l - getHeight r\<bar> \<le> 1" using assms(3) by linarith
  then show ?thesis
  proof cases
    case 1
    then show ?thesis using rotate_LL[OF assms(1,2) 1] by (auto simp: removeFixup_def Let_def)
  next
    case 2
    then show ?thesis using rotate_LR[OF assms(1,2) 2] by (auto simp: removeFixup_def Let_def)
  next
    case 3
    then show ?thesis using rotate_RR[OF assms(1,2) 3] by (auto simp: removeFixup_def Let_def)
  next
    case 4
    then show ?thesis using rotate_RL[OF assms(1,2) 4] by (auto simp: removeFixup_def Let_def)
  next
    case 5
    then show ?thesis using assms(1,2) by (auto simp: removeFixup_def Let_def)
  qed
qed

definition shrunk :: "int \<Rightarrow> int \<Rightarrow> bool" where
  "shrunk n m = (n = m \<or> n = m - 1)"

lemma removeFixup_shrunk:
  assumes "balanced (Node nk nv nh l r)" "balanced l'" "balanced r'"
    and "shrunk (getHeight l') (getHeight l) \<and> r' = r \<or> shrunk (getHeight r') (getHeight r) \<and> l' = l"
  shows "balanced (removeFixup (Node k v h l' r')) \<and>
    shrunk (getHeight (removeFixup (Node k v h l' r'))) nh"
proof -
  have "\<bar>getHeight l' - getHeight r'\<bar> \<le> 2" using assms(1,4) by (auto simp: shrunk_def)
  from removeFixup_balanced[OF assms(2,3) this, of k v h] show ?thesis
    using assms(1,4) by (auto simp: Let_def shrunk_def split: if_splits)
qed

lemma removeNode_balanced:
  "balanced t \<Longrightarrow> balanced (fst (removeNode lt t k)) \<and>
   shrunk (getHeight (fst (removeNode lt t k))) (getHeight t)"
proof (induction t arbitrary: k)
  case Null
  then show ?case by (simp add: shrunk_def)
next
  case (Node nk nv h l r)
  have l: "balanced (fst (removeNode lt l k))" "shrunk (getHeight (fst (removeNode lt l k))) (getHeight l)"
    and r: "\<And>k. balanced (fst (removeNode lt r k))"
      "\<And>k. shrunk (getHeight (fst (removeNode lt r k))) (getHeight r)"
    using Node by auto
  have bl: "balanced l" and br: "balanced r" using Node.prems by auto
  have one: "l = Null \<or> r = Null \<Longrightarrow> balanced (if l \<noteq> Null then l else r) \<and>
      shrunk (getHeight (if l \<noteq> Null then l else r)) h"
    using Node.prems balanced_height_nonneg[OF bl] balanced_height_nonneg[OF br]
    by (auto simp: shrunk_def)
  show ?case
    using removeFixup_shrunk[OF Node.prems l(1) br] removeFixup_shrunk[OF Node.prems bl r(1)] l r one
    by (auto simp: case_prod_beta Let_def)
qed

text \<open>
  After an insertion a subtree is as high as before, or one higher; in the second case it was
  empty or leans to the side of the inserted key, which is what the comparisons of the source
  look at.
\<close>

definition grown ::
  "('k \<Rightarrow> 'k \<Rightarrow> bool) \<Rightarrow> 'k \<Rightarrow> ('k, 'v) avl \<Rightarrow> ('k, 'v) avl \<Rightarrow> bool" where
  "grown lt k t t' = (getHeight t' = getHeight t \<or>
     getHeight t' = getHeight t + 1 \<and>
       (t = Null \<or> lt k (nkey t') \<and> getBalance t' = 1 \<or> lt (nkey t') k \<and> getBalance t' = -1))"

lemma insertFixup_idle:
  "\<bar>getHeight l - getHeight r\<bar> \<le> 1 \<Longrightarrow>
   insertFixup lt k (Node nk nv h l r) = Node nk nv (1 + max (getHeight l) (getHeight r)) l r"
  by (auto simp: insertFixup_def Let_def)

context strict_weak_order
begin

lemma insertFixup_left:
  assumes "balanced (Node nk nv h l r)" "balanced l'" "grown lt k l l'" "lt k nk"
    and "ok k" "l' \<noteq> Null \<Longrightarrow> ok (nkey l')"
  shows "balanced (insertFixup lt k (Node nk nv h l' r)) \<and>
    grown lt k (Node nk nv h l r) (insertFixup lt k (Node nk nv h l' r))"
proof (cases "getHeight l' = getHeight r + 2")
  case True
  have r: "balanced r" "0 \<le> getHeight r" using assms(1) balanced_height_nonneg by auto
  have "l' \<noteq> Null" using True r(2) by auto
  then have ok: "ok (nkey l')" by (rule assms(6))
  have lean: "lt k (nkey l') \<and> getBalance l' = 1 \<or> lt (nkey l') k \<and> getBalance l' = -1"
    using assms(1,3) True r(2) by (auto simp: grown_def)
  then show ?thesis
  proof
    assume a: "lt k (nkey l') \<and> getBalance l' = 1"
    then show ?thesis using rotate_LL[OF assms(2) r(1) True, of nk nv] True assms(1,3)
      by (auto simp: insertFixup_def Let_def grown_def)
  next
    assume a: "lt (nkey l') k \<and> getBalance l' = -1"
    then have "\<not> lt k (nkey l')" using asym[of "nkey l'" k] ok assms(5) by simp
    then show ?thesis using a rotate_LR[OF assms(2) r(1) True, of nk nv] True assms(1,3)
      by (auto simp: insertFixup_def Let_def grown_def)
  qed
next
  case False
  then have idle: "\<bar>getHeight l' - getHeight r\<bar> \<le> 1" using assms(1,3) by (auto simp: grown_def)
  show ?thesis using assms(1-4) idle by (auto simp: insertFixup_idle[OF idle] grown_def)
qed

lemma insertFixup_right:
  assumes "balanced (Node nk nv h l r)" "balanced r'" "grown lt k r r'" "\<not> lt k nk" "lt nk k"
    and "ok k" "r' \<noteq> Null \<Longrightarrow> ok (nkey r')"
  shows "balanced (insertFixup lt k (Node nk nv h l r')) \<and>
    grown lt k (Node nk nv h l r) (insertFixup lt k (Node nk nv h l r'))"
proof (cases "getHeight r' = getHeight l + 2")
  case True
  have l: "balanced l" "0 \<le> getHeight l" using assms(1) balanced_height_nonneg by auto
  have "r' \<noteq> Null" using True l(2) by auto
  then have ok: "ok (nkey r')" by (rule assms(7))
  have lean: "lt k (nkey r') \<and> getBalance r' = 1 \<or> lt (nkey r') k \<and> getBalance r' = -1"
    using assms(1,3) True l(2) by (auto simp: grown_def)
  then show ?thesis
  proof
    assume a: "lt (nkey r') k \<and> getBalance r' = -1"
    then show ?thesis using rotate_RR[OF l(1) assms(2) True, of nk nv] True assms(1,3)
      by (auto simp: insertFixup_def Let_def grown_def)
  next
    assume a: "lt k (nkey r') \<and> getBalance r' = 1"
    then have "\<not> lt (nkey r') k" using asym[of k "nkey r'"] ok assms(6) by simp
    then show ?thesis using a rotate_RL[OF l(1) assms(2) True, of nk nv] True assms(1,3)
      by (auto simp: insertFixup_def Let_def grown_def)
  qed
next
  case False
  then have idle: "\<bar>getHeight l - getHeight r'\<bar> \<le> 1" using assms(1,3) by (auto simp: grown_def)
  show ?thesis using assms(1-5) idle by (auto simp: insertFixup_idle[OF idle] grown_def)
qed

lemma root_in_contents: "t \<noteq> Null \<Longrightarrow> (nkey t, nvalue t) \<in> set (contents t)"
  by (cases t) auto

lemma set_ins_list: "set (ins_list lt k v ps) \<subseteq> insert (k, v) (set ps \<union> {(a, v) |a. a \<in> fst ` set ps})"
  by (induction lt k v ps rule: ins_list.induct) auto

lemma ok_ins_list: "\<forall>p \<in> set ps. ok (fst p) \<Longrightarrow> ok k \<Longrightarrow> \<forall>p \<in> set (ins_list lt k v ps). ok (fst p)"
  using set_ins_list[of k v ps] by fastforce

lemma insertNode_balanced:
  "balanced t \<Longrightarrow> in_order lt (contents t) \<Longrightarrow> \<forall>p \<in> set (contents t). ok (fst p) \<Longrightarrow> ok k \<Longrightarrow>
   balanced (fst (insertNode lt t k v)) \<and> grown lt k t (fst (insertNode lt t k v))"
proof (induction t)
  case Null
  then show ?case by (simp add: grown_def)
next
  case (Node nk nv h l r)
  have okr: "ok (nkey t')" if "contents t' = ins_list lt k v (contents s)" "t' \<noteq> Null"
      "\<forall>p \<in> set (contents s). ok (fst p)" for t' s
    using ok_ins_list[OF that(3) Node.prems(4)] root_in_contents[OF that(2)] that(1) by fastforce
  have l: "balanced (fst (insertNode lt l k v)) \<and> grown lt k l (fst (insertNode lt l k v))"
      "contents (fst (insertNode lt l k v)) = ins_list lt k v (contents l)"
    and r: "balanced (fst (insertNode lt r k v)) \<and> grown lt k r (fst (insertNode lt r k v))"
      "contents (fst (insertNode lt r k v)) = ins_list lt k v (contents r)"
    using Node by (auto simp: contents_insertNode)
  consider (left) "lt k nk" | (right) "\<not> lt k nk" "lt nk k" | (same) "\<not> lt k nk" "\<not> lt nk k" by blast
  then show ?case
  proof cases
    case left
    then show ?thesis
      using insertFixup_left[OF Node.prems(1) _ _ left Node.prems(4)] l okr[OF l(2)] Node.prems(3)
      by (simp add: case_prod_beta)
  next
    case right
    then show ?thesis
      using insertFixup_right[OF Node.prems(1) _ _ right Node.prems(4)] r okr[OF r(2)] Node.prems(3)
      by (simp add: case_prod_beta)
  next
    case same
    then show ?thesis using Node.prems(1) by (simp add: grown_def)
  qed
qed

section \<open>Sorted lists under insertion and deletion\<close>

lemma in_order_ins_list:
  "in_order lt ps \<Longrightarrow> \<forall>p \<in> set ps. ok (fst p) \<Longrightarrow> ok k \<Longrightarrow> in_order lt (ins_list lt k v ps)"
proof (induction ps)
  case Nil
  then show ?case by simp
next
  case (Cons p ps)
  obtain a b where p: "p = (a, b)" by force
  have less: "lt a (fst q)" if "q \<in> set (ins_list lt k v ps)" "lt a k" for q
  proof -
    have "fst q = k \<or> fst q \<in> fst ` set ps" using that(1) set_ins_list[of k v ps] by force
    then show ?thesis using that(2) Cons.prems(1) p by auto
  qed
  have before: "lt k (fst q)" if "q \<in> set ps" "lt k a" for q
    using that Cons.prems p trans[of k a "fst q"] by auto
  show ?case using Cons p less before by auto
qed

lemma del_list_filter:
  "in_order lt ps \<Longrightarrow> \<forall>p \<in> set ps. ok (fst p) \<Longrightarrow> ok k \<Longrightarrow>
   del_list lt k ps = filter (\<lambda>p. \<not> same_key lt k (fst p)) ps"
proof (induction ps)
  case Nil
  then show ?case by simp
next
  case (Cons p ps)
  obtain a b where p: "p = (a, b)" by force
  have after: "\<not> same_key lt k (fst q)" if "q \<in> set ps" "\<not> lt a k" for q
    using that Cons.prems p le_less[of k a "fst q"] by (auto simp: same_key_def)
  then have rest: "filter (\<lambda>p. \<not> same_key lt k (fst p)) ps = ps" if "\<not> lt a k"
    using that by (auto simp: filter_id_conv)
  show ?case using Cons p rest asym[of k a] by (auto simp: same_key_def)
qed

lemma same_key_trans:
  "ok a \<Longrightarrow> ok b \<Longrightarrow> ok c \<Longrightarrow> same_key lt a b \<Longrightarrow> same_key lt b c \<Longrightarrow> same_key lt a c"
  using incomparable[of a b c] incomparable[of c b a] by (auto simp: same_key_def)

lemma same_key_sym: "same_key lt a b \<longleftrightarrow> same_key lt b a"
  by (auto simp: same_key_def)

lemma same_key_refl: "ok a \<Longrightarrow> same_key lt a a"
  using irrefl[of a] by (simp add: same_key_def)

lemma no_key_before:
  "\<forall>q \<in> set ps. lt a (fst q) \<and> ok (fst q) \<Longrightarrow> ok a \<Longrightarrow> ok k \<Longrightarrow> \<not> lt a k \<Longrightarrow> \<not> has_key lt k ps"
  using le_less[of k a] by (fastforce simp: has_key_def same_key_def)

lemma length_ins_list:
  "in_order lt ps \<Longrightarrow> \<forall>p \<in> set ps. ok (fst p) \<Longrightarrow> ok k \<Longrightarrow>
   length (ins_list lt k v ps) = length ps + (if has_key lt k ps then 0 else 1)"
proof (induction ps)
  case Nil
  then show ?case by (simp add: has_key_def)
next
  case (Cons p ps)
  obtain a b where p: "p = (a, b)" by force
  have key: "has_key lt k (p # ps) \<longleftrightarrow> same_key lt k a \<or> has_key lt k ps"
    by (simp add: has_key_def p)
  have "\<not> has_key lt k ps" if "\<not> lt a k"
    using that Cons.prems p no_key_before[of ps a k] by auto
  then show ?case using Cons p key asym[of k a] by (auto simp: same_key_def)
qed

lemma set_ins_list_new:
  "\<not> has_key lt k ps \<Longrightarrow> set (ins_list lt k v ps) = insert (k, v) (set ps)"
  by (induction lt k v ps rule: ins_list.induct) (auto simp: has_key_def same_key_def)

lemma has_key_filter:
  "has_key lt k ps \<longleftrightarrow> filter (\<lambda>p. \<not> same_key lt k (fst p)) ps \<noteq> ps"
  by (auto simp: has_key_def filter_id_conv)

end

text \<open>Looking a key up in a list of entries: the value of the first equivalent key.\<close>

definition lookup_list :: "('k \<Rightarrow> 'k \<Rightarrow> bool) \<Rightarrow> 'k \<Rightarrow> ('k \<times> 'v) list \<Rightarrow> 'v option" where
  "lookup_list lt k ps = map_option snd (find (\<lambda>p. same_key lt k (fst p)) ps)"

lemma lookup_list_simps [simp]:
  "lookup_list lt k [] = None"
  "lookup_list lt k (p # ps) = (if same_key lt k (fst p) then Some (snd p) else lookup_list lt k ps)"
  by (simp_all add: lookup_list_def)

lemma lookup_list_append:
  "lookup_list lt k (ps @ qs) =
     (case lookup_list lt k ps of Some v \<Rightarrow> Some v | None \<Rightarrow> lookup_list lt k qs)"
  by (induction ps) auto

lemma lookup_list_None: "lookup_list lt k ps = None \<longleftrightarrow> \<not> has_key lt k ps"
  by (induction ps) (auto simp: has_key_def)

lemma lookup_list_filter:
  "(\<And>p. p \<in> set ps \<Longrightarrow> P p \<longleftrightarrow> \<not> same_key lt k (fst p)) \<Longrightarrow>
   (\<And>p. p \<in> set ps \<Longrightarrow> same_key lt k' (fst p) \<Longrightarrow> same_key lt k (fst p) \<longleftrightarrow> s) \<Longrightarrow>
   lookup_list lt k' (filter P ps) = (if s then None else lookup_list lt k' ps)"
  by (induction ps) auto

lemma length_filter_id: "length (filter P xs) = length xs \<longleftrightarrow> filter P xs = xs"
  by (auto simp: filter_id_conv) (metis length_filter_less less_irrefl)

lemma length_insertNode:
  "length (contents (fst (insertNode lt t k v))) =
     length (contents t) + (if snd (insertNode lt t k v) then 1 else 0)"
  by (induction t) (auto simp: case_prod_beta Let_def)

lemma length_removeNode:
  "length (contents (fst (removeNode lt t k))) + (if snd (removeNode lt t k) then 1 else 0) =
     length (contents t)"
proof (induction t arbitrary: k)
  case (Node nk nv h l r)
  show ?case using Node(1)[of k] Node(2)[of k] Node(2)[of "nkey (findMin r)"]
    by (cases "l = Null"; cases "r = Null") (auto simp: case_prod_beta Let_def)
qed simp

text \<open>The invariant of the tree object.\<close>

definition avl_wf :: "('k \<Rightarrow> 'k \<Rightarrow> bool) \<Rightarrow> ('k \<Rightarrow> bool) \<Rightarrow> ('k, 'v) avl_tree \<Rightarrow> bool" where
  "avl_wf lt ok t =
     (balanced (avl_root t) \<and> in_order lt (avl_inorder t) \<and>
      (\<forall>p \<in> set (avl_inorder t). ok (fst p)) \<and> avl_size t = length (avl_inorder t))"

lemma avl_inorder_contents: "avl_inorder t = contents (avl_root t)"
  by (simp add: avl_inorder_def inorderTraversal_contents)

context strict_weak_order
begin

lemma lookup_ins_list:
  "in_order lt ps \<Longrightarrow> \<forall>p \<in> set ps. ok (fst p) \<Longrightarrow> ok k \<Longrightarrow> ok k' \<Longrightarrow>
   lookup_list lt k' (ins_list lt k v ps) =
     (if same_key lt k' k then Some v else lookup_list lt k' ps)"
proof (induction ps)
  case Nil
  then show ?case by simp
next
  case (Cons p ps)
  obtain a b where p: "p = (a, b)" by force
  have eqs: "same_key lt k' k \<longleftrightarrow> same_key lt k' a" if "same_key lt k a"
    using that Cons.prems p same_key_trans[of k' k a] same_key_trans[of k' a k] same_key_sym by auto
  have "\<not> (same_key lt k' k \<and> same_key lt k' a)" if "lt k a \<or> lt a k"
    using that Cons.prems p same_key_trans[of k k' a] same_key_sym[of k' k] by (auto simp: same_key_def)
  then show ?case using Cons p eqs by (auto simp: same_key_def)
qed

lemma in_order_del_list:
  "in_order lt ps \<Longrightarrow> \<forall>p \<in> set ps. ok (fst p) \<Longrightarrow> ok k \<Longrightarrow> in_order lt (del_list lt k ps)"
  by (simp add: del_list_filter in_order_def sorted_wrt_filter)

lemma lookup_del_list:
  "in_order lt ps \<Longrightarrow> \<forall>p \<in> set ps. ok (fst p) \<Longrightarrow> ok k \<Longrightarrow> ok k' \<Longrightarrow>
   lookup_list lt k' (del_list lt k ps) = (if same_key lt k' k then None else lookup_list lt k' ps)"
  unfolding del_list_filter
proof (rule lookup_list_filter)
  fix p assume "\<forall>p \<in> set ps. ok (fst p)" "ok k" "ok k'" "p \<in> set ps" "same_key lt k' (fst p)"
  then show "same_key lt k (fst p) \<longleftrightarrow> same_key lt k' k"
    using same_key_trans[of k k' "fst p"] same_key_trans[of k' "fst p" k] same_key_sym by auto
qed simp

lemma findNode_lookup:
  "in_order lt (contents t) \<Longrightarrow> \<forall>p \<in> set (contents t). ok (fst p) \<Longrightarrow> ok k \<Longrightarrow>
   (findNode lt t k = Null \<longleftrightarrow> lookup_list lt k (contents t) = None) \<and>
   (findNode lt t k \<noteq> Null \<longrightarrow> lookup_list lt k (contents t) = Some (nvalue (findNode lt t k)))"
proof (induction t)
  case Null
  then show ?case by simp
next
  case (Node nk nv h l r)
  have right: "lookup_list lt k (contents r) = None" if "lt k nk"
    using that Node.prems no_key_before[of "contents r" nk k] asym[of k nk]
    by (simp add: lookup_list_None)
  have left: "lookup_list lt k (contents l) = None" if "\<not> lt k nk"
  proof -
    have "\<not> same_key lt k (fst p)" if "p \<in> set (contents l)" for p
      using that \<open>\<not> lt k nk\<close> Node.prems less_le[of "fst p" nk k] by (auto simp: same_key_def)
    then show ?thesis by (auto simp: lookup_list_None has_key_def)
  qed
  show ?case using Node left right by (auto simp: lookup_list_append same_key_def split: option.splits)
qed

lemma range_filter:
  "in_order lt (contents t) \<Longrightarrow> \<forall>p \<in> set (contents t). ok (fst p) \<Longrightarrow> ok from \<Longrightarrow> ok to \<Longrightarrow>
   rangeQuery lt t from to result =
     result @ filter (\<lambda>p. \<not> lt (fst p) from \<and> \<not> lt to (fst p)) (contents t)"
proof (induction t arbitrary: result)
  case Null
  then show ?case by simp
next
  case (Node nk nv h l r)
  have left: "filter (\<lambda>p. \<not> lt (fst p) from \<and> \<not> lt to (fst p)) (contents l) = []" if "lt nk from"
    using that Node.prems trans[of _ nk "from"] by (auto simp: filter_empty_conv)
  have right: "filter (\<lambda>p. \<not> lt (fst p) from \<and> \<not> lt to (fst p)) (contents r) = []" if "lt to nk"
    using that Node.prems trans[of to nk] by (auto simp: filter_empty_conv)
  show ?case using Node left right by auto
qed

lemma rank_count:
  "in_order lt (contents t) \<Longrightarrow> \<forall>p \<in> set (contents t). ok (fst p) \<Longrightarrow> ok k \<Longrightarrow>
   getRank lt t k = (if has_key lt k (contents t)
     then int (length (filter (\<lambda>p. lt (fst p) k) (contents t))) else -1)"
proof (induction t)
  case Null
  then show ?case by (simp add: has_key_def)
next
  case (Node nk nv h l r)
  have key: "has_key lt k (contents (Node nk nv h l r)) \<longleftrightarrow>
      has_key lt k (contents l) \<or> same_key lt k nk \<or> has_key lt k (contents r)"
    by (auto simp: has_key_def)
  have right: "\<not> has_key lt k (contents r) \<and> filter (\<lambda>p. lt (fst p) k) (contents r) = []"
    if "\<not> lt nk k"
  proof -
    have "lt k (fst q) \<and> \<not> lt (fst q) k" if "q \<in> set (contents r)" for q
      using that \<open>\<not> lt nk k\<close> Node.prems le_less[of k nk "fst q"] asym[of k "fst q"] by auto
    then show ?thesis by (auto simp: has_key_def same_key_def filter_empty_conv)
  qed
  have left: "\<not> has_key lt k (contents l) \<and> filter (\<lambda>p. lt (fst p) k) (contents l) = contents l"
    if "\<not> lt k nk"
  proof -
    have "lt (fst q) k" if "q \<in> set (contents l)" for q
      using that \<open>\<not> lt k nk\<close> Node.prems less_le[of "fst q" nk k] by auto
    then show ?thesis by (auto simp: has_key_def same_key_def filter_id_conv)
  qed
  show ?case using Node left right key asym[of k nk]
    by (auto simp: same_key_def getSubtreeSize_contents Let_def)
qed

text \<open>The operations of the tree object.\<close>

lemma avl_empty_wf: "avl_wf lt ok avl_empty"
  by (simp add: avl_wf_def avl_empty_def avl_inorder_contents)

lemma avl_find_lookup:
  "avl_wf lt ok t \<Longrightarrow> ok k \<Longrightarrow> avl_find lt t k = lookup_list lt k (avl_inorder t)"
  using findNode_lookup[of "avl_root t" k]
  by (auto simp: avl_find_def avl_wf_def avl_inorder_contents Let_def)

lemma avl_contains_key:
  "avl_wf lt ok t \<Longrightarrow> ok k \<Longrightarrow> avl_contains lt t k \<longleftrightarrow> has_key lt k (avl_inorder t)"
  using findNode_lookup[of "avl_root t" k]
  by (auto simp: avl_contains_def avl_wf_def avl_inorder_contents lookup_list_None)

lemma avl_insert_inorder:
  "avl_wf lt ok t \<Longrightarrow> ok k \<Longrightarrow>
   avl_inorder (fst (avl_insert lt t k v)) = ins_list lt k v (avl_inorder t)"
  by (simp add: avl_wf_def avl_insert_def avl_inorder_contents case_prod_beta contents_insertNode)

lemma avl_insert_flag:
  assumes "avl_wf lt ok t" "ok k"
  shows "snd (avl_insert lt t k v) \<longleftrightarrow> \<not> has_key lt k (avl_inorder t)"
proof -
  have t: "in_order lt (contents (avl_root t))" "\<forall>p \<in> set (contents (avl_root t)). ok (fst p)"
    using assms(1) by (auto simp: avl_wf_def avl_inorder_contents)
  show ?thesis
    using length_insertNode[of lt "avl_root t" k v] contents_insertNode[OF t assms(2)]
      length_ins_list[OF t assms(2)]
    by (auto simp: avl_insert_def avl_inorder_contents case_prod_beta split: if_splits)
qed

lemma avl_insert_wf: "avl_wf lt ok t \<Longrightarrow> ok k \<Longrightarrow> avl_wf lt ok (fst (avl_insert lt t k v))"
  using insertNode_balanced[of "avl_root t" k v] length_insertNode[of lt "avl_root t" k v]
    contents_insertNode[of "avl_root t" k v] in_order_ins_list[of "contents (avl_root t)" k v]
    ok_ins_list[of "contents (avl_root t)" k v]
  by (simp add: avl_wf_def avl_insert_def avl_inorder_contents case_prod_beta)

lemma avl_remove_inorder:
  "avl_wf lt ok t \<Longrightarrow> ok k \<Longrightarrow>
   avl_inorder (fst (avl_remove lt t k)) = filter (\<lambda>p. \<not> same_key lt k (fst p)) (avl_inorder t)"
  by (simp add: avl_wf_def avl_remove_def avl_inorder_contents case_prod_beta contents_removeNode
      del_list_filter)

lemma avl_remove_flag:
  assumes "avl_wf lt ok t" "ok k"
  shows "snd (avl_remove lt t k) \<longleftrightarrow> has_key lt k (avl_inorder t)"
proof -
  have t: "in_order lt (contents (avl_root t))" "\<forall>p \<in> set (contents (avl_root t)). ok (fst p)"
    using assms(1) by (auto simp: avl_wf_def avl_inorder_contents)
  have "snd (avl_remove lt t k) \<longleftrightarrow>
      length (filter (\<lambda>p. \<not> same_key lt k (fst p)) (contents (avl_root t))) \<noteq> length (contents (avl_root t))"
    using length_removeNode[of lt "avl_root t" k] contents_removeNode[OF t assms(2)]
      del_list_filter[OF t assms(2)]
    by (auto simp: avl_remove_def case_prod_beta split: if_splits)
  then show ?thesis
    by (simp add: avl_inorder_contents has_key_filter length_filter_id)
qed

lemma avl_remove_wf: "avl_wf lt ok t \<Longrightarrow> ok k \<Longrightarrow> avl_wf lt ok (fst (avl_remove lt t k))"
  using removeNode_balanced[of "avl_root t" lt k] length_removeNode[of lt "avl_root t" k]
    contents_removeNode[of "avl_root t" k] in_order_del_list[of "contents (avl_root t)" k]
    del_list_filter[of "contents (avl_root t)" k]
  by (auto simp: avl_wf_def avl_remove_def avl_inorder_contents case_prod_beta split: if_splits)

lemma avl_range_filter:
  "avl_wf lt ok t \<Longrightarrow> ok from \<Longrightarrow> ok to \<Longrightarrow>
   avl_range lt t from to =
     filter (\<lambda>p. \<not> lt (fst p) from \<and> \<not> lt to (fst p)) (avl_inorder t)"
  by (simp add: avl_wf_def avl_range_def avl_inorder_contents range_filter)

lemma avl_rank_count:
  "avl_wf lt ok t \<Longrightarrow> ok k \<Longrightarrow>
   avl_rank lt t k = (if has_key lt k (avl_inorder t)
     then int (length (filter (\<lambda>p. lt (fst p) k) (avl_inorder t))) else -1)"
  by (simp add: avl_wf_def avl_rank_def avl_inorder_contents rank_count)

lemma avl_clear_wf: "avl_wf lt ok (avl_clear t)"
  by (simp add: avl_wf_def avl_clear_def avl_inorder_contents)

lemma position_of_key:
  assumes "in_order lt ps" "\<forall>p \<in> set ps. ok (fst p)" "ok k" "has_key lt k ps"
  defines "i \<equiv> length (filter (\<lambda>p. lt (fst p) k) ps)"
  shows "i < length ps \<and> same_key lt k (fst (ps ! i))"
proof -
  obtain p where p: "p \<in> set ps" "same_key lt k (fst p)" using assms(4) by (auto simp: has_key_def)
  obtain xs ys where split: "ps = xs @ p # ys" using split_list[OF p(1)] by blast
  have "lt (fst q) k" if "q \<in> set xs" for q
    using that assms(1-3) p(2) split less_le[of "fst q" "fst p" k] by (auto simp: same_key_def)
  then have xs: "filter (\<lambda>p. lt (fst p) k) xs = xs" by (auto simp: filter_id_conv)
  have "\<not> lt (fst q) k" if "q \<in> set ys" for q
    using that assms(1-3) p(2) split le_less[of k "fst p" "fst q"] asym[of k "fst q"]
    by (auto simp: same_key_def)
  then have "filter (\<lambda>p. lt (fst p) k) ys = []" by (auto simp: filter_empty_conv)
  then have "i = length xs" using xs p(2) split by (auto simp: i_def same_key_def)
  then show ?thesis using split p(2) by simp
qed

end

section \<open>Height\<close>

lemma height_le_contents: "balanced t \<Longrightarrow> 2 ^ (nat (getHeight t) div 2) \<le> length (contents t) + 1"
proof (induction t)
  case Null
  then show ?case by simp
next
  case (Node nk nv h l r)
  have nonneg: "0 \<le> getHeight l" "0 \<le> getHeight r"
    using Node.prems balanced_height_nonneg by auto
  have child: "2 ^ (nat (h - 2) div 2) \<le> length (contents c) + 1"
    if "h - 2 \<le> getHeight c" "2 ^ (nat (getHeight c) div 2) \<le> length (contents c) + 1"
    for c :: "('a, 'b) avl"
  proof -
    have "(2::nat) ^ (nat (h - 2) div 2) \<le> 2 ^ (nat (getHeight c) div 2)"
      using that(1) by (intro power_increasing div_le_mono nat_mono) auto
    then show ?thesis using that(2) by linarith
  qed
  show ?case
  proof (cases "h \<le> 1")
    case True
    then have "nat h div 2 = 0" by simp
    then show ?thesis by simp
  next
    case False
    have "nat h div 2 = Suc (nat (h - 2) div 2)"
      using False by (simp add: nat_diff_distrib)
    moreover have "h - 2 \<le> getHeight l" "h - 2 \<le> getHeight r" using Node.prems by auto
    ultimately show ?thesis using child[of l] child[of r] Node by simp
  qed
qed

section \<open>Properties of the tree\<close>

text \<open>
  C9: Under a comparator that is a strict weak order, \<^verbatim>\<open>AVLTree::insert\<close> keeps the tree
  ordered, balanced and of the recorded size, binds the key to the value and leaves every other
  key alone, and returns true exactly for a new key.
\<close>

theorem avl_insert_correct:
  assumes "strict_weak_order lt ok" "avl_wf lt ok t" "ok k"
  shows "avl_wf lt ok (fst (avl_insert lt t k v)) \<and>
    (snd (avl_insert lt t k v) \<longleftrightarrow> \<not> avl_contains lt t k) \<and>
    avl_size (fst (avl_insert lt t k v)) = avl_size t + (if avl_contains lt t k then 0 else 1) \<and>
    (\<forall>k'. ok k' \<longrightarrow> avl_find lt (fst (avl_insert lt t k v)) k' =
       (if same_key lt k' k then Some v else avl_find lt t k'))"
proof (intro conjI allI impI)
  show wf: "avl_wf lt ok (fst (avl_insert lt t k v))"
    using assms by (rule strict_weak_order.avl_insert_wf)
  show flag: "snd (avl_insert lt t k v) \<longleftrightarrow> \<not> avl_contains lt t k"
    using assms by (simp add: strict_weak_order.avl_insert_flag strict_weak_order.avl_contains_key)
  show "avl_size (fst (avl_insert lt t k v)) = avl_size t + (if avl_contains lt t k then 0 else 1)"
    using flag by (auto simp: avl_insert_def case_prod_beta)
  fix k' assume "ok k'"
  then show "avl_find lt (fst (avl_insert lt t k v)) k' =
      (if same_key lt k' k then Some v else avl_find lt t k')"
    using assms wf strict_weak_order.lookup_ins_list[OF assms(1), of "avl_inorder t" k k' v]
    by (simp add: strict_weak_order.avl_find_lookup strict_weak_order.avl_insert_inorder)
       (simp add: avl_wf_def)
qed

text \<open>
  C10: \<^verbatim>\<open>AVLTree::remove\<close> keeps the tree ordered, balanced and of the recorded size, removes
  the key and nothing else, and returns true exactly when the key was there.
\<close>

theorem avl_remove_correct:
  assumes "strict_weak_order lt ok" "avl_wf lt ok t" "ok k"
  shows "avl_wf lt ok (fst (avl_remove lt t k)) \<and>
    (snd (avl_remove lt t k) \<longleftrightarrow> avl_contains lt t k) \<and>
    avl_size (fst (avl_remove lt t k)) = avl_size t - (if avl_contains lt t k then 1 else 0) \<and>
    (\<forall>k'. ok k' \<longrightarrow> avl_find lt (fst (avl_remove lt t k)) k' =
       (if same_key lt k' k then None else avl_find lt t k'))"
proof (intro conjI allI impI)
  show wf: "avl_wf lt ok (fst (avl_remove lt t k))"
    using assms by (rule strict_weak_order.avl_remove_wf)
  show flag: "snd (avl_remove lt t k) \<longleftrightarrow> avl_contains lt t k"
    using assms by (simp add: strict_weak_order.avl_remove_flag strict_weak_order.avl_contains_key)
  show "avl_size (fst (avl_remove lt t k)) = avl_size t - (if avl_contains lt t k then 1 else 0)"
    using flag by (auto simp: avl_remove_def case_prod_beta)
  have ord: "in_order lt (avl_inorder t)" "\<forall>p \<in> set (avl_inorder t). ok (fst p)"
    using assms(2) by (auto simp: avl_wf_def)
  fix k' assume "ok k'"
  then show "avl_find lt (fst (avl_remove lt t k)) k' =
      (if same_key lt k' k then None else avl_find lt t k')"
    using assms wf strict_weak_order.lookup_del_list[OF assms(1) ord assms(3), of k']
      strict_weak_order.del_list_filter[OF assms(1) ord assms(3)]
    by (simp add: strict_weak_order.avl_find_lookup strict_weak_order.avl_remove_inorder)
qed

text \<open>
  \<^verbatim>\<open>AVLTree::rank\<close> is the 0-based position of the key in the sorted order, -1 for a
  key that is not stored.
\<close>

theorem avl_rank_correct:
  assumes "strict_weak_order lt ok" "avl_wf lt ok t" "ok k"
  shows "if avl_contains lt t k
    then 0 \<le> avl_rank lt t k \<and> nat (avl_rank lt t k) < avl_size t \<and>
      same_key lt k (fst (avl_inorder t ! nat (avl_rank lt t k)))
    else avl_rank lt t k = -1"
  using assms strict_weak_order.position_of_key[OF assms(1), of "avl_inorder t" k]
  by (simp add: strict_weak_order.avl_rank_count strict_weak_order.avl_contains_key)
     (simp add: avl_wf_def)

text \<open>
  \<^verbatim>\<open>AVLTree::range\<close>, which visits only the subtrees that can hold keys of the interval,
  returns the entries of the interval in sorted order and no other.
\<close>

theorem avl_range_correct:
  assumes "strict_weak_order lt ok" "avl_wf lt ok t" "ok from" "ok to"
  shows "avl_range lt t from to =
      filter (\<lambda>p. \<not> lt (fst p) from \<and> \<not> lt to (fst p)) (avl_inorder t) \<and>
    sorted_wrt (\<lambda>p q. lt (fst p) (fst q)) (avl_range lt t from to)"
  using assms
  by (simp add: strict_weak_order.avl_range_filter avl_wf_def in_order_def sorted_wrt_filter)

text \<open>
  The height of a balanced tree is logarithmic in the number of its entries: with n entries
  it is at most 2 log2 (n + 1) + 1.
\<close>

theorem avl_height_bound:
  assumes "avl_wf lt ok t"
  shows "2 ^ (nat (avl_height t) div 2) \<le> avl_size t + 1"
  using assms height_le_contents[of "avl_root t"]
  by (simp add: avl_wf_def avl_height_def avl_inorder_contents)

text \<open>The hypotheses hold for \<^verbatim>\<open>std::less<int>\<close> and a tree of three entries.\<close>

lemma less_int_order: "strict_weak_order ((<) :: int \<Rightarrow> int \<Rightarrow> bool) (\<lambda>_. True)"
  by unfold_locales auto

definition small_tree :: "(int, nat) avl_tree" where
  "small_tree = fst (avl_insert (<) (fst (avl_insert (<) (fst (avl_insert (<) avl_empty 1 10)) 2 20)) 3 30)"

lemma small_tree_unfold:
  "small_tree = \<lparr>avl_root = Node 2 20 2 (Node 1 10 1 Null Null) (Node 3 30 1 Null Null), avl_size = 3\<rparr>"
  by (simp add: small_tree_def avl_insert_def avl_empty_def insertFixup_def)

lemma small_tree_wf: "avl_wf (<) (\<lambda>_. True) small_tree"
  by (simp add: avl_wf_def small_tree_unfold avl_inorder_contents)

theorem avl_insert_correct_witness:
  "snd (avl_insert (<) small_tree 4 40) \<and> avl_find (<) (fst (avl_insert (<) small_tree 4 40)) 4 = Some 40"
  using avl_insert_correct[OF less_int_order small_tree_wf, of 4 40]
  by (simp add: same_key_def avl_contains_def small_tree_unfold)

theorem avl_remove_correct_witness:
  "snd (avl_remove (<) small_tree 2) \<and> avl_find (<) (fst (avl_remove (<) small_tree 2)) 2 = None"
  using avl_remove_correct[OF less_int_order small_tree_wf, of 2]
  by (simp add: same_key_def avl_contains_def small_tree_unfold)

theorem avl_rank_correct_witness: "avl_rank (<) small_tree 5 = -1"
  using avl_rank_correct[OF less_int_order small_tree_wf, of 5]
  by (simp add: avl_contains_def small_tree_unfold)

theorem avl_range_correct_witness: "avl_range (<) small_tree 2 9 = [(2, 20), (3, 30)]"
  using avl_range_correct[OF less_int_order small_tree_wf, of 2 9]
  by (simp add: avl_inorder_contents small_tree_unfold)

theorem avl_height_bound_witness: "2 ^ (nat (avl_height small_tree) div 2) \<le> (4 :: nat)"
  using avl_height_bound[OF small_tree_wf] by (simp add: small_tree_unfold)

end
