(* ===== verification/Sorted_Set.thy ===== *)
theory Sorted_Set
  imports Avl_Tree
begin

text \<open>
  \<^verbatim>\<open>SortedSet\<close> and \<^verbatim>\<open>SortedSetManager\<close> of \<^verbatim>\<open>src/src/data/sorted_set.{hpp,cpp}\<close>.
  A score is the 64-bit pattern of an IEEE double, compared the way the hardware does: by sign
  and magnitude, the two zeros equal, every comparison with a NaN false. The tree is ordered by
  \<^verbatim>\<open>SortedSetEntry::operator<\<close>, a strict weak order on the entries without a NaN; the
  interpretation below hands the theory of the tree to the sorted set. The hash map
  \<^verbatim>\<open>scores_\<close> is a map, and what the set stands for: from members to scores. Operations run
  under \<^verbatim>\<open>mutex_\<close>, one at a time.
\<close>

section \<open>Scores\<close>

type_synonym dbl = u64

definition dbl_magnitude :: "dbl \<Rightarrow> int" where
  "dbl_magnitude x = uint x mod 2 ^ 63"

definition dbl_nan :: "dbl \<Rightarrow> bool" where
  "dbl_nan x = (dbl_magnitude x > 0x7FF0000000000000)"

definition dbl_rank :: "dbl \<Rightarrow> int" where
  "dbl_rank x = (if bit x 63 then - dbl_magnitude x else dbl_magnitude x)"

definition dbl_lt :: "dbl \<Rightarrow> dbl \<Rightarrow> bool" where
  "dbl_lt x y = (\<not> dbl_nan x \<and> \<not> dbl_nan y \<and> dbl_rank x < dbl_rank y)"

definition dbl_le :: "dbl \<Rightarrow> dbl \<Rightarrow> bool" where
  "dbl_le x y = (\<not> dbl_nan x \<and> \<not> dbl_nan y \<and> dbl_rank x \<le> dbl_rank y)"

definition dbl_eq :: "dbl \<Rightarrow> dbl \<Rightarrow> bool" where
  "dbl_eq x y = (\<not> dbl_nan x \<and> \<not> dbl_nan y \<and> dbl_rank x = dbl_rank y)"

text \<open>Some bit patterns: the zeros, 1, 2 and a quiet NaN.\<close>

definition dbl_one :: dbl where "dbl_one = 0x3FF0000000000000"
definition dbl_two :: dbl where "dbl_two = 0x4000000000000000"
definition dbl_qnan :: dbl where "dbl_qnan = 0x7FF8000000000000"

section \<open>Entries\<close>

record entry =
  score :: dbl
  member :: string

lemma entry_eta [simp]: "\<lparr>score = score e, member = member e\<rparr> = e"
  by simp

definition entry_lt :: "entry \<Rightarrow> entry \<Rightarrow> bool" where
  "entry_lt a b =
     (if \<not> dbl_eq (score a) (score b) then dbl_lt (score a) (score b) else member a < member b)"

definition entry_ok :: "entry \<Rightarrow> bool" where
  "entry_ok e = (\<not> dbl_nan (score e))"

lemma entry_lt_ok:
  "entry_ok a \<Longrightarrow> entry_ok b \<Longrightarrow> entry_lt a b \<longleftrightarrow>
     dbl_rank (score a) < dbl_rank (score b) \<or>
     dbl_rank (score a) = dbl_rank (score b) \<and> member a < member b"
  by (auto simp: entry_lt_def entry_ok_def dbl_eq_def dbl_lt_def)

interpretation es: strict_weak_order entry_lt entry_ok
proof unfold_locales
  fix x y z assume "entry_ok x" "entry_ok y" "entry_ok z"
  note ok = this
  show "entry_lt x y \<Longrightarrow> entry_lt y z \<Longrightarrow> entry_lt x z"
    using ok by (auto simp: entry_lt_ok)
  show "\<not> entry_lt x y \<Longrightarrow> \<not> entry_lt y z \<Longrightarrow> \<not> entry_lt x z"
    using ok by (auto simp: entry_lt_ok)
qed (simp add: entry_lt_ok)

lemma same_entry:
  "entry_ok a \<Longrightarrow> entry_ok b \<Longrightarrow> same_key entry_lt a b \<longleftrightarrow>
     dbl_rank (score a) = dbl_rank (score b) \<and> member a = member b"
  by (auto simp: same_key_def entry_lt_ok)

section \<open>The sorted set\<close>

record sorted_set =
  ss_tree :: "(entry, bool) avl_tree"
  ss_scores :: "string \<Rightarrow> dbl option"
  ss_size :: nat

definition ss_new :: sorted_set where
  "ss_new = \<lparr>ss_tree = avl_empty, ss_scores = Map.empty, ss_size = 0\<rparr>"

definition zadd :: "sorted_set \<Rightarrow> string \<Rightarrow> dbl \<Rightarrow> sorted_set \<times> int" where
  "zadd s m sc =
     (case ss_scores s m of
        Some old_score \<Rightarrow>
          let t1 = fst (avl_remove entry_lt (ss_tree s) \<lparr>score = old_score, member = m\<rparr>);
              t2 = fst (avl_insert entry_lt t1 \<lparr>score = sc, member = m\<rparr> True)
          in (s\<lparr>ss_tree := t2, ss_scores := (ss_scores s)(m \<mapsto> sc)\<rparr>, 0)
      | None \<Rightarrow>
          let t1 = fst (avl_insert entry_lt (ss_tree s) \<lparr>score = sc, member = m\<rparr> True)
          in (s\<lparr>ss_tree := t1, ss_scores := (ss_scores s)(m \<mapsto> sc), ss_size := ss_size s + 1\<rparr>, 1))"

fun zadd_multi :: "sorted_set \<Rightarrow> (string \<times> dbl) list \<Rightarrow> sorted_set \<times> int" where
  "zadd_multi s [] = (s, 0)"
| "zadd_multi s ((m, sc) # items) =
     (let (s1, a) = zadd s m sc; (s2, added) = zadd_multi s1 items in (s2, a + added))"

definition zrem :: "sorted_set \<Rightarrow> string \<Rightarrow> sorted_set \<times> int" where
  "zrem s m =
     (case ss_scores s m of
        None \<Rightarrow> (s, 0)
      | Some sc \<Rightarrow>
          let t1 = fst (avl_remove entry_lt (ss_tree s) \<lparr>score = sc, member = m\<rparr>)
          in (s\<lparr>ss_tree := t1, ss_scores := (ss_scores s)(m := None), ss_size := ss_size s - 1\<rparr>, 1))"

fun zrem_multi :: "sorted_set \<Rightarrow> string list \<Rightarrow> sorted_set \<times> int" where
  "zrem_multi s [] = (s, 0)"
| "zrem_multi s (m # ms) =
     (let (s1, a) = zrem s m; (s2, removed) = zrem_multi s1 ms in (s2, a + removed))"

definition zscore :: "sorted_set \<Rightarrow> string \<Rightarrow> dbl option" where
  "zscore s m = ss_scores s m"

definition zrank :: "sorted_set \<Rightarrow> string \<Rightarrow> int option" where
  "zrank s m =
     (case ss_scores s m of
        None \<Rightarrow> None
      | Some sc \<Rightarrow> Some (avl_rank entry_lt (ss_tree s) \<lparr>score = sc, member = m\<rparr>))"

text \<open>\<^verbatim>\<open>static_cast<int>\<close> of a \<^verbatim>\<open>size_t\<close>.\<close>

definition int_of_size :: "nat \<Rightarrow> int" where
  "int_of_size n = sint (word_of_nat n :: u32)"

lemma int_of_size_small: "n < 2 ^ 31 \<Longrightarrow> int_of_size n = int n"
  by (simp add: int_of_size_def signed_of_nat signed_take_bit_int_eq_self)

definition zrevrank :: "sorted_set \<Rightarrow> string \<Rightarrow> int option" where
  "zrevrank s m =
     (case zrank s m of Some rank \<Rightarrow> Some (int_of_size (ss_size s) - 1 - rank) | None \<Rightarrow> None)"

definition normalize_index :: "sorted_set \<Rightarrow> int \<Rightarrow> int" where
  "normalize_index s index = (if index < 0 then int_of_size (ss_size s) + index else index)"

text \<open>One element of a result; without scores the second component is 0.0.\<close>

definition result_pair :: "bool \<Rightarrow> entry \<Rightarrow> string \<times> dbl" where
  "result_pair withScores e = (member e, if withScores then score e else 0)"

definition zrange :: "sorted_set \<Rightarrow> int \<Rightarrow> int \<Rightarrow> bool \<Rightarrow> (string \<times> dbl) list" where
  "zrange s start0 stop0 withScores =
     (if ss_size s = 0 then []
      else let start1 = normalize_index s start0;
               stop1 = normalize_index s stop0;
               start = (if start1 < 0 then 0 else start1);
               stop = (if stop1 \<ge> int_of_size (ss_size s) then int_of_size (ss_size s - 1) else stop1)
           in if start > stop then []
              else let all_entries = avl_inorder (ss_tree s)
                   in map (\<lambda>i. result_pair withScores (fst (all_entries ! nat i)))
                        (takeWhile (\<lambda>i. i < int_of_size (length all_entries)) [start..stop]))"

definition zrevrange :: "sorted_set \<Rightarrow> int \<Rightarrow> int \<Rightarrow> bool \<Rightarrow> (string \<times> dbl) list" where
  "zrevrange s start stop withScores = rev (zrange s start stop withScores)"

definition zrangebyscore :: "sorted_set \<Rightarrow> dbl \<Rightarrow> dbl \<Rightarrow> bool \<Rightarrow> (string \<times> dbl) list" where
  "zrangebyscore s lo hi withScores =
     (let min_entry = \<lparr>score = lo, member = ''''\<rparr>;
          max_entry = \<lparr>score = hi, member = [CHR 0xFF]\<rparr>;
          entries = avl_range entry_lt (ss_tree s) min_entry max_entry
      in map (\<lambda>e. result_pair withScores (fst e))
           (filter (\<lambda>e. dbl_le lo (score (fst e)) \<and> dbl_le (score (fst e)) hi) entries))"

definition zcount :: "sorted_set \<Rightarrow> dbl \<Rightarrow> dbl \<Rightarrow> nat" where
  "zcount s lo hi = length (zrangebyscore s lo hi False)"

definition zcard :: "sorted_set \<Rightarrow> nat" where
  "zcard s = ss_size s"

definition ss_clear :: "sorted_set \<Rightarrow> sorted_set" where
  "ss_clear s = s\<lparr>ss_tree := avl_clear (ss_tree s), ss_scores := Map.empty, ss_size := 0\<rparr>"

definition ss_destroy :: "sorted_set \<Rightarrow> sorted_set" where
  "ss_destroy s = ss_clear s"

section \<open>Invariant\<close>

text \<open>
  The tree is a search tree without NaN scores and holds exactly the pairs of the hash map, and
  the size is their number.
\<close>

definition ss_entries :: "sorted_set \<Rightarrow> entry list" where
  "ss_entries s = map fst (avl_inorder (ss_tree s))"

definition ss_wf :: "sorted_set \<Rightarrow> bool" where
  "ss_wf s =
     (avl_wf entry_lt entry_ok (ss_tree s) \<and>
      (\<forall>e. e \<in> set (ss_entries s) \<longleftrightarrow> ss_scores s (member e) = Some (score e)) \<and>
      ss_size s = avl_size (ss_tree s))"

lemma ss_new_wf [wf_intros]: "ss_wf ss_new"
  using es.avl_empty_wf
  by (simp add: ss_wf_def ss_new_def ss_entries_def avl_inorder_contents) (simp add: avl_empty_def)

lemma ss_clear_wf [wf_intros]: "ss_wf (ss_clear s)"
  using es.avl_clear_wf[of "ss_tree s"]
  by (simp add: ss_wf_def ss_clear_def ss_entries_def avl_inorder_contents) (simp add: avl_clear_def)

lemma ss_member_ok:
  assumes "ss_wf s" "ss_scores s (member e) = Some (score e)"
  shows "entry_ok e"
proof -
  have "e \<in> fst ` set (avl_inorder (ss_tree s))" using assms by (simp add: ss_wf_def ss_entries_def)
  then show ?thesis using assms(1) by (auto simp: ss_wf_def avl_wf_def)
qed

lemma ss_entry_ok: "ss_wf s \<Longrightarrow> ss_scores s m = Some sc \<Longrightarrow> entry_ok \<lparr>score = sc, member = m\<rparr>"
  by (rule ss_member_ok) auto

lemma ss_has_key:
  assumes "ss_wf s" "entry_ok e"
  shows "has_key entry_lt e (avl_inorder (ss_tree s)) \<longleftrightarrow>
    (\<exists>sc. ss_scores s (member e) = Some sc \<and> dbl_rank sc = dbl_rank (score e))"
    (is "?l \<longleftrightarrow> ?r")
proof
  assume ?l
  then obtain x where "x \<in> set (ss_entries s)" "same_key entry_lt e x"
    by (auto simp: has_key_def ss_entries_def)
  then show ?r
    using assms same_entry[of e x] ss_member_ok[OF assms(1), of x] by (auto simp: ss_wf_def)
next
  assume ?r
  then obtain sc where sc: "ss_scores s (member e) = Some sc" "dbl_rank sc = dbl_rank (score e)" by auto
  let ?x = "\<lparr>score = sc, member = member e\<rparr>"
  have "?x \<in> set (ss_entries s)" using assms(1) sc(1) by (simp add: ss_wf_def)
  then show ?l
    using sc same_entry[OF assms(2) ss_entry_ok[OF assms(1) sc(1)]]
    by (force simp: has_key_def ss_entries_def)
qed

lemma ss_remove:
  assumes "ss_wf s" "ss_scores s m = Some sc"
  defines "t \<equiv> fst (avl_remove entry_lt (ss_tree s) \<lparr>score = sc, member = m\<rparr>)"
  shows "avl_wf entry_lt entry_ok t \<and> avl_size t = ss_size s - 1 \<and> 0 < ss_size s \<and>
    (\<forall>e. e \<in> fst ` set (avl_inorder t) \<longleftrightarrow> ((ss_scores s)(m := None)) (member e) = Some (score e))"
proof -
  let ?e = "\<lparr>score = sc, member = m\<rparr>"
  have ok: "entry_ok ?e" and wf: "avl_wf entry_lt entry_ok (ss_tree s)"
    using ss_entry_ok[OF assms(1,2)] assms(1) by (auto simp: ss_wf_def)
  have key: "has_key entry_lt ?e (avl_inorder (ss_tree s))"
    using ss_has_key[OF assms(1) ok] assms(2) by auto
  have size: "avl_size t = ss_size s - 1" "0 < ss_size s"
    using key es.avl_remove_flag[OF wf ok] assms(1) wf
    by (auto simp: t_def avl_remove_def case_prod_beta ss_wf_def avl_wf_def has_key_def)
  have "e \<in> fst ` set (avl_inorder t) \<longleftrightarrow> ((ss_scores s)(m := None)) (member e) = Some (score e)" for e
  proof -
    have "e \<in> fst ` set (avl_inorder t) \<longleftrightarrow> e \<in> set (ss_entries s) \<and> \<not> same_key entry_lt ?e e"
      by (auto simp: t_def es.avl_remove_inorder[OF wf ok] ss_entries_def)
    also have "\<dots> \<longleftrightarrow> ss_scores s (member e) = Some (score e) \<and> member e \<noteq> m"
      using assms same_entry[OF ok, of e] ss_member_ok[OF assms(1), of e]
      by (auto simp: ss_wf_def)
    finally show ?thesis by auto
  qed
  then show ?thesis using size es.avl_remove_wf[OF wf ok] by (simp add: t_def)
qed

lemma tree_insert:
  fixes v :: bool
  assumes "avl_wf entry_lt entry_ok t" "entry_ok \<lparr>score = sc, member = m\<rparr>"
    and "\<forall>e. e \<in> fst ` set (avl_inorder t) \<longleftrightarrow> f (member e) = Some (score e)" "f m = None"
  defines "t' \<equiv> fst (avl_insert entry_lt t \<lparr>score = sc, member = m\<rparr> v)"
  shows "avl_wf entry_lt entry_ok t' \<and> avl_size t' = avl_size t + 1 \<and>
    (\<forall>e. e \<in> fst ` set (avl_inorder t') \<longleftrightarrow> (f(m \<mapsto> sc)) (member e) = Some (score e))"
proof -
  let ?e = "\<lparr>score = sc, member = m\<rparr>"
  have "\<not> same_key entry_lt ?e (fst p)" if "p \<in> set (avl_inorder t)" for p
  proof
    assume "same_key entry_lt ?e (fst p)"
    then have "member (fst p) = m" using that assms(1) same_entry[OF assms(2), of "fst p"]
      by (auto simp: avl_wf_def)
    moreover have "f (member (fst p)) = Some (score (fst p))" using that assms(3) by blast
    ultimately show False using assms(4) by simp
  qed
  then have new: "\<not> has_key entry_lt ?e (avl_inorder t)" by (auto simp: has_key_def)
  have ins: "set (avl_inorder t') = insert (?e, v) (set (avl_inorder t))"
    using es.avl_insert_inorder[OF assms(1,2)] es.set_ins_list_new[OF new] by (simp add: t'_def)
  have "e \<in> fst ` set (avl_inorder t') \<longleftrightarrow> (f(m \<mapsto> sc)) (member e) = Some (score e)" for e
  proof -
    have "e = ?e \<longleftrightarrow> score e = sc \<and> member e = m" by (metis entry.select_convs(1,2) entry_eta)
    then show ?thesis using assms(3,4) by (auto simp: ins)
  qed
  then show ?thesis
    using es.avl_insert_wf[OF assms(1,2), of v] es.avl_insert_flag[OF assms(1,2), of v] new
    by (auto simp: t'_def avl_insert_def case_prod_beta)
qed

lemma zadd_correct:
  assumes "ss_wf s" "\<not> dbl_nan sc"
  shows "ss_wf (fst (zadd s m sc)) \<and> ss_scores (fst (zadd s m sc)) = (ss_scores s)(m \<mapsto> sc) \<and>
    snd (zadd s m sc) = (if ss_scores s m = None then 1 else 0) \<and>
    ss_size (fst (zadd s m sc)) = ss_size s + (if ss_scores s m = None then 1 else 0)"
proof -
  have ok: "entry_ok \<lparr>score = sc, member = m\<rparr>" using assms(2) by (simp add: entry_ok_def)
  show ?thesis
  proof (cases "ss_scores s m")
    case None
    then show ?thesis
      using tree_insert[of "ss_tree s" sc m "ss_scores s" True] ok assms(1)
      by (simp add: zadd_def ss_wf_def ss_entries_def Let_def)
  next
    case (Some old)
    let ?t = "fst (avl_remove entry_lt (ss_tree s) \<lparr>score = old, member = m\<rparr>)"
    have "(ss_scores s)(m := None, m \<mapsto> sc) = (ss_scores s)(m \<mapsto> sc)" by auto
    then show ?thesis
      using tree_insert[of ?t sc m "(ss_scores s)(m := None)" True] ok ss_remove[OF assms(1) Some] Some
      by (auto simp: zadd_def ss_wf_def ss_entries_def Let_def)
  qed
qed

lemma zrem_correct:
  assumes "ss_wf s"
  shows "ss_wf (fst (zrem s m)) \<and> ss_scores (fst (zrem s m)) = (ss_scores s)(m := None) \<and>
    snd (zrem s m) = (if ss_scores s m = None then 0 else 1) \<and>
    ss_size (fst (zrem s m)) = ss_size s - (if ss_scores s m = None then 0 else 1)"
proof (cases "ss_scores s m")
  case None
  then show ?thesis using assms by (auto simp: zrem_def)
next
  case (Some sc)
  then show ?thesis using ss_remove[OF assms Some]
    by (simp add: zrem_def ss_wf_def ss_entries_def Let_def)
qed

lemmas zadd_wf [wf_intros] = zadd_correct[THEN conjunct1]
lemmas zrem_wf [wf_intros] = zrem_correct[THEN conjunct1]
lemmas zadd_scores [abs_simps] = zadd_correct[THEN conjunct2, THEN conjunct1]
lemmas zrem_scores [abs_simps] = zrem_correct[THEN conjunct2, THEN conjunct1]

section \<open>Queries\<close>

lemma ss_size_length: "ss_wf s \<Longrightarrow> ss_size s = length (ss_entries s)"
  by (simp add: ss_wf_def avl_wf_def ss_entries_def)

lemma ss_entries_sorted: "ss_wf s \<Longrightarrow> sorted_wrt entry_lt (ss_entries s)"
  by (simp add: ss_wf_def avl_wf_def ss_entries_def in_order_def sorted_wrt_map)

lemma ss_entries_set: "ss_wf s \<Longrightarrow> e \<in> set (ss_entries s) \<longleftrightarrow> ss_scores s (member e) = Some (score e)"
  by (simp add: ss_wf_def)

lemma ss_members_distinct:
  assumes "ss_wf s"
  shows "distinct (map member (ss_entries s))"
proof -
  have irrefl: "\<not> entry_lt e e" if "e \<in> set (ss_entries s)" for e
    using that es.irrefl[of e] ss_member_ok[OF assms] ss_entries_set[OF assms] by blast
  have "sorted_wrt entry_lt es \<Longrightarrow> \<forall>e \<in> set es. \<not> entry_lt e e \<Longrightarrow> distinct es" for es
    by (induction es) auto
  then have "distinct (ss_entries s)" using ss_entries_sorted[OF assms] irrefl by blast
  moreover have "inj_on member (set (ss_entries s))"
    by (rule inj_onI) (metis assms ss_entries_set entry_eta option.inject)
  ultimately show ?thesis by (simp add: distinct_map)
qed

lemma zrank_position:
  assumes "ss_wf s" "ss_scores s m = Some sc"
  obtains i where "zrank s m = Some (int i)" "i < ss_size s"
    "ss_entries s ! i = \<lparr>score = sc, member = m\<rparr>"
proof -
  let ?e = "\<lparr>score = sc, member = m\<rparr>"
  let ?ps = "avl_inorder (ss_tree s)"
  let ?i = "length (filter (\<lambda>p. entry_lt (fst p) ?e) ?ps)"
  have wf: "avl_wf entry_lt entry_ok (ss_tree s)" using assms(1) by (simp add: ss_wf_def)
  have ok: "entry_ok ?e" using assms by (rule ss_entry_ok)
  have key: "has_key entry_lt ?e ?ps" using assms(2) by (auto simp: ss_has_key[OF assms(1) ok])
  have pos: "?i < length ?ps" "same_key entry_lt ?e (fst (?ps ! ?i))"
    using es.position_of_key[of ?ps ?e] wf ok key by (auto simp: avl_wf_def)
  have x: "ss_entries s ! ?i \<in> set (ss_entries s)" "ss_entries s ! ?i = fst (?ps ! ?i)"
    using pos(1) by (auto simp: ss_entries_def intro!: image_eqI nth_mem)
  then have "member (ss_entries s ! ?i) = m"
    using pos(2) same_entry[OF ok] ss_member_ok[OF assms(1)] ss_entries_set[OF assms(1)] by auto
  moreover from this have "score (ss_entries s ! ?i) = sc"
    using x(1) assms ss_entries_set[OF assms(1)] by auto
  ultimately have "ss_entries s ! ?i = ?e" by (metis entry_eta)
  moreover have "zrank s m = Some (int ?i)"
    using es.avl_rank_count[OF wf ok] key assms(2) by (simp add: zrank_def)
  ultimately show ?thesis using that pos(1) wf assms(1) by (auto simp: ss_wf_def avl_wf_def)
qed

lemma map_nth_interval:
  assumes "0 \<le> a" "b < int (length xs)"
  shows "map (\<lambda>i. f (xs ! nat i)) [a..b] = map f (take (nat (b + 1 - a)) (drop (nat a) xs))"
  using assms by (intro nth_equalityI) (auto simp: nat_add_distrib)

text \<open>The slice a pair of indices stands for: negative ones count from the end.\<close>

definition from_end :: "nat \<Rightarrow> int \<Rightarrow> int" where
  "from_end n i = (if i < 0 then int n + i else i)"

definition slice :: "int \<Rightarrow> int \<Rightarrow> 'a list \<Rightarrow> 'a list" where
  "slice i j xs =
     (let a = max 0 (from_end (length xs) i); b = min (int (length xs) - 1) (from_end (length xs) j)
      in take (nat (b + 1 - a)) (drop (nat a) xs))"

lemma zrange_slice_entries:
  assumes "ss_wf s" "ss_size s < 2 ^ 31"
  shows "zrange s i j ws = map (result_pair ws) (slice i j (ss_entries s))"
proof (cases "ss_size s = 0")
  case True
  then show ?thesis using ss_size_length[OF assms(1)] by (simp add: zrange_def slice_def Let_def)
next
  case False
  let ?n = "int (length (ss_entries s))"
  let ?a = "max 0 (from_end (length (ss_entries s)) i)"
  let ?b = "min (?n - 1) (from_end (length (ss_entries s)) j)"
  have len: "ss_size s = length (ss_entries s)" "length (avl_inorder (ss_tree s)) = length (ss_entries s)"
    using ss_size_length[OF assms(1)] by (auto simp: ss_entries_def)
  have n: "int_of_size (ss_size s) = ?n" "int_of_size (ss_size s - 1) = ?n - 1"
      "int_of_size (length (avl_inorder (ss_tree s))) = ?n"
    using assms(2) False len by (auto simp: int_of_size_small length_greater_0_conv[symmetric] of_nat_diff
        simp del: length_greater_0_conv)
  have a: "(if normalize_index s i < 0 then 0 else normalize_index s i) = ?a"
    by (auto simp: normalize_index_def n from_end_def max_def)
  have b: "(if normalize_index s j \<ge> ?n then ?n - 1 else normalize_index s j) = ?b"
    by (auto simp: normalize_index_def n from_end_def min_def)
  have all: "takeWhile (\<lambda>i. i < ?n) [?a..?b] = [?a..?b]" by (simp add: takeWhile_eq_all_conv)
  have nth: "fst (avl_inorder (ss_tree s) ! nat x) = ss_entries s ! nat x" if "x \<in> set [?a..?b]" for x
    using that by (auto simp: ss_entries_def)
  have "zrange s i j ws = (if ?a > ?b then [] else map (\<lambda>x. result_pair ws (ss_entries s ! nat x)) [?a..?b])"
    using False nth by (simp only: zrange_def Let_def n a b all) (auto cong: map_cong)
  also have "\<dots> = map (result_pair ws) (take (nat (?b + 1 - ?a)) (drop (nat ?a) (ss_entries s)))"
    using map_nth_interval[of ?a ?b "ss_entries s" "result_pair ws"] by auto
  finally show ?thesis by (simp add: slice_def Let_def)
qed

lemma zrangebyscore_entries:
  assumes "ss_wf s" "\<not> dbl_nan lo" "\<not> dbl_nan hi"
  shows "zrangebyscore s lo hi ws = map (result_pair ws)
    (filter (\<lambda>e. dbl_le lo (score e) \<and> dbl_le (score e) hi \<and>
       \<not> (dbl_eq (score e) hi \<and> [CHR 0xFF] < member e)) (ss_entries s))"
proof -
  have wf: "avl_wf entry_lt entry_ok (ss_tree s)" using assms(1) by (simp add: ss_wf_def)
  have range: "avl_range entry_lt (ss_tree s) \<lparr>score = lo, member = ''''\<rparr> \<lparr>score = hi, member = [CHR 0xFF]\<rparr> =
      filter (\<lambda>p. \<not> entry_lt (fst p) \<lparr>score = lo, member = ''''\<rparr> \<and>
        \<not> entry_lt \<lparr>score = hi, member = [CHR 0xFF]\<rparr> (fst p)) (avl_inorder (ss_tree s))"
    using assms(2,3) by (intro es.avl_range_filter[OF wf]) (auto simp: entry_ok_def)
  have "filter (\<lambda>p. dbl_le lo (score (fst p)) \<and> dbl_le (score (fst p)) hi)
      (avl_range entry_lt (ss_tree s) \<lparr>score = lo, member = ''''\<rparr> \<lparr>score = hi, member = [CHR 0xFF]\<rparr>) =
    filter (\<lambda>p. dbl_le lo (score (fst p)) \<and> dbl_le (score (fst p)) hi \<and>
       \<not> (dbl_eq (score (fst p)) hi \<and> [CHR 0xFF] < member (fst p))) (avl_inorder (ss_tree s))"
    unfolding range filter_filter
    by (rule filter_cong) (auto simp: entry_lt_def dbl_le_def dbl_eq_def dbl_lt_def)
  then show ?thesis
    by (simp add: zrangebyscore_def Let_def ss_entries_def filter_map comp_def)
qed

section \<open>Several members at once\<close>

lemma zadd_multi_correct:
  "ss_wf s \<Longrightarrow> \<forall>p \<in> set items. \<not> dbl_nan (snd p) \<Longrightarrow>
   ss_wf (fst (zadd_multi s items)) \<and>
   ss_scores (fst (zadd_multi s items)) = ss_scores s ++ map_of (rev items) \<and>
   snd (zadd_multi s items) = int (card (fst ` set items - dom (ss_scores s)))"
proof (induction items arbitrary: s)
  case Nil
  then show ?case by simp
next
  case (Cons p items)
  obtain m sc where p: "p = (m, sc)" by force
  let ?s1 = "fst (zadd s m sc)"
  have add: "ss_wf ?s1" "ss_scores ?s1 = (ss_scores s)(m \<mapsto> sc)"
      "snd (zadd s m sc) = (if ss_scores s m = None then 1 else 0)"
    using zadd_correct[of s sc m] Cons.prems p by auto
  have IH: "ss_wf (fst (zadd_multi ?s1 items))"
      "ss_scores (fst (zadd_multi ?s1 items)) = ss_scores ?s1 ++ map_of (rev items)"
      "snd (zadd_multi ?s1 items) = int (card (fst ` set items - dom (ss_scores ?s1)))"
    using Cons.IH[OF add(1)] Cons.prems(2) by auto
  let ?F = "fst ` set items" and ?D = "dom (ss_scores s)"
  have sets: "insert m ?F - ?D = (if m \<in> ?D then ?F - insert m ?D else insert m (?F - insert m ?D))"
    by auto
  have "int (card (insert m ?F - ?D)) =
      (if ss_scores s m = None then 1 else 0) + int (card (?F - insert m ?D))"
    unfolding sets by (auto simp: domIff)
  moreover have "(ss_scores s)(m \<mapsto> sc) ++ map_of (rev items) = ss_scores s ++ map_of (rev (p # items))"
    by (simp add: p map_add_upd_left map_of_append fun_eq_iff map_add_def split: option.splits)
  ultimately show ?case using add IH p by (simp add: case_prod_beta Let_def)
qed

lemma zrem_multi_correct:
  "ss_wf s \<Longrightarrow> ss_wf (fst (zrem_multi s ms)) \<and>
   ss_scores (fst (zrem_multi s ms)) = ss_scores s |` (- set ms) \<and>
   snd (zrem_multi s ms) = int (card (set ms \<inter> dom (ss_scores s)))"
proof (induction ms arbitrary: s)
  case Nil
  then show ?case by simp
next
  case (Cons m ms)
  let ?s1 = "fst (zrem s m)"
  have rem: "ss_wf ?s1" "ss_scores ?s1 = (ss_scores s)(m := None)"
      "snd (zrem s m) = (if ss_scores s m = None then 0 else 1)"
    using zrem_correct[of s m] Cons.prems by auto
  let ?D = "dom (ss_scores s)"
  have sets: "insert m (set ms) \<inter> ?D = (if m \<in> ?D then insert m (set ms \<inter> (?D - {m})) else set ms \<inter> (?D - {m}))"
    by auto
  have "int (card (insert m (set ms) \<inter> ?D)) =
      (if ss_scores s m = None then 0 else 1) + int (card (set ms \<inter> (?D - {m})))"
    unfolding sets by (auto simp: domIff)
  moreover have "((ss_scores s)(m := None)) |` (- set ms) = ss_scores s |` (- set (m # ms))"
      "dom ((ss_scores s)(m := None)) = ?D - {m}"
    by (auto simp: restrict_map_def fun_eq_iff)
  ultimately show ?case using rem(3) Cons.IH[OF rem(1)] unfolding rem(2)
    by (simp only: zrem_multi.simps case_prod_beta Let_def fst_conv snd_conv) simp
qed

section \<open>Reachable sets\<close>

text \<open>The sets that the public operations build, scores other than NaN.\<close>

inductive ss_reachable :: "sorted_set \<Rightarrow> bool" where
  new: "ss_reachable ss_new"
| zadd: "ss_reachable s \<Longrightarrow> \<not> dbl_nan sc \<Longrightarrow> ss_reachable (fst (zadd s m sc))"
| zrem: "ss_reachable s \<Longrightarrow> ss_reachable (fst (zrem s m))"
| clear: "ss_reachable s \<Longrightarrow> ss_reachable (ss_clear s)"

lemma reachable_ss_wf: "ss_reachable s \<Longrightarrow> ss_wf s"
  by (induction rule: ss_reachable.induct) (auto intro: wf_intros)

section \<open>Properties of the sorted set\<close>

text \<open>
  C11: In every sorted set built by \<^verbatim>\<open>zadd\<close> (scores other than NaN), \<^verbatim>\<open>zrem\<close> and
  \<^verbatim>\<open>clear\<close>, the tree and the hash map agree: listing the tree in order gives each member of
  the map once, with its score, sorted by score and then by member, and the size is their number.
\<close>

theorem tree_and_map_agree:
  assumes "ss_reachable s"
  shows "avl_wf entry_lt entry_ok (ss_tree s) \<and> sorted_wrt entry_lt (ss_entries s) \<and>
    distinct (map member (ss_entries s)) \<and>
    (\<forall>m sc. zscore s m = Some sc \<longleftrightarrow> \<lparr>score = sc, member = m\<rparr> \<in> set (ss_entries s)) \<and>
    zcard s = card (dom (ss_scores s))"
proof -
  note wf = reachable_ss_wf[OF assms]
  have "dom (ss_scores s) = set (map member (ss_entries s))"
  proof (intro equalityI subsetI)
    fix m assume "m \<in> dom (ss_scores s)"
    then obtain sc where "\<lparr>score = sc, member = m\<rparr> \<in> set (ss_entries s)"
      using ss_entries_set[OF wf] by fastforce
    then show "m \<in> set (map member (ss_entries s))" by force
  qed (auto simp: ss_entries_set[OF wf])
  then have "card (dom (ss_scores s)) = length (ss_entries s)"
    using distinct_card[OF ss_members_distinct[OF wf]] by simp
  then show ?thesis
    using wf ss_entries_sorted[OF wf] ss_members_distinct[OF wf] ss_entries_set[OF wf] ss_size_length[OF wf]
    by (simp add: zscore_def zcard_def ss_wf_def)
qed

text \<open>
  \<^verbatim>\<open>zadd\<close> with a score other than NaN sets the score of the member and of no other, and
  returns 1 for a new member and 0 for an update; \<^verbatim>\<open>zrem\<close> removes the member and no other,
  and returns whether it was there. Both keep the cardinality exact.
\<close>

theorem zadd_zrem_refine_map:
  assumes "ss_wf s" "\<not> dbl_nan sc"
  shows "zscore (fst (zadd s m sc)) = (zscore s)(m \<mapsto> sc) \<and>
    snd (zadd s m sc) = (if zscore s m = None then 1 else 0) \<and>
    int (zcard (fst (zadd s m sc))) = int (zcard s) + snd (zadd s m sc) \<and>
    zscore (fst (zrem s m)) = (zscore s)(m := None) \<and>
    snd (zrem s m) = (if zscore s m = None then 0 else 1) \<and>
    int (zcard (fst (zrem s m))) = int (zcard s) - snd (zrem s m)"
proof -
  have "0 < ss_size s" if "ss_scores s m \<noteq> None" using that ss_remove[OF assms(1)] by blast
  then show ?thesis using zadd_correct[OF assms, of m] zrem_correct[OF assms(1), of m]
    by (auto simp: zscore_def[abs_def] zcard_def of_nat_diff)
qed

text \<open>
  The multi-member forms: \<^verbatim>\<open>zadd_multi\<close> gives each member its last score in the list and
  returns the number of members that were new; \<^verbatim>\<open>zrem_multi\<close> removes the listed members and
  returns how many of them were there, duplicates counted once.
\<close>

theorem multi_operations_count:
  assumes "ss_wf s" "\<forall>p \<in> set items. \<not> dbl_nan (snd p)"
  shows "zscore (fst (zadd_multi s items)) = zscore s ++ map_of (rev items) \<and>
    snd (zadd_multi s items) = int (card (fst ` set items - dom (zscore s))) \<and>
    zscore (fst (zrem_multi s ms)) = zscore s |` (- set ms) \<and>
    snd (zrem_multi s ms) = int (card (set ms \<inter> dom (zscore s)))"
  using zadd_multi_correct[OF assms] zrem_multi_correct[OF assms(1), of ms]
  by (simp add: zscore_def[abs_def])

text \<open>
  C24: Ranks and ranges agree in a set of fewer than \<^verbatim>\<open>2^31\<close> members: \<^verbatim>\<open>zrank\<close> and \<^verbatim>\<open>zrevrank\<close> answer exactly for the members,
  and the range from a member's rank to itself is that member with its score, as is the
  range at the index counted from the end by the reverse rank.
\<close>

theorem rank_range_agree:
  assumes "ss_wf s" "ss_size s < 2 ^ 31"
  shows "case zscore s m of
      None \<Rightarrow> zrank s m = None \<and> zrevrank s m = None
    | Some sc \<Rightarrow> (\<exists>i r. zrank s m = Some i \<and> zrevrank s m = Some r \<and> 0 \<le> i \<and> i + r = int (zcard s) - 1 \<and>
        zrange s i i True = [(m, sc)] \<and> zrange s (- 1 - r) (- 1 - r) True = [(m, sc)])"
proof (cases "ss_scores s m")
  case None
  then show ?thesis by (simp add: zscore_def zrank_def zrevrank_def)
next
  case (Some sc)
  obtain i where i: "zrank s m = Some (int i)" "i < ss_size s" "ss_entries s ! i = \<lparr>score = sc, member = m\<rparr>"
    using zrank_position[OF assms(1) Some] .
  have len: "ss_size s = length (ss_entries s)" using ss_size_length[OF assms(1)] .
  have rev: "zrevrank s m = Some (int (ss_size s) - 1 - int i)"
    using i assms(2) by (simp add: zrevrank_def int_of_size_small)
  have one: "take (Suc 0) (drop i (ss_entries s)) = [ss_entries s ! i]"
    using i(2) len by (simp add: take_Suc_conv_app_nth)
  have "zrange s (int i) (int i) True = [(m, sc)]"
    using i len one by (simp add: zrange_slice_entries[OF assms] slice_def from_end_def Let_def result_pair_def)
  moreover have "zrange s (int i - int (ss_size s)) (int i - int (ss_size s)) True = [(m, sc)]"
    using i len one by (simp add: zrange_slice_entries[OF assms] slice_def from_end_def Let_def result_pair_def)
  moreover have "- 1 - (int (ss_size s) - 1 - int i) = int i - int (ss_size s)" by simp
  ultimately show ?thesis using i(1) rev
    by (simp only: zscore_def zcard_def Some option.case) (rule exI conjI refl | simp)+
qed

text \<open>
  \<^verbatim>\<open>zrange\<close> returns the slice of the sorted listing between two indices, both included,
  negative ones counted from the end and out-of-range ones clamped; \<^verbatim>\<open>zrevrange\<close> returns the
  same slice backwards.
\<close>

theorem zrange_is_slice:
  assumes "ss_wf s" "ss_size s < 2 ^ 31"
  shows "zrange s i j ws = map (result_pair ws) (slice i j (ss_entries s)) \<and>
    zrevrange s i j ws = map (result_pair ws) (rev (slice i j (ss_entries s)))"
  by (simp add: zrevrange_def zrange_slice_entries[OF assms] rev_map)

text \<open>
  C25: \<^verbatim>\<open>zrangebyscore\<close> lists, in order, the members whose score is in the closed interval,
  except those with the score \<^verbatim>\<open>max\<close> whose name is above the one-byte string
  \<^verbatim>\<open>"\xff"\<close>; \<^verbatim>\<open>zcount\<close> is the length of that list. With a NaN bound the result is
  empty.
\<close>

theorem zrangebyscore_lists_interval:
  assumes "ss_wf s"
  shows "zrangebyscore s lo hi ws = map (result_pair ws)
      (filter (\<lambda>e. dbl_le lo (score e) \<and> dbl_le (score e) hi \<and>
         \<not> (dbl_eq (score e) hi \<and> [CHR 0xFF] < member e)) (ss_entries s)) \<and>
    zcount s lo hi = length (zrangebyscore s lo hi ws)"
proof (cases "dbl_nan lo \<or> dbl_nan hi")
  case True
  then show ?thesis by (auto simp: zcount_def zrangebyscore_def Let_def dbl_le_def)
next
  case False
  then show ?thesis using zrangebyscore_entries[OF assms] by (simp add: zcount_def)
qed

text \<open>
  The bound \<^verbatim>\<open>"\xff"\<close> of \<^verbatim>\<open>zrangebyscore\<close> is not the largest string: a member that
  starts with that byte and goes on is missed at the score \<^verbatim>\<open>max\<close>, although the interval
  is closed and the member is in the set with that score.
\<close>

theorem zrangebyscore_misses_member:
  "let s = fst (zadd ss_new [CHR 0xFF, CHR ''a''] dbl_one)
   in zscore s [CHR 0xFF, CHR ''a''] = Some dbl_one \<and>
      zrange s 0 (-1) True = [([CHR 0xFF, CHR ''a''], dbl_one)] \<and>
      zrangebyscore s dbl_one dbl_one True = [] \<and> zcount s dbl_one dbl_one = 0"
  by code_simp

text \<open>
  A NaN score compares equal to every entry of the tree, so that \<^verbatim>\<open>zadd\<close> with NaN
  reports a new member and counts it but does not store it in the tree, and removing that member
  takes another member's entry out of the tree: that member keeps its score but is gone from
  every range.
\<close>

theorem nan_score_evicts_member:
  "let s1 = fst (zadd ss_new ''a'' dbl_one);
       (s2, added) = zadd s1 ''b'' dbl_qnan;
       (s3, removed) = zrem s2 ''b''
   in added = 1 \<and> zcard s2 = 2 \<and> zrange s2 0 (-1) True = [(''a'', dbl_one)] \<and>
      removed = 1 \<and> zcard s3 = 1 \<and> zscore s3 ''a'' = Some dbl_one \<and>
      zrange s3 0 (-1) True = [] \<and> zrank s3 ''a'' = Some (-1)"
  by code_simp

text \<open>
  \<^verbatim>\<open>zrevrange\<close> reverses the slice of the ascending order instead of slicing the
  descending one: asked for rank 0 of two members it returns the one whose \<^verbatim>\<open>zrevrank\<close> is 1.
\<close>

theorem zrevrange_disagrees_with_zrevrank:
  "let s = fst (zadd_multi ss_new [(''a'', dbl_one), (''b'', dbl_two)])
   in zrevrange s 0 0 True = [(''a'', dbl_one)] \<and> zrevrank s ''a'' = Some 1 \<and>
      zrevrank s ''b'' = Some 0"
  by code_simp

text \<open>A set of two members, for the hypotheses above.\<close>

definition two_members :: sorted_set where
  "two_members = fst (zadd (fst (zadd ss_new ''a'' dbl_one)) ''b'' dbl_two)"

lemma two_members_reachable: "ss_reachable two_members"
  unfolding two_members_def
  by (intro ss_reachable.intros) (simp_all add: dbl_nan_def dbl_magnitude_def dbl_one_def dbl_two_def)

lemma two_members_wf: "ss_wf two_members"
  by (rule reachable_ss_wf[OF two_members_reachable])

theorem tree_and_map_agree_witness:
  "zcard two_members = card (dom (ss_scores two_members)) \<and> distinct (map member (ss_entries two_members))"
  using tree_and_map_agree[OF two_members_reachable] by simp

theorem zadd_zrem_refine_map_witness:
  "zscore (fst (zadd two_members ''c'' dbl_one)) ''c'' = Some dbl_one \<and> \<not> dbl_nan dbl_one"
  using zadd_zrem_refine_map[OF two_members_wf, of dbl_one "''c''"]
  by (simp add: dbl_nan_def dbl_magnitude_def dbl_one_def)

theorem multi_operations_count_witness:
  "zscore (fst (zadd_multi two_members [(''c'', dbl_one)])) ''c'' = Some dbl_one"
  using multi_operations_count[OF two_members_wf, of "[(''c'', dbl_one)]" "[]"]
  by (simp add: dbl_nan_def dbl_magnitude_def dbl_one_def)

lemma two_members_size: "ss_size two_members = 2"
  by code_simp

theorem rank_range_agree_witness:
  "zrank two_members ''c'' = None \<and> zrevrank two_members ''c'' = None \<and>
   (\<exists>i r. zrank two_members ''b'' = Some i \<and> zrevrank two_members ''b'' = Some r \<and> i + r = 1 \<and>
      zrange two_members (- 1 - r) (- 1 - r) True = [(''b'', the (zscore two_members ''b''))])"
proof -
  have "zscore two_members ''c'' = None" "zscore two_members ''b'' \<noteq> None" "zcard two_members = 2" by code_simp+
  then show ?thesis using rank_range_agree[OF two_members_wf, of "''c''"] rank_range_agree[OF two_members_wf, of "''b''"] two_members_size
    by auto
qed

theorem zrange_is_slice_witness:
  "zrange two_members 1 (-1) True = map (result_pair True) (slice 1 (-1) (ss_entries two_members)) \<and>
   ss_size two_members < 2 ^ 31"
  using zrange_is_slice[OF two_members_wf, of 1 "-1" True] two_members_size by simp

theorem zrangebyscore_lists_interval_witness:
  "zcount two_members dbl_one dbl_two = length (zrangebyscore two_members dbl_one dbl_two True)"
  using zrangebyscore_lists_interval[OF two_members_wf, of dbl_one dbl_two True] by simp

section \<open>Statistics\<close>

record ss_stats =
  total_members :: nat
  min_score :: dbl
  max_score :: dbl
  avg_score :: dbl
  tree_height :: int

text \<open>
  \<^verbatim>\<open>SortedSet::get_stats\<close>. Addition and division of doubles and the conversion of the size
  are parameters; with \<open>size_ \<noteq> 0\<close> and an empty tree the three scores stay uninitialised,
  which is \<open>None\<close>.
\<close>

definition ss_get_stats ::
  "(dbl \<Rightarrow> dbl \<Rightarrow> dbl) \<Rightarrow> (dbl \<Rightarrow> dbl \<Rightarrow> dbl) \<Rightarrow> (nat \<Rightarrow> dbl) \<Rightarrow> sorted_set \<Rightarrow> ss_stats option" where
  "ss_get_stats dadd ddiv dbl_of s =
     (if ss_size s = 0
      then Some \<lparr>total_members = 0, min_score = 0, max_score = 0, avg_score = 0,
                 tree_height = avl_height (ss_tree s)\<rparr>
      else let all_entries = avl_inorder (ss_tree s)
           in if all_entries \<noteq> []
              then Some \<lparr>total_members = ss_size s,
                         min_score = score (fst (hd all_entries)),
                         max_score = score (fst (last all_entries)),
                         avg_score = ddiv (foldl (\<lambda>sum e. dadd sum (score (fst e))) 0 all_entries)
                                       (dbl_of (ss_size s)),
                         tree_height = avl_height (ss_tree s)\<rparr>
              else None)"

lemma entry_le_score:
  "entry_ok a \<Longrightarrow> entry_ok b \<Longrightarrow> a = b \<or> entry_lt a b \<Longrightarrow> dbl_le (score a) (score b)"
  using entry_lt_ok[of a b] by (auto simp: dbl_le_def entry_ok_def)

lemma ss_stats_extremes:
  assumes "ss_wf s" "ss_scores s m = Some sc"
  shows "\<exists>st. ss_get_stats dadd ddiv dbl_of s = Some st \<and> dbl_le (min_score st) sc \<and> dbl_le sc (max_score st)"
proof -
  have e: "\<lparr>score = sc, member = m\<rparr> \<in> set (ss_entries s)" (is "?e \<in> _")
    using assms ss_entries_set[OF assms(1), of "\<lparr>score = sc, member = m\<rparr>"] by simp
  then have ne: "ss_entries s \<noteq> []" "avl_inorder (ss_tree s) \<noteq> []" "ss_size s \<noteq> 0"
    using ss_size_length[OF assms(1)] by (auto simp: ss_entries_def)
  have ok: "entry_ok x" if "x \<in> set (ss_entries s)" for x
    using that ss_member_ok[OF assms(1)] ss_entries_set[OF assms(1)] by blast
  have first: "?e = hd (ss_entries s) \<or> entry_lt (hd (ss_entries s)) ?e"
    using ss_entries_sorted[OF assms(1)] e ne(1) by (cases "ss_entries s") auto
  have last: "?e = last (ss_entries s) \<or> entry_lt ?e (last (ss_entries s))"
    using ss_entries_sorted[OF assms(1)] e ne(1)
    by (cases "ss_entries s" rule: rev_cases) (auto simp: sorted_wrt_append)
  have "dbl_le (score (hd (ss_entries s))) sc" "dbl_le sc (score (last (ss_entries s)))"
    using first last ok[OF e] ok[of "hd (ss_entries s)"] ok[of "last (ss_entries s)"] ne(1)
      entry_le_score[of "hd (ss_entries s)" ?e] entry_le_score[of ?e "last (ss_entries s)"] by auto
  then show ?thesis using ne by (simp add: ss_get_stats_def Let_def ss_entries_def hd_map last_map)
qed

section \<open>The manager\<close>

text \<open>
  \<^verbatim>\<open>get_or_create\<close> hands out a \<^verbatim>\<open>shared_ptr\<close>, so a caller's set and the manager's are the
  same object: sets live in a store, a pointer is an index of the store, and
  \<^verbatim>\<open>sets_\<close> is an association list from keys to pointers (the order of
  \<^verbatim>\<open>unordered_map\<close> is not specified; the list fixes one). A set that was deleted stays in
  the store for whoever still holds its pointer.
\<close>

record ss_manager =
  mgr_sets :: "(string \<times> nat) list"
  mgr_store :: "sorted_set list"

definition mgr_new :: ss_manager where
  "mgr_new = \<lparr>mgr_sets = [], mgr_store = []\<rparr>"

definition get_or_create :: "ss_manager \<Rightarrow> string \<Rightarrow> ss_manager \<times> nat" where
  "get_or_create mgr key =
     (case map_of (mgr_sets mgr) key of
        Some ptr \<Rightarrow> (mgr, ptr)
      | None \<Rightarrow>
          let new_set = length (mgr_store mgr)
          in (\<lparr>mgr_sets = (key, new_set) # mgr_sets mgr, mgr_store = mgr_store mgr @ [ss_new]\<rparr>, new_set))"

definition mgr_del :: "ss_manager \<Rightarrow> string \<Rightarrow> ss_manager \<times> bool" where
  "mgr_del mgr key =
     (mgr\<lparr>mgr_sets := filter (\<lambda>p. fst p \<noteq> key) (mgr_sets mgr)\<rparr>, map_of (mgr_sets mgr) key \<noteq> None)"

definition mgr_exists :: "ss_manager \<Rightarrow> string \<Rightarrow> bool" where
  "mgr_exists mgr key = (map_of (mgr_sets mgr) key \<noteq> None)"

definition mgr_keys :: "ss_manager \<Rightarrow> string list" where
  "mgr_keys mgr = map fst (mgr_sets mgr)"

definition mgr_clear :: "ss_manager \<Rightarrow> ss_manager" where
  "mgr_clear mgr = mgr\<lparr>mgr_sets := []\<rparr>"

text \<open>An operation of a caller on the set it points to.\<close>

definition mgr_update :: "ss_manager \<Rightarrow> nat \<Rightarrow> (sorted_set \<Rightarrow> sorted_set) \<Rightarrow> ss_manager" where
  "mgr_update mgr ptr f = mgr\<lparr>mgr_store := (mgr_store mgr)[ptr := f (mgr_store mgr ! ptr)]\<rparr>"

definition mgr_wf :: "ss_manager \<Rightarrow> bool" where
  "mgr_wf mgr =
     (distinct (map fst (mgr_sets mgr)) \<and> distinct (map snd (mgr_sets mgr)) \<and>
      (\<forall>p \<in> set (mgr_sets mgr). snd p < length (mgr_store mgr)) \<and> (\<forall>s \<in> set (mgr_store mgr). ss_wf s))"

lemma mgr_new_wf [wf_intros]: "mgr_wf mgr_new"
  by (simp add: mgr_wf_def mgr_new_def)

lemma get_or_create_wf [wf_intros]: "mgr_wf mgr \<Longrightarrow> mgr_wf (fst (get_or_create mgr key))"
  by (fastforce simp: mgr_wf_def get_or_create_def Let_def map_of_eq_None_iff less_Suc_eq ss_new_wf
      split: option.splits)

lemma mgr_del_wf [wf_intros]: "mgr_wf mgr \<Longrightarrow> mgr_wf (fst (mgr_del mgr key))"
  by (auto simp: mgr_wf_def mgr_del_def distinct_map_filter)

lemma mgr_clear_wf [wf_intros]: "mgr_wf mgr \<Longrightarrow> mgr_wf (mgr_clear mgr)"
  by (simp add: mgr_wf_def mgr_clear_def)

lemma mgr_update_wf [wf_intros]:
  "mgr_wf mgr \<Longrightarrow> ptr < length (mgr_store mgr) \<Longrightarrow> (\<And>s. ss_wf s \<Longrightarrow> ss_wf (f s)) \<Longrightarrow>
   mgr_wf (mgr_update mgr ptr f)"
  using set_update_subset_insert[of "mgr_store mgr" ptr "f (mgr_store mgr ! ptr)"]
  by (fastforce simp: mgr_wf_def mgr_update_def)

lemma get_or_create_bound:
  "mgr_wf mgr \<Longrightarrow> snd (get_or_create mgr key) < length (mgr_store (fst (get_or_create mgr key)))"
  by (auto simp: mgr_wf_def get_or_create_def Let_def dest!: map_of_SomeD split: option.splits)

lemma get_or_create_bound_after: "map_of (mgr_sets (fst (get_or_create mgr key))) key = Some (snd (get_or_create mgr key))"
  by (auto simp: get_or_create_def Let_def split: option.splits)

lemma get_or_create_other:
  "k \<noteq> key \<Longrightarrow> map_of (mgr_sets (fst (get_or_create mgr key))) k = map_of (mgr_sets mgr) k"
  by (auto simp: get_or_create_def Let_def split: option.splits)

lemma mgr_ptr_inj:
  "mgr_wf mgr \<Longrightarrow> map_of (mgr_sets mgr) k = Some p \<Longrightarrow> map_of (mgr_sets mgr) k' = Some p \<Longrightarrow> k = k'"
  unfolding mgr_wf_def by (metis (no_types, lifting) distinct_map inj_onD map_of_SomeD prod.inject snd_conv)

text \<open>
  The manager is a map of independent sorted sets: asking for a key again returns the same
  object, with every change made through the earlier pointer; a change through the pointer of
  one key leaves the sets of all other keys as they were.
\<close>

theorem manager_shares_and_separates:
  fixes f :: "sorted_set \<Rightarrow> sorted_set"
  assumes "mgr_wf mgr" "get_or_create mgr key = (mgr1, ptr)"
  defines "mgr2 \<equiv> mgr_update mgr1 ptr f"
  shows "get_or_create mgr2 key = (mgr2, ptr) \<and> mgr_store mgr2 ! ptr = f (mgr_store mgr1 ! ptr) \<and>
    (\<forall>k q. k \<noteq> key \<longrightarrow> map_of (mgr_sets mgr) k = Some q \<longrightarrow>
       get_or_create mgr2 k = (mgr2, q) \<and> mgr_store mgr2 ! q = mgr_store mgr ! q)"
proof -
  have wf1: "mgr_wf mgr1" and bound: "ptr < length (mgr_store mgr1)"
    and key: "map_of (mgr_sets mgr1) key = Some ptr"
    using get_or_create_wf[OF assms(1), of key] get_or_create_bound[OF assms(1), of key]
      get_or_create_bound_after[of mgr key] assms(2) by auto
  have "get_or_create mgr2 k = (mgr2, q) \<and> mgr_store mgr2 ! q = mgr_store mgr ! q"
    if k: "k \<noteq> key" "map_of (mgr_sets mgr) k = Some q" for k q
  proof -
    have q: "map_of (mgr_sets mgr1) k = Some q" using k get_or_create_other[OF k(1), of mgr] assms(2) by simp
    have "q \<noteq> ptr" using mgr_ptr_inj[OF wf1 q] key k(1) by blast
    moreover have "q < length (mgr_store mgr)"
      using assms(1) k(2) by (auto simp: mgr_wf_def dest!: map_of_SomeD)
    then have "mgr_store mgr1 ! q = mgr_store mgr ! q"
      using assms(2) by (auto simp: get_or_create_def Let_def nth_append split: option.splits)
    ultimately show ?thesis using q by (simp add: mgr2_def mgr_update_def get_or_create_def)
  qed
  then show ?thesis using key bound by (simp add: mgr2_def mgr_update_def get_or_create_def)
qed

theorem manager_shares_and_separates_witness:
  "get_or_create (mgr_update (fst (get_or_create mgr_new ''z'')) 0 ss_clear) ''z'' =
     (mgr_update (fst (get_or_create mgr_new ''z'')) 0 ss_clear, 0)"
  using manager_shares_and_separates[OF mgr_new_wf, of "''z''" "fst (get_or_create mgr_new ''z'')" 0 ss_clear]
  by (simp add: get_or_create_def mgr_new_def)

end
