(* ===== verification/Codec.thy ===== *)
theory Codec
  imports Prelude
begin

text \<open>
  The contract between a wire format and its users (locale \<open>codec\<close>): decoding what a message was encoded to gives the
  message and leaves the bytes that follow, and nothing can be decoded from no bytes. From this alone it follows that
  messages sent one after the other can be told apart. The contract holds for the messages of \<^verbatim>\<open>protocol.cpp\<close> and
  for the frames of \<^verbatim>\<open>simple_server.cpp\<close>.
\<close>

text \<open>Decoding a number of messages one after the other.\<close>

fun decode_n :: "(bytes \<Rightarrow> ('m \<times> bytes) option) \<Rightarrow> nat \<Rightarrow> bytes \<Rightarrow> ('m list \<times> bytes) option" where
  "decode_n dec 0 b = Some ([], b)"
| "decode_n dec (Suc n) b =
     (case dec b of
        None \<Rightarrow> None
      | Some (m, b1) \<Rightarrow> (case decode_n dec n b1 of None \<Rightarrow> None | Some (ms, b2) \<Rightarrow> Some (m # ms, b2)))"

locale codec =
  fixes enc :: "'m \<Rightarrow> bytes" and dec :: "bytes \<Rightarrow> ('m \<times> bytes) option" and valid :: "'m \<Rightarrow> bool"
  assumes dec_enc: "valid m \<Longrightarrow> dec (enc m @ rest) = Some (m, rest)"
    and dec_nothing: "dec [] = None"
begin

lemma enc_nonempty: "valid m \<Longrightarrow> enc m \<noteq> []"
proof
  assume "valid m" "enc m = []"
  then show False using dec_enc[of m "[]"] by (simp add: dec_nothing)
qed

text \<open>No message is encoded to the beginning of another.\<close>

lemma prefix_free:
  assumes "valid m" "valid m'" "enc m @ xs = enc m' @ ys"
  shows "m = m' \<and> xs = ys"
proof -
  have "Some (m, xs) = dec (enc m @ xs)" by (rule dec_enc[OF assms(1), symmetric])
  also have "\<dots> = Some (m', ys)" unfolding assms(3) by (rule dec_enc[OF assms(2)])
  finally show ?thesis by simp
qed

lemma decode_stream:
  "\<forall>m \<in> set ms. valid m \<Longrightarrow> decode_n dec (length ms) (concat (map enc ms) @ rest) = Some (ms, rest)"
  by (induction ms) (simp_all add: dec_enc)

lemma stream_unambiguous:
  "\<forall>m \<in> set ms. valid m \<Longrightarrow> \<forall>m \<in> set ms'. valid m \<Longrightarrow> concat (map enc ms) = concat (map enc ms') \<Longrightarrow> ms = ms'"
proof (induction ms arbitrary: ms')
  case Nil
  then show ?case using enc_nonempty by (cases ms') auto
next
  case (Cons m ms)
  then obtain m' ns where ms': "ms' = m' # ns" using enc_nonempty[of m] by (cases ms') auto
  then have "m = m' \<and> concat (map enc ms) = concat (map enc ns)"
    using Cons.prems by (intro prefix_free) simp_all
  then show ?case using Cons.IH[of ns] Cons.prems(1,2) ms' by simp
qed

end

end
