(* ===== verification/Protocol.thy ===== *)
theory Protocol
  imports Codec
begin

text \<open>
  The binary protocol of \<^verbatim>\<open>src/src/protocol/protocol.{hpp,cpp}\<close>: messages, their
  serialisation, the buffering parser and the command utilities. A message is its type and the
  \<^verbatim>\<open>std::variant\<close> it holds, which need not match; an element of an array is a
  \<^verbatim>\<open>MessagePtr\<close> that may be null. The parser's state is its buffer. The parser reads past the
  buffer when the 32-bit sum \<^verbatim>\<open>5 + length\<close> wraps; that is the outcome \<open>Crash\<close>. Running
  out of memory or stack is not modelled.
\<close>

section \<open>Messages\<close>

datatype message_type = SIMPLE_STRING | ERROR_MSG | INTEGER | BULK_STRING | ARRAY | NULL_VALUE

fun type_byte :: "message_type \<Rightarrow> byte" where
  "type_byte SIMPLE_STRING = 0x01"
| "type_byte ERROR_MSG = 0x02"
| "type_byte INTEGER = 0x03"
| "type_byte BULK_STRING = 0x04"
| "type_byte ARRAY = 0x05"
| "type_byte NULL_VALUE = 0x06"

type_synonym int64 = u64

datatype message = Message (get_type: message_type) (get_value: msg_value)
and msg_value = Monostate | Str string | I64 int64 | Arr "message option list"

text \<open>The constructors and the private setter; a factory method sets the value of a fresh message of its type.\<close>

definition message_new :: message where
  "message_new = Message NULL_VALUE Monostate"

definition message_of_type :: "message_type \<Rightarrow> message" where
  "message_of_type t = Message t Monostate"

definition set_value :: "message \<Rightarrow> msg_value \<Rightarrow> message" where
  "set_value m v = Message (get_type m) v"

definition make_simple_string :: "string \<Rightarrow> message" where
  "make_simple_string str = Message SIMPLE_STRING (Str str)"

definition make_error :: "string \<Rightarrow> message" where
  "make_error err = Message ERROR_MSG (Str err)"

definition make_integer :: "int64 \<Rightarrow> message" where
  "make_integer val = Message INTEGER (I64 val)"

definition make_bulk_string :: "string \<Rightarrow> message" where
  "make_bulk_string str = Message BULK_STRING (Str str)"

definition make_array :: "message option list \<Rightarrow> message" where
  "make_array array = Message ARRAY (Arr array)"

definition make_null :: message where
  "make_null = Message NULL_VALUE Monostate"

lemma make_sets_value:
  "make_simple_string s = set_value (message_of_type SIMPLE_STRING) (Str s)"
  "make_error s = set_value (message_of_type ERROR_MSG) (Str s)"
  "make_integer n = set_value (message_of_type INTEGER) (I64 n)"
  "make_bulk_string s = set_value (message_of_type BULK_STRING) (Str s)"
  "make_array es = set_value (message_of_type ARRAY) (Arr es)"
  "make_null = message_new"
  by (simp_all add: make_simple_string_def make_error_def make_integer_def make_bulk_string_def make_array_def make_null_def
      set_value_def message_of_type_def message_new_def)

definition is_string :: "message \<Rightarrow> bool" where
  "is_string m = (get_type m = SIMPLE_STRING \<or> get_type m = BULK_STRING)"

definition is_error :: "message \<Rightarrow> bool" where "is_error m = (get_type m = ERROR_MSG)"
definition is_integer :: "message \<Rightarrow> bool" where "is_integer m = (get_type m = INTEGER)"
definition is_array :: "message \<Rightarrow> bool" where "is_array m = (get_type m = ARRAY)"
definition is_null :: "message \<Rightarrow> bool" where "is_null m = (get_type m = NULL_VALUE)"

definition as_string :: "message \<Rightarrow> string" where
  "as_string m = (case get_value m of Str s \<Rightarrow> s | _ \<Rightarrow> [])"

definition as_integer :: "message \<Rightarrow> int64" where
  "as_integer m = (case get_value m of I64 v \<Rightarrow> v | _ \<Rightarrow> 0)"

definition as_array :: "message \<Rightarrow> message option list option" where
  "as_array m = (case get_value m of Arr a \<Rightarrow> Some a | _ \<Rightarrow> None)"

section \<open>Serialisation\<close>

definition le_bytes32 :: "u32 \<Rightarrow> bytes" where
  "le_bytes32 w = [ucast w, ucast (drop_bit 8 w), ucast (drop_bit 16 w), ucast (drop_bit 24 w)]"

definition le_bytes64 :: "u64 \<Rightarrow> bytes" where
  "le_bytes64 w = map (\<lambda>i. ucast (drop_bit (i * 8) w)) [0..<8]"

fun serialize :: "message \<Rightarrow> bytes" and serialize_elems :: "message option list \<Rightarrow> bytes" where
  "serialize (Message t v) =
     type_byte t #
     (case t of
        INTEGER \<Rightarrow> le_bytes32 8 @ le_bytes64 (as_integer (Message t v))
      | ARRAY \<Rightarrow>
          (case v of
             Arr arr \<Rightarrow> le_bytes32 (word_of_nat (length arr)) @ serialize_elems arr
           | _ \<Rightarrow> le_bytes32 0)
      | NULL_VALUE \<Rightarrow> [0, 0, 0, 0]
      | _ \<Rightarrow> (let str = as_string (Message t v)
             in le_bytes32 (word_of_nat (length str)) @ bytes_of_string str))"
| "serialize_elems [] = []"
| "serialize_elems (e # es) =
     (case e of Some m \<Rightarrow> serialize m | None \<Rightarrow> [type_byte NULL_VALUE, 0, 0, 0, 0]) @ serialize_elems es"

fun serialized_size :: "message \<Rightarrow> nat" and elems_size :: "message option list \<Rightarrow> nat" where
  "serialized_size (Message t v) =
     5 + (case t of
            INTEGER \<Rightarrow> 8
          | ARRAY \<Rightarrow> (case v of Arr arr \<Rightarrow> elems_size arr | _ \<Rightarrow> 0)
          | NULL_VALUE \<Rightarrow> 0
          | _ \<Rightarrow> length (as_string (Message t v)))"
| "elems_size [] = 0"
| "elems_size (e # es) = (case e of Some m \<Rightarrow> serialized_size m | None \<Rightarrow> 5) + elems_size es"

section \<open>The parser\<close>

datatype parse_result = Parsed message | Nullptr | Crash

definition feed :: "bytes \<Rightarrow> bytes \<Rightarrow> bytes" where
  "feed buffer data = buffer @ data"

text \<open>A parser starts with an empty buffer, and \<^verbatim>\<open>reset\<close> empties it; \<^verbatim>\<open>feed\<close> of a vector is \<^verbatim>\<open>feed\<close> of its bytes.\<close>

definition parser_new :: bytes where "parser_new = []"

definition feed_vector :: "bytes \<Rightarrow> bytes \<Rightarrow> bytes" where
  "feed_vector buffer data = feed buffer data"

definition parser_reset :: "bytes \<Rightarrow> bytes" where
  "parser_reset buffer = []"

definition has_bytes :: "bytes \<Rightarrow> nat \<Rightarrow> bool" where
  "has_bytes buffer n = (length buffer \<ge> n)"

definition consume_bytes :: "bytes \<Rightarrow> nat \<Rightarrow> bytes" where
  "consume_bytes buffer n = (if n \<ge> length buffer then [] else drop n buffer)"

definition read_length :: "bytes \<Rightarrow> u32" where
  "read_length b =
     ((ucast (b ! 1) OR push_bit 8 (ucast (b ! 2))) OR push_bit 16 (ucast (b ! 3))) OR push_bit 24 (ucast (b ! 4))"

text \<open>\<^verbatim>\<open>read_header\<close>: the type byte and the length, when five bytes are there.\<close>

definition read_header :: "bytes \<Rightarrow> (byte \<times> u32) option" where
  "read_header buffer =
     (if \<not> has_bytes buffer 5 then None else Some (buffer ! 0, read_length buffer))"

definition has_message :: "bytes \<Rightarrow> bool" where
  "has_message buffer =
     (if length buffer < 5 then False
      else if buffer ! 0 = type_byte ARRAY then True
      else length buffer \<ge> unat (5 + read_length buffer))"

text \<open>
  The common shape of \<^verbatim>\<open>parse_simple_string\<close>, \<^verbatim>\<open>parse_error\<close> and
  \<^verbatim>\<open>parse_bulk_string\<close>, which differ in the message they make.
\<close>

definition parse_text :: "(string \<Rightarrow> message) \<Rightarrow> u32 \<Rightarrow> bytes \<Rightarrow> parse_result \<times> bytes" where
  "parse_text make len buffer =
     (if \<not> has_bytes buffer (unat (5 + len)) then (Nullptr, buffer)
      else if length buffer < 5 + unat len then (Crash, buffer)
      else (Parsed (make (string_of_bytes (take (unat len) (drop 5 buffer)))),
            consume_bytes buffer (unat (5 + len))))"

definition parse_simple_string :: "u32 \<Rightarrow> bytes \<Rightarrow> parse_result \<times> bytes" where
  "parse_simple_string = parse_text make_simple_string"

definition parse_error :: "u32 \<Rightarrow> bytes \<Rightarrow> parse_result \<times> bytes" where
  "parse_error = parse_text make_error"

definition parse_bulk_string :: "u32 \<Rightarrow> bytes \<Rightarrow> parse_result \<times> bytes" where
  "parse_bulk_string = parse_text make_bulk_string"

definition read_int64 :: "bytes \<Rightarrow> int64" where
  "read_int64 b = foldl (\<lambda>v i. v OR push_bit (i * 8) (ucast (b ! (5 + i)))) 0 [0..<8]"

definition parse_integer :: "u32 \<Rightarrow> bytes \<Rightarrow> parse_result \<times> bytes" where
  "parse_integer len buffer =
     (if len \<noteq> 8 \<or> \<not> has_bytes buffer (5 + 8) then (Nullptr, buffer)
      else (Parsed (make_integer (read_int64 buffer)), consume_bytes buffer (5 + 8)))"

lemma length_consume [simp]: "length (consume_bytes b n) \<le> length b"
  by (simp add: consume_bytes_def)

lemma length_parse_text: "length (snd (parse_text mk len b)) \<le> length b"
  by (simp add: parse_text_def)

lemma length_parse_integer: "length (snd (parse_integer len b)) \<le> length b"
  by (simp add: parse_integer_def)

lemmas length_parsers = length_parse_text length_parse_integer
  parse_simple_string_def parse_error_def parse_bulk_string_def

text \<open>
  \<^verbatim>\<open>parse_message\<close> and the element loop of \<^verbatim>\<open>parse_array\<close>, with \<open>n\<close> elements still to
  read and those read so far.
\<close>

function parse_message :: "bytes \<Rightarrow> parse_result \<times> bytes"
  and parse_elems :: "nat \<Rightarrow> message option list \<Rightarrow> bytes \<Rightarrow> parse_result \<times> bytes" where
  "parse_message buffer =
     (case read_header buffer of
        None \<Rightarrow> (Nullptr, buffer)
      | Some (t, len) \<Rightarrow>
          if t = type_byte SIMPLE_STRING then parse_simple_string len buffer
          else if t = type_byte ERROR_MSG then parse_error len buffer
          else if t = type_byte INTEGER then parse_integer len buffer
          else if t = type_byte BULK_STRING then parse_bulk_string len buffer
          else if t = type_byte ARRAY then parse_elems (unat len) [] (consume_bytes buffer 5)
          else if t = type_byte NULL_VALUE then (Parsed make_null, consume_bytes buffer 5)
          else (Nullptr, []))"
| "parse_elems n array buffer =
     (if n = 0 then (Parsed (make_array array), buffer)
      else case parse_message buffer of
             (Parsed elem, buffer') \<Rightarrow> parse_elems (n - 1) (array @ [Some elem]) buffer'
           | (r, buffer') \<Rightarrow> (r, buffer'))"
  by pat_completeness auto
termination
proof -
  have len: "parse_message_parse_elems_dom (Inl b) \<Longrightarrow> length (snd (parse_message b)) \<le> length b"
    "parse_message_parse_elems_dom (Inr (n, a, b)) \<Longrightarrow> length (snd (parse_elems n a b)) \<le> length b" for b n a
  proof (induction b and n a b rule: parse_message_parse_elems.pinduct)
    case (1 b)
    then show ?case
      using order_trans[OF _ length_consume[of b 5]]
      by (auto simp: parse_message.psimps length_parsers split: option.splits)
  next
    case (2 n a b)
    then show ?case
      by (auto simp: parse_elems.psimps split: prod.splits parse_result.splits)
  qed
  show ?thesis
  proof (relation "measures [\<lambda>x. case x of Inl b \<Rightarrow> length b | Inr (n, a, b) \<Rightarrow> length b,
      \<lambda>x. case x of Inl b \<Rightarrow> 0 | Inr (n, a, b) \<Rightarrow> Suc n]", goal_cases)
    case (2 b t)
    then show ?case by (auto simp: read_header_def has_bytes_def consume_bytes_def split: if_splits)
  next
    case (4 n a b)
    then show ?case using len(1)[of b] by (cases "parse_message b") (auto simp: le_less)
  qed auto
qed

declare parse_message.simps [simp del] parse_elems.simps [simp del]

section \<open>Utilities\<close>

definition make_command :: "string list \<Rightarrow> message" where
  "make_command args = make_array (map (\<lambda>arg. Some (make_bulk_string arg)) args)"

fun command_loop :: "message option list \<Rightarrow> string list \<Rightarrow> string list" where
  "command_loop [] result = result"
| "command_loop (e # es) result =
     (case e of
        Some m \<Rightarrow> if is_string m then command_loop es (result @ [as_string m]) else []
      | None \<Rightarrow> [])"

definition parse_command :: "message option \<Rightarrow> string list" where
  "parse_command msg =
     (case msg of
        None \<Rightarrow> []
      | Some m \<Rightarrow>
          if \<not> is_array m then []
          else case as_array m of None \<Rightarrow> [] | Some arr \<Rightarrow> command_loop arr [])"

definition ok_response :: message where "ok_response = make_simple_string ''OK''"
definition pong_response :: message where "pong_response = make_simple_string ''PONG''"
definition nil_response :: message where "nil_response = make_null"
definition error_response :: "string \<Rightarrow> message" where "error_response err = make_error err"

fun serialize_messages :: "message option list \<Rightarrow> bytes" where
  "serialize_messages [] = []"
| "serialize_messages (msg # msgs) =
     (case msg of Some m \<Rightarrow> serialize m | None \<Rightarrow> []) @ serialize_messages msgs"

section \<open>Encoding and decoding of integers\<close>

lemma length_le_bytes [simp]: "length (le_bytes32 w) = 4" "length (le_bytes64 v) = 8"
  by (simp_all add: le_bytes32_def le_bytes64_def)

lemma read_length_le [byte_simps]: "read_length (t # le_bytes32 w @ rest) = w"
proof (rule bit_word_eqI)
  fix n :: nat assume "n < LENGTH(32)"
  then consider "n < 8" | "8 \<le> n" "n < 16" | "16 \<le> n" "n < 24" | "24 \<le> n" "n < 32" by fastforce
  then show "bit (read_length (t # le_bytes32 w @ rest)) n \<longleftrightarrow> bit w n"
    by cases (auto simp: read_length_def le_bytes32_def bit_simps)
qed

lemma read_int64_upto:
  "k \<le> 8 \<Longrightarrow> bit (foldl (\<lambda>v i. v OR push_bit (i * 8) (ucast (le_bytes64 w ! i))) (0 :: u64) [0..<k]) n \<longleftrightarrow>
     n < 8 * k \<and> bit w n"
proof (induction k)
  case (Suc k)
  then show ?case by (cases "n < 8 * k") (auto simp: le_bytes64_def bit_simps dest: bit_imp_le_length)
qed simp

lemma read_int64_le [byte_simps]:
  "read_int64 (t # le_bytes32 l @ le_bytes64 w @ rest) = w"
proof -
  have nth: "(t # le_bytes32 l @ le_bytes64 w @ rest) ! (5 + i) = le_bytes64 w ! i"
      "(le_bytes32 l @ le_bytes64 w @ rest) ! (4 + i) = le_bytes64 w ! i" if "i < 8" for i
    using that by (simp_all add: nth_append)
  have "read_int64 (t # le_bytes32 l @ le_bytes64 w @ rest) =
      foldl (\<lambda>v i. v OR push_bit (i * 8) (ucast (le_bytes64 w ! i))) 0 [0..<8]"
    unfolding read_int64_def by (rule foldl_cong) (simp_all add: nth)
  also have "\<dots> = w" by (rule bit_word_eqI) (simp add: read_int64_upto)
  finally show ?thesis .
qed

lemma read_header_le [byte_simps]:
  "read_header (t # le_bytes32 w @ rest) = Some (t, w)"
  by (simp add: read_header_def has_bytes_def read_length_le)

lemma consume_header [byte_simps]: "consume_bytes (t # le_bytes32 w @ rest) 5 = rest"
  by (simp add: consume_bytes_def)

section \<open>Size and round trip\<close>

lemma length_serialize:
  "length (serialize m) = serialized_size m"
  "length (serialize_elems es) = elems_size es"
proof (induction m and es rule: serialize_serialize_elems.induct)
  case (1 t v)
  then show ?case by (cases t; cases v) (auto simp: Let_def as_string_def)
next
  case (3 e es)
  then show ?case by (auto split: option.splits)
qed auto

text \<open>
  Messages that the protocol can carry: the value has the type's variant, no element is null,
  and the lengths fit the 32-bit field with the header added.
\<close>

fun msg_ok :: "message \<Rightarrow> bool" and elems_ok :: "message option list \<Rightarrow> bool" where
  "msg_ok (Message t v) =
     (case t of
        INTEGER \<Rightarrow> (case v of I64 _ \<Rightarrow> True | _ \<Rightarrow> False)
      | ARRAY \<Rightarrow> (case v of Arr arr \<Rightarrow> length arr < 2 ^ 32 \<and> elems_ok arr | _ \<Rightarrow> False)
      | NULL_VALUE \<Rightarrow> v = Monostate
      | _ \<Rightarrow> (case v of Str s \<Rightarrow> length s + 5 < 2 ^ 32 | _ \<Rightarrow> False))"
| "elems_ok [] = True"
| "elems_ok (e # es) = ((case e of Some m \<Rightarrow> msg_ok m | None \<Rightarrow> False) \<and> elems_ok es)"

lemma unat_header:
  "n + 5 < 2 ^ 32 \<Longrightarrow> unat (word_of_nat n :: u32) = n \<and> unat (5 + (word_of_nat n :: u32)) = 5 + n"
  by (simp add: unat_of_nat unat_word_ariths)

lemma parse_text_le:
  assumes "length s + 5 < 2 ^ 32"
  shows "parse_text mk (word_of_nat (length s))
    (t # le_bytes32 (word_of_nat (length s)) @ bytes_of_string s @ rest) = (Parsed (mk s), rest)"
proof -
  note n = unat_header[OF assms]
  have "consume_bytes (t # le_bytes32 (word_of_nat (length s)) @ bytes_of_string s @ rest) (5 + length s) = rest"
    by (auto simp: consume_bytes_def drop_Cons')
  then show ?thesis using n by (simp add: parse_text_def has_bytes_def)
qed

lemmas parse_steps = parse_message.simps read_header_le consume_header parse_simple_string_def
  parse_error_def parse_bulk_string_def parse_text_le

lemma parse_serialize:
  "msg_ok m \<Longrightarrow> parse_message (serialize m @ rest) = (Parsed m, rest)"
  "elems_ok es \<Longrightarrow> parse_elems (length es) acc (serialize_elems es @ rest) = (Parsed (make_array (acc @ es)), rest)"
proof (induction m and es arbitrary: rest and rest acc rule: serialize_serialize_elems.induct)
  case (1 t v)
  show ?case
  proof (cases t)
    case INTEGER
    then obtain w where v: "v = I64 w" using "1.prems" by (auto split: msg_value.splits)
    have "parse_integer 8 (3 # le_bytes32 8 @ le_bytes64 w @ rest) = (Parsed (make_integer w), rest)"
      by (simp add: parse_integer_def has_bytes_def read_int64_le) (simp add: consume_bytes_def)
    then show ?thesis using INTEGER v
      by (simp add: as_integer_def parse_steps make_integer_def)
  next
    case ARRAY
    then obtain arr where v: "v = Arr arr" "length arr < 2 ^ 32" "elems_ok arr"
      using "1.prems" by (auto split: msg_value.splits)
    have "unat (word_of_nat (length arr) :: u32) = length arr" using v(2) by (simp add: unat_of_nat)
    then show ?thesis using ARRAY v "1.IH"[OF ARRAY v(1,3), of "[]" rest]
      by (simp add: parse_steps make_array_def)
  next
    case NULL_VALUE
    have zero: "[0, 0, 0, 0] = le_bytes32 0" by (simp add: le_bytes32_def)
    show ?thesis using NULL_VALUE "1.prems"
      by (simp add: zero parse_steps make_null_def)
  qed (use "1.prems" in \<open>auto simp: as_string_def parse_steps make_simple_string_def make_error_def
      make_bulk_string_def split: msg_value.splits\<close>)
next
  case 2
  then show ?case by (simp add: parse_elems.simps)
next
  case (3 e es)
  then obtain m where e: "e = Some m" "msg_ok m" "elems_ok es" by (auto split: option.splits)
  then show ?case using 3 by (simp add: parse_elems.simps[of "Suc (length es)"])
qed

section \<open>Progress\<close>

lemma length_parse:
  "length (snd (parse_message b)) \<le> length b" "length (snd (parse_elems n a b)) \<le> length b"
proof (induction b and n a b rule: parse_message_parse_elems.induct)
  case (1 b)
  then show ?case
    using order_trans[OF _ length_consume[of b 5]]
    by (auto simp: parse_message.simps[of b] length_parsers split: option.splits)
next
  case (2 n a b)
  then show ?case
    by (auto simp: parse_elems.simps[of n a b] split: prod.splits parse_result.splits)
qed

lemma length_consume5: "length b \<ge> 5 \<Longrightarrow> length (consume_bytes b n) + min n 5 \<le> length b"
  by (auto simp: consume_bytes_def)

lemma parse_text_progress:
  "length b < 2 ^ 32 \<Longrightarrow> parse_text mk len b = (Parsed m, b') \<Longrightarrow> length b' + 5 \<le> length b"
  by (auto simp: parse_text_def has_bytes_def consume_bytes_def unat_word_ariths split: if_splits)

lemma parse_message_progress:
  assumes "length b < 2 ^ 32" "parse_message b = (Parsed m, b')"
  shows "length b' + 5 \<le> length b"
proof -
  have five: "5 \<le> length b"
    using assms by (auto simp: parse_message.simps[of b] read_header_def has_bytes_def split: if_splits)
  have elems: "length (snd (parse_elems n a (consume_bytes b 5))) + 5 \<le> length b" for n a
    using length_parse(2)[of n a "consume_bytes b 5"] length_consume5[OF five, of 5] by simp
  show ?thesis
    using assms five elems[of "unat (read_length b)" "[]"] length_consume5[OF five, of 5]
      parse_text_progress[OF assms(1), of _ _ m b']
    by (auto simp: parse_message.simps[of b] read_header_def has_bytes_def parse_integer_def
        consume_bytes_def parse_simple_string_def parse_error_def parse_bulk_string_def split: if_splits)
qed

section \<open>Input that arrives in pieces\<close>

lemma take_header:
  "5 \<le> n \<Longrightarrow> take n (t # le_bytes32 w @ body) = t # le_bytes32 w @ take (n - 5) body"
  by (simp add: take_Cons')

lemma parse_text_waits:
  "length s + 5 < 2 ^ 32 \<Longrightarrow> length b < length s + 5 \<Longrightarrow>
   parse_text mk (word_of_nat (length s)) b = (Nullptr, b)"
  using unat_header[of "length s"] by (simp add: parse_text_def has_bytes_def)

lemma parse_prefix_waits:
  assumes "msg_ok m" "get_type m \<noteq> ARRAY" "n < length (serialize m)"
  shows "parse_message (take n (serialize m)) = (Nullptr, take n (serialize m))"
proof (cases "n < 5")
  case True
  then show ?thesis by (simp add: parse_message.simps read_header_def has_bytes_def)
next
  case False
  obtain t v where m: "m = Message t v" by (cases m)
  show ?thesis
  proof (cases t)
    case INTEGER
    then show ?thesis using False assms m
      by (auto simp: take_header parse_steps parse_integer_def has_bytes_def split: msg_value.splits)
  qed (use False assms m in \<open>auto simp: take_header parse_steps parse_text_waits as_string_def Let_def
      split: msg_value.splits\<close>)
qed

lemma has_message_serialize:
  assumes "msg_ok m"
  shows "has_message (serialize m @ rest)"
proof (cases m)
  case (Message t v)
  have "5 \<le> serialized_size m" by (cases m) simp
  then have len: "length (serialize m @ rest) \<ge> 5" by (simp add: length_serialize del: serialize.simps)
  have head: "(serialize m @ rest) ! 0 = type_byte t" using Message by simp
  show ?thesis
  proof (cases "t = ARRAY")
    case True
    then show ?thesis using len head by (simp add: has_message_def)
  next
    case False
    have size: "unat (5 + read_length (serialize m @ rest)) \<le> length (serialize m)"
    proof (cases t)
      case INTEGER
      then show ?thesis using Message by (simp add: read_length_le)
    next
      case NULL_VALUE
      have "[0, 0, 0, 0] = le_bytes32 0" by (simp add: le_bytes32_def)
      then show ?thesis using Message NULL_VALUE by (simp add: read_length_le)
    qed (use Message assms False unat_header in \<open>auto simp: read_length_le as_string_def Let_def split: msg_value.splits\<close>)
    then show ?thesis using len by (simp add: has_message_def)
  qed
qed

lemma serialize_nonempty [simp]: "serialize m \<noteq> []"
  by (cases m) simp

section \<open>The format as a codec\<close>

text \<open>What a caller of \<^verbatim>\<open>parse_message\<close> gets when there is a message, and the buffer that is left.\<close>

definition next_message :: "bytes \<Rightarrow> (message \<times> bytes) option" where
  "next_message b = (case parse_message b of (Parsed m, rest) \<Rightarrow> Some (m, rest) | _ \<Rightarrow> None)"

interpretation wire: codec serialize next_message msg_ok
proof
  show "next_message (serialize m @ rest) = Some (m, rest)" if "msg_ok m" for m rest
    using parse_serialize(1)[OF that] by (simp add: next_message_def)
  show "next_message [] = None" by code_simp
qed

section \<open>Properties\<close>

text \<open>
  C7: Parsing what a message was serialised to gives the message back and leaves what follows in
  the buffer, for every message the format can carry: nested arrays, all integers, strings of
  arbitrary bytes up to the 32-bit length field.
\<close>

theorem message_round_trip:
  assumes "msg_ok m"
  shows "parse_message (feed (serialize m) rest) = (Parsed m, rest)"
  using parse_serialize(1)[OF assms] by (simp add: feed_def)

theorem message_round_trip_witness:
  "parse_message (feed (serialize (make_array [Some (make_integer (-1)), Some make_null])) [7]) =
     (Parsed (make_array [Some (make_integer (-1)), Some make_null]), [7])"
  by (rule message_round_trip) (simp add: make_array_def make_integer_def make_null_def)

text \<open>
  C8: Messages written one after the other on a stream are read back one by one, with what follows left in the buffer,
  and different sequences of messages never produce the same bytes: no message is the beginning of another.
\<close>

theorem message_stream_unambiguous:
  assumes "\<forall>m \<in> set ms. msg_ok m" "\<forall>m \<in> set ms'. msg_ok m"
  shows "decode_n next_message (length ms) (concat (map serialize ms) @ rest) = Some (ms, rest) \<and>
    (concat (map serialize ms) = concat (map serialize ms') \<longleftrightarrow> ms = ms')"
  using wire.decode_stream[OF assms(1)] wire.stream_unambiguous[OF assms] by blast

theorem message_stream_unambiguous_witness:
  "decode_n next_message (length [make_null, make_bulk_string ''a''])
     (concat (map serialize [make_null, make_bulk_string ''a'']) @ [1]) = Some ([make_null, make_bulk_string ''a''], [1])"
  by (rule message_stream_unambiguous[of _ "[]", THEN conjunct1]) (simp_all add: make_null_def make_bulk_string_def)

text \<open>
  \<^verbatim>\<open>serialized_size\<close> is the number of bytes \<^verbatim>\<open>serialize\<close> produces, for every
  message, also one whose value does not have the variant of its type or that has null elements.
\<close>

theorem serialized_size_exact: "serialized_size m = length (serialize m)"
  by (rule length_serialize(1)[symmetric])

lemma command_loop_bulk:
  "command_loop (map (\<lambda>arg. Some (make_bulk_string arg)) args) result = result @ args"
  by (induction args arbitrary: result) (auto simp: make_bulk_string_def is_string_def as_string_def)

lemma parse_make_command: "parse_command (Some (make_command args)) = args"
  by (simp add: parse_command_def make_command_def make_array_def is_array_def as_array_def command_loop_bulk)

lemma make_command_ok:
  assumes "length args < 2 ^ 32" "\<forall>a \<in> set args. length a + 5 < 2 ^ 32"
  shows "msg_ok (make_command args)"
proof -
  have "elems_ok (map (\<lambda>arg. Some (make_bulk_string arg)) args)"
    using assms(2) by (induction args) (auto simp: make_bulk_string_def)
  then show ?thesis using assms(1) by (simp add: make_command_def make_array_def)
qed

text \<open>
  A command survives the wire: for arguments that fit the length field,
  \<^verbatim>\<open>parse_command\<close> of the parsed bytes of \<^verbatim>\<open>make_command\<close> gives the arguments back.
\<close>

theorem command_round_trip:
  assumes "length args < 2 ^ 32" "\<forall>a \<in> set args. length a + 5 < 2 ^ 32"
  shows "\<exists>m. parse_message (serialize (make_command args) @ rest) = (Parsed m, rest) \<and>
    parse_command (Some m) = args"
  using parse_serialize(1)[OF make_command_ok[OF assms]] parse_make_command by blast

theorem command_round_trip_witness:
  "\<exists>m. parse_message (serialize (make_command [''SET'', ''k'', ''v'']) @ []) = (Parsed m, []) \<and>
    parse_command (Some m) = [''SET'', ''k'', ''v'']"
  by (rule command_round_trip) simp_all

text \<open>
  C27: A message other than an array may arrive in pieces: on a strict prefix the parser answers
  null and keeps the buffer as it is, and once the rest is fed it returns the message.
\<close>

theorem split_message_waits:
  assumes "msg_ok m" "get_type m \<noteq> ARRAY" "n < length (serialize m)"
  shows "parse_message (take n (serialize m)) = (Nullptr, take n (serialize m)) \<and>
    parse_message (feed (take n (serialize m)) (drop n (serialize m) @ rest)) = (Parsed m, rest)"
proof
  show "parse_message (take n (serialize m)) = (Nullptr, take n (serialize m))"
    using assms by (rule parse_prefix_waits)
  have "feed (take n (serialize m)) (drop n (serialize m) @ rest) = serialize m @ rest"
    by (simp add: feed_def flip: append_assoc)
  then show "parse_message (feed (take n (serialize m)) (drop n (serialize m) @ rest)) = (Parsed m, rest)"
    using parse_serialize(1)[OF assms(1)] by simp
qed

theorem split_message_waits_witness:
  "parse_message (take 6 (serialize (make_bulk_string ''abc''))) =
     (Nullptr, take 6 (serialize (make_bulk_string ''abc'')))"
  using split_message_waits[of "make_bulk_string ''abc''" 6 "[]"]
  by (simp add: make_bulk_string_def length_serialize as_string_def)

text \<open>
  An array that arrives in pieces is lost: \<^verbatim>\<open>parse_array\<close> consumes the header and the
  complete elements before it notices that data is missing, so that after the rest arrives the
  parser returns the missing element as a message of its own; \<^verbatim>\<open>has_message\<close> answers true for
  the incomplete array.
\<close>

theorem split_array_is_lost:
  "let cmd = serialize (make_command [''GET'', ''key'']);
       (r1, b1) = parse_message (take 15 cmd);
       (r2, b2) = parse_message (feed b1 (drop 15 cmd))
   in has_message (take 15 cmd) \<and> r1 = Nullptr \<and> r2 = Parsed (make_bulk_string ''key'') \<and> b2 = []"
  by code_simp

text \<open>
  An integer message whose length field is not 8 blocks the parser for good: whatever is fed
  after it, \<^verbatim>\<open>parse_message\<close> answers null and consumes nothing, while \<^verbatim>\<open>has_message\<close>
  answers true as soon as the announced bytes are there.
\<close>

theorem bad_integer_length_blocks:
  assumes "len \<noteq> 8"
  shows "parse_message (type_byte INTEGER # le_bytes32 len @ rest) =
      (Nullptr, type_byte INTEGER # le_bytes32 len @ rest) \<and>
    (unat (5 + len) \<le> 5 + length rest \<longrightarrow> has_message (type_byte INTEGER # le_bytes32 len @ rest))"
  using assms by (simp add: parse_steps parse_integer_def has_message_def read_length_le)

theorem bad_integer_length_blocks_witness:
  "parse_message (type_byte INTEGER # le_bytes32 4 @ [1, 2, 3, 4]) =
     (Nullptr, type_byte INTEGER # le_bytes32 4 @ [1, 2, 3, 4])"
  using bad_integer_length_blocks[of 4 "[1, 2, 3, 4]"] by simp

text \<open>
  C37: A five-byte header can crash the parser: for a string, error or bulk string whose length
  field is at least 2^32 - 5 the sum \<^verbatim>\<open>5 + length\<close> wraps to at most 4, the check for enough
  bytes passes, and the string is read from beyond the buffer. Below that bound no text message
  does.
\<close>

theorem length_wrap_crashes:
  assumes "t \<in> {SIMPLE_STRING, ERROR_MSG, BULK_STRING}"
  shows "fst (parse_message (type_byte t # le_bytes32 len @ rest)) = Crash \<longleftrightarrow>
    2 ^ 32 - 5 \<le> unat len \<and> length rest < unat len"
proof -
  have bound: "unat len < 2 ^ 32" using unsigned_less[of len] by simp
  have wrap: "unat (5 + len) = (if 2 ^ 32 - 5 \<le> unat len then unat len + 5 - 2 ^ 32 else 5 + unat len)"
    using bound by (auto simp: unat_word_ariths mod_if)
  then have "fst (parse_text mk len (type_byte t # le_bytes32 len @ rest)) = Crash \<longleftrightarrow>
      2 ^ 32 - 5 \<le> unat len \<and> length rest < unat len" for mk
    using bound by (auto simp: parse_text_def has_bytes_def)
  then show ?thesis using assms by (auto simp: parse_steps)
qed

theorem length_wrap_crashes_witness:
  "fst (parse_message (type_byte BULK_STRING # le_bytes32 0xFFFFFFFF @ [])) = Crash"
  using length_wrap_crashes[of BULK_STRING "0xFFFFFFFF" "[]"] by simp

text \<open>
  The parser makes progress and never invents input: it never leaves more in the buffer than
  there was, and each message it returns consumed at least the five bytes of a header, as long
  as the buffer is shorter than 4 GiB.
\<close>

theorem parser_progress:
  "length (snd (parse_message b)) \<le> length b \<and>
   (length b < 2 ^ 32 \<longrightarrow> parse_message b = (Parsed m, b') \<longrightarrow> length b' + 5 \<le> length b)"
  using length_parse(1)[of b] parse_message_progress[of b m b'] by blast

theorem parser_progress_witness:
  "length (snd (parse_message (serialize make_null))) + 5 \<le> length (serialize make_null)"
proof -
  have "parse_message (serialize make_null) = (Parsed make_null, [])"
    by code_simp
  then show ?thesis using parser_progress[of "serialize make_null" make_null "[]"]
    by (simp add: make_null_def)
qed

end
