(* ===== verification/Kv_Store.thy ===== *)
theory Kv_Store
  imports Concurrent_Table Sorted_Set Protocol
begin

text \<open>
  \<^verbatim>\<open>KVStore\<close> of \<^verbatim>\<open>src/src/server/kv_store.{hpp,cpp}\<close>: the command handlers, the dispatch by
  command name and the statistics. Each handler is one function from the store and the arguments
  to the store and the reply. The loops of \<^verbatim>\<open>DEL\<close> and \<^verbatim>\<open>EXISTS\<close> take the table operation
  they call as a parameter, so that what they do follows from the contract of a string table
  alone. \<open>redis_step\<close> is the abstract specification: commands on a map from keys to
  values; the theorem is that the store implements it. The counters are natural numbers
  (\<^verbatim>\<open>size_t\<close> in the source); that an allocation fails is not modelled.
\<close>

section \<open>State\<close>

record kv_store =
  kv_table :: hash_table
  kv_sorted_sets :: ss_manager
  commands_processed :: nat
  get_commands :: nat
  set_commands :: nat
  del_commands :: nat

definition kv_new :: "hash_table \<Rightarrow> kv_store" where
  "kv_new t = \<lparr>kv_table = t, kv_sorted_sets = mgr_new, commands_processed = 0, get_commands = 0,
               set_commands = 0, del_commands = 0\<rparr>"

section \<open>Text\<close>

text \<open>\<^verbatim>\<open>std::toupper\<close> in the C locale, which the server runs in.\<close>

definition toupper :: "char \<Rightarrow> char" where
  "toupper c = (if CHR ''a'' \<le> c \<and> c \<le> CHR ''z'' then char_of (of_char c - 32 :: nat) else c)"

definition to_upper :: "string \<Rightarrow> string" where
  "to_upper str = map toupper str"

definition quoted :: "string \<Rightarrow> string" where
  "quoted s = [CHR 0x27] @ s @ [CHR 0x27]"

definition wrong_arguments :: "string \<Rightarrow> message" where
  "wrong_arguments cmd = error_response (''ERR wrong number of arguments for '' @ quoted cmd)"

definition crlf :: string where "crlf = [CHR 0x0D, CHR 0x0A]"

section \<open>Handlers\<close>

definition handle_get :: "kv_store \<Rightarrow> string list \<Rightarrow> kv_store \<times> message" where
  "handle_get s args =
     (if length args \<noteq> 2 then (s, wrong_arguments ''GET'')
      else let s1 = s\<lparr>get_commands := get_commands s + 1\<rparr>
           in case ht_get (kv_table s1) (args ! 1) of
                Some val \<Rightarrow> (s1, make_bulk_string val)
              | None \<Rightarrow> (s1, nil_response))"

definition handle_set :: "kv_store \<Rightarrow> string list \<Rightarrow> kv_store \<times> message" where
  "handle_set s args =
     (if length args < 3 then (s, wrong_arguments ''SET'')
      else let s1 = s\<lparr>set_commands := set_commands s + 1\<rparr>
           in (s1\<lparr>kv_table := fst (ht_set (kv_table s1) (args ! 1) (args ! 2))\<rparr>, ok_response))"

fun del_loop :: "('t \<Rightarrow> string \<Rightarrow> 't \<times> bool) \<Rightarrow> 't \<Rightarrow> string list \<Rightarrow> int64 \<Rightarrow> 't \<times> int64" where
  "del_loop del t [] deleted = (t, deleted)"
| "del_loop del t (k # ks) deleted =
     (let (t', found) = del t k in del_loop del t' ks (if found then deleted + 1 else deleted))"

definition handle_del :: "kv_store \<Rightarrow> string list \<Rightarrow> kv_store \<times> message" where
  "handle_del s args =
     (if length args < 2 then (s, wrong_arguments ''DEL'')
      else let s1 = s\<lparr>del_commands := del_commands s + 1\<rparr>;
               (t, deleted) = del_loop ht_del (kv_table s1) (tl args) 0
           in (s1\<lparr>kv_table := t\<rparr>, make_integer deleted))"

fun exists_loop :: "('t \<Rightarrow> string \<Rightarrow> bool) \<Rightarrow> 't \<Rightarrow> string list \<Rightarrow> int64 \<Rightarrow> int64" where
  "exists_loop ex t [] n = n"
| "exists_loop ex t (k # ks) n = exists_loop ex t ks (if ex t k then n + 1 else n)"

definition handle_exists :: "kv_store \<Rightarrow> string list \<Rightarrow> kv_store \<times> message" where
  "handle_exists s args =
     (if length args < 2 then (s, wrong_arguments ''EXISTS'')
      else (s, make_integer (exists_loop ht_exists (kv_table s) (tl args) 0)))"

definition handle_keys :: "kv_store \<Rightarrow> string list \<Rightarrow> kv_store \<times> message" where
  "handle_keys s args =
     (if length args \<noteq> 2 then (s, wrong_arguments ''KEYS'')
      else (s, make_array (map (\<lambda>key. Some (make_bulk_string key)) (ht_keys (kv_table s) (args ! 1)))))"

definition handle_ping :: "kv_store \<Rightarrow> string list \<Rightarrow> kv_store \<times> message" where
  "handle_ping s args =
     (if length args = 1 then (s, pong_response)
      else if length args = 2 then (s, make_bulk_string (args ! 1))
      else (s, wrong_arguments ''PING''))"

definition handle_echo :: "kv_store \<Rightarrow> string list \<Rightarrow> kv_store \<times> message" where
  "handle_echo s args =
     (if length args \<noteq> 2 then (s, wrong_arguments ''ECHO'') else (s, make_bulk_string (args ! 1)))"

definition handle_flushdb :: "kv_store \<Rightarrow> string list \<Rightarrow> kv_store \<times> message" where
  "handle_flushdb s args =
     (if length args \<noteq> 1 then (s, wrong_arguments ''FLUSHDB'')
      else (s\<lparr>kv_table := ht_clear (kv_table s)\<rparr>, ok_response))"

definition handle_dbsize :: "kv_store \<Rightarrow> string list \<Rightarrow> kv_store \<times> message" where
  "handle_dbsize s args =
     (if length args \<noteq> 1 then (s, wrong_arguments ''DBSIZE'')
      else (s, make_integer (word_of_nat (ht_size (kv_table s)))))"

text \<open>The lines of \<^verbatim>\<open>INFO\<close>, from the size read for the memory, the command counter and the size read for the keyspace.\<close>

definition info_lines :: "nat \<Rightarrow> nat \<Rightarrow> nat \<Rightarrow> string" where
  "info_lines size1 processed size2 =
     ''# Server'' @ crlf @ ''redis_version:ScuffedRedis-0.1.0'' @ crlf @ ''redis_mode:standalone'' @ crlf @
     ''process_id:'' @ show_nat 1234 @ crlf @ crlf @
     ''# Clients'' @ crlf @ ''connected_clients:1'' @ crlf @ crlf @
     ''# Memory'' @ crlf @ ''used_memory:'' @ show_nat (size1 * 100) @ crlf @ crlf @
     ''# Stats'' @ crlf @ ''total_commands_processed:'' @ show_nat processed @ crlf @
     ''instantaneous_ops_per_sec:0'' @ crlf @ crlf @
     ''# Keyspace'' @ crlf @ ''db0:keys='' @ show_nat size2 @ '',expires=0'' @ crlf"

definition info_text :: "kv_store \<Rightarrow> string" where
  "info_text s = info_lines (ht_size (kv_table s)) (commands_processed s) (ht_size (kv_table s))"

definition handle_info :: "kv_store \<Rightarrow> string list \<Rightarrow> kv_store \<times> message" where
  "handle_info s args = (s, make_bulk_string (info_text s))"

section \<open>Dispatch\<close>

text \<open>The map \<^verbatim>\<open>handlers_\<close> that \<^verbatim>\<open>init_handlers\<close> fills.\<close>

definition handlers :: "(string \<times> (kv_store \<Rightarrow> string list \<Rightarrow> kv_store \<times> message)) list" where
  "handlers =
     [(''GET'', handle_get), (''SET'', handle_set), (''DEL'', handle_del), (''EXISTS'', handle_exists),
      (''KEYS'', handle_keys), (''PING'', handle_ping), (''ECHO'', handle_echo),
      (''FLUSHDB'', handle_flushdb), (''DBSIZE'', handle_dbsize), (''INFO'', handle_info)]"

definition execute_raw :: "kv_store \<Rightarrow> string list \<Rightarrow> kv_store \<times> message" where
  "execute_raw s args =
     (if args = [] then (s, error_response ''ERR empty command'')
      else case map_of handlers (to_upper (args ! 0)) of
             None \<Rightarrow> (s, error_response (''ERR unknown command '' @ quoted (args ! 0)))
           | Some handler \<Rightarrow> handler s args)"

definition execute_command :: "kv_store \<Rightarrow> message option \<Rightarrow> kv_store \<times> message" where
  "execute_command s request =
     (let s1 = s\<lparr>commands_processed := commands_processed s + 1\<rparr>;
          args = parse_command request
      in if args = [] then (s1, error_response ''ERR invalid command format'')
         else execute_raw s1 args)"

definition kv_clear :: "kv_store \<Rightarrow> kv_store" where
  "kv_clear s = s\<lparr>kv_table := ht_clear (kv_table s), commands_processed := 0, get_commands := 0,
                  set_commands := 0, del_commands := 0\<rparr>"

record kv_stats =
  keys_count :: nat
  memory_usage :: nat
  st_commands_processed :: nat
  st_get_commands :: nat
  st_set_commands :: nat
  st_del_commands :: nat

definition kv_get_stats :: "kv_store \<Rightarrow> kv_stats" where
  "kv_get_stats s =
     \<lparr>keys_count = ht_size (kv_table s), memory_usage = ht_size (kv_table s) * 100,
      st_commands_processed = commands_processed s, st_get_commands = get_commands s,
      st_set_commands = set_commands s, st_del_commands = del_commands s\<rparr>"

section \<open>The loops over keys, for any table\<close>

context kv_table
begin

lemma del_loop_correct:
  "invar t \<Longrightarrow> invar (fst (del_loop tdel t ks n)) \<and> tmap (fst (del_loop tdel t ks n)) = tmap t |` (- set ks) \<and>
   snd (del_loop tdel t ks n) = n + word_of_nat (card (set ks \<inter> dom (tmap t)))"
proof (induction ks arbitrary: t n)
  case Nil
  then show ?case by simp
next
  case (Cons k ks)
  let ?t1 = "fst (tdel t k)"
  let ?D = "dom (tmap t)"
  have t1: "invar ?t1" "tmap ?t1 = (tmap t)(k := None)" "snd (tdel t k) \<longleftrightarrow> k \<in> ?D"
    using Cons.prems by (auto simp: invars maps domIff)
  have dom1: "dom ((tmap t)(k := None)) = ?D - {k}" by auto
  have map1: "((tmap t)(k := None)) |` (- set ks) = tmap t |` (- set (k # ks))"
    by (auto simp: restrict_map_def fun_eq_iff)
  have sets: "insert k (set ks) \<inter> ?D =
      (if k \<in> ?D then insert k (set ks \<inter> (?D - {k})) else set ks \<inter> (?D - {k}))" by auto
  have count: "card (set (k # ks) \<inter> ?D) = (if k \<in> ?D then 1 else 0) + card (set ks \<inter> (?D - {k}))"
    unfolding list.set sets by auto
  have loop: "del_loop tdel t (k # ks) n = del_loop tdel ?t1 ks (if k \<in> ?D then n + 1 else n)"
    using t1(3) by (simp add: case_prod_beta Let_def)
  have IH: "invar (fst (del_loop tdel ?t1 ks n')) \<and>
      tmap (fst (del_loop tdel ?t1 ks n')) = tmap t |` (- set (k # ks)) \<and>
      snd (del_loop tdel ?t1 ks n') = n' + word_of_nat (card (set ks \<inter> (?D - {k})))" for n'
    using Cons.IH[OF t1(1), of n'] unfolding t1(2) dom1 map1 .
  show ?case unfolding loop count using IH by simp
qed

lemma exists_loop_correct:
  "invar t \<Longrightarrow> exists_loop texists t ks n = n + word_of_nat (length (filter (\<lambda>k. k \<in> dom (tmap t)) ks))"
  by (induction ks arbitrary: n) (auto simp: exists_map domIff)

end

section \<open>The abstract store\<close>

text \<open>Whether a command takes that many arguments, the command name included.\<close>

fun arity_ok :: "string \<Rightarrow> nat \<Rightarrow> bool" where
  "arity_ok cmd n =
     (if cmd \<in> {''GET'', ''KEYS'', ''ECHO''} then n = 2
      else if cmd = ''SET'' then 3 \<le> n
      else if cmd \<in> {''DEL'', ''EXISTS''} then 2 \<le> n
      else if cmd = ''PING'' then n = 1 \<or> n = 2
      else if cmd \<in> {''FLUSHDB'', ''DBSIZE''} then n = 1
      else cmd = ''INFO'')"

definition known_commands :: "string list" where
  "known_commands = [''GET'', ''SET'', ''DEL'', ''EXISTS'', ''KEYS'', ''PING'', ''ECHO'', ''FLUSHDB'',
     ''DBSIZE'', ''INFO'']"

text \<open>
  A command on a map from keys to values: the map before, the arguments, the map after and the
  reply. The order of \<^verbatim>\<open>KEYS\<close> and the text of \<^verbatim>\<open>INFO\<close> are left open.
\<close>

inductive redis_step ::
  "(string \<Rightarrow> string option) \<Rightarrow> string list \<Rightarrow> (string \<Rightarrow> string option) \<Rightarrow> message \<Rightarrow> bool" where
  get_hit: "to_upper c = ''GET'' \<Longrightarrow> m k = Some v \<Longrightarrow> redis_step m [c, k] m (make_bulk_string v)"
| get_miss: "to_upper c = ''GET'' \<Longrightarrow> m k = None \<Longrightarrow> redis_step m [c, k] m make_null"
| set: "to_upper c = ''SET'' \<Longrightarrow> redis_step m (c # k # v # opts) (m(k \<mapsto> v)) (make_simple_string ''OK'')"
| del: "to_upper c = ''DEL'' \<Longrightarrow> ks \<noteq> [] \<Longrightarrow>
    redis_step m (c # ks) (m |` (- set ks)) (make_integer (word_of_nat (card (set ks \<inter> dom m))))"
| exists: "to_upper c = ''EXISTS'' \<Longrightarrow> ks \<noteq> [] \<Longrightarrow>
    redis_step m (c # ks) m (make_integer (word_of_nat (length (filter (\<lambda>k. k \<in> dom m) ks))))"
| keys: "to_upper c = ''KEYS'' \<Longrightarrow> distinct ks \<Longrightarrow> set ks = {k \<in> dom m. matches_pattern k p} \<Longrightarrow>
    redis_step m [c, p] m (make_array (map (\<lambda>k. Some (make_bulk_string k)) ks))"
| ping: "to_upper c = ''PING'' \<Longrightarrow> redis_step m [c] m (make_simple_string ''PONG'')"
| ping_text: "to_upper c = ''PING'' \<Longrightarrow> redis_step m [c, t] m (make_bulk_string t)"
| echo: "to_upper c = ''ECHO'' \<Longrightarrow> redis_step m [c, t] m (make_bulk_string t)"
| flushdb: "to_upper c = ''FLUSHDB'' \<Longrightarrow> redis_step m [c] Map.empty (make_simple_string ''OK'')"
| dbsize: "to_upper c = ''DBSIZE'' \<Longrightarrow> redis_step m [c] m (make_integer (word_of_nat (card (dom m))))"
| info: "to_upper c = ''INFO'' \<Longrightarrow> redis_step m (c # rest) m (make_bulk_string txt)"
| wrong_arity: "to_upper c = cmd \<Longrightarrow> cmd \<in> set known_commands \<Longrightarrow> \<not> arity_ok cmd (length (c # rest)) \<Longrightarrow>
    redis_step m (c # rest) m (make_error (''ERR wrong number of arguments for '' @ quoted cmd))"
| unknown: "to_upper c \<notin> set known_commands \<Longrightarrow>
    redis_step m (c # rest) m (make_error (''ERR unknown command '' @ quoted c))"
| empty_command: "redis_step m [] m (make_error ''ERR empty command'')"

definition kv_map :: "kv_store \<Rightarrow> string \<Rightarrow> string option" where
  "kv_map s = ht_map (kv_table s)"

definition kv_wf :: "kv_store \<Rightarrow> bool" where
  "kv_wf s = (ht_wf (kv_table s) \<and> mgr_wf (kv_sorted_sets s))"

text \<open>A handler implements its command: it keeps the invariant and takes a step of the abstract store.\<close>

definition implements :: "string \<Rightarrow> (kv_store \<Rightarrow> string list \<Rightarrow> kv_store \<times> message) \<Rightarrow> bool" where
  "implements cmd h =
     (\<forall>s c rest. kv_wf s \<longrightarrow> to_upper c = cmd \<longrightarrow>
        kv_wf (fst (h s (c # rest))) \<and>
        redis_step (kv_map s) (c # rest) (kv_map (fst (h s (c # rest)))) (snd (h s (c # rest))))"

lemmas kv_defs = implements_def kv_wf_def kv_map_def
lemmas reply_defs = ok_response_def pong_response_def nil_response_def error_response_def wrong_arguments_def

lemma wrong_arity_step:
  "to_upper c = cmd \<Longrightarrow> cmd \<in> set known_commands \<Longrightarrow> \<not> arity_ok cmd (Suc (length rest)) \<Longrightarrow>
   redis_step m (c # rest) m (wrong_arguments cmd)"
  using redis_step.wrong_arity[of c cmd rest m] by (simp add: wrong_arguments_def error_response_def)

lemma length1: "length xs = Suc 0 \<longleftrightarrow> (\<exists>x. xs = [x])"
  by (auto simp: length_Suc_conv)

lemma implementsI:
  "(\<And>s c rest. kv_wf s \<Longrightarrow> to_upper c = cmd \<Longrightarrow> kv_wf (fst (h s (c # rest))) \<and>
      redis_step (kv_map s) (c # rest) (kv_map (fst (h s (c # rest)))) (snd (h s (c # rest)))) \<Longrightarrow>
   implements cmd h"
  by (simp add: implements_def)

lemma get_implements: "implements ''GET'' handle_get"
  by (auto simp: kv_defs handle_get_def Let_def length1 ht.get_map nil_response_def
      split: option.splits intro: redis_step.get_hit redis_step.get_miss
      intro!: wrong_arity_step simp: known_commands_def)

lemma set_implements: "implements ''SET'' handle_set"
proof (rule implementsI, goal_cases)
  case (1 s c rest)
  note a = 1[unfolded kv_wf_def]
  show ?case
  proof (cases "length rest < 2")
    case True
    then show ?thesis using 1 by (auto simp: handle_set_def known_commands_def intro!: wrong_arity_step)
  next
    case False
    then obtain k v opts where r: "rest = k # v # opts" by (cases rest; cases "tl rest") auto
    then show ?thesis using a redis_step.set[OF a(2), of "ht_map (kv_table s)" k v opts]
      by (simp add: kv_wf_def kv_map_def handle_set_def Let_def ok_response_def ht.invars ht.maps)
  qed
qed

lemma del_implements: "implements ''DEL'' handle_del"
proof (rule implementsI, goal_cases)
  case (1 s c rest)
  note a = 1[unfolded kv_wf_def]
  show ?case
  proof (cases "rest = []")
    case True
    then show ?thesis using 1 by (auto simp: handle_del_def known_commands_def intro!: wrong_arity_step)
  next
    case False
    then have len: "\<not> length (c # rest) < 2" by (cases rest) auto
    show ?thesis
      using len a redis_step.del[OF a(2) False, of "ht_map (kv_table s)"]
        ht.del_loop_correct[of "kv_table s" rest 0]
      by (simp add: kv_wf_def kv_map_def handle_del_def Let_def case_prod_beta del: length_Cons)
  qed
qed

lemma exists_implements: "implements ''EXISTS'' handle_exists"
proof (rule implementsI, goal_cases)
  case (1 s c rest)
  note a = 1[unfolded kv_wf_def]
  show ?case
  proof (cases "rest = []")
    case True
    then show ?thesis using 1 by (auto simp: handle_exists_def known_commands_def intro!: wrong_arity_step)
  next
    case False
    then have len: "\<not> length (c # rest) < 2" by (cases rest) auto
    show ?thesis
      using len a redis_step.exists[OF a(2) False, of "ht_map (kv_table s)"]
        ht.exists_loop_correct[of "kv_table s" rest 0]
      by (simp add: kv_wf_def kv_map_def handle_exists_def del: length_Cons)
  qed
qed

lemma keys_implements: "implements ''KEYS'' handle_keys"
  by (auto simp: kv_defs handle_keys_def length1 ht.keys_set ht.keys_distinct known_commands_def
      intro!: redis_step.keys wrong_arity_step)

lemma ping_implements: "implements ''PING'' handle_ping"
  by (auto simp: kv_defs handle_ping_def length1 pong_response_def known_commands_def
      intro: redis_step.ping redis_step.ping_text intro!: wrong_arity_step)

lemma echo_implements: "implements ''ECHO'' handle_echo"
  by (auto simp: kv_defs handle_echo_def length1 known_commands_def
      intro: redis_step.echo intro!: wrong_arity_step)

lemma flushdb_implements: "implements ''FLUSHDB'' handle_flushdb"
  by (auto simp: kv_defs handle_flushdb_def ok_response_def ht.invars ht.maps known_commands_def
      intro: redis_step.flushdb intro!: wrong_arity_step)

lemma dbsize_implements: "implements ''DBSIZE'' handle_dbsize"
  by (auto simp: kv_defs handle_dbsize_def ht.size_card known_commands_def
      intro: redis_step.dbsize intro!: wrong_arity_step)

lemma info_implements: "implements ''INFO'' handle_info"
  by (auto simp: kv_defs handle_info_def intro: redis_step.info)

lemmas all_implement = get_implements set_implements del_implements exists_implements keys_implements
  ping_implements echo_implements flushdb_implements dbsize_implements info_implements

lemma handler_implements: "(cmd, h) \<in> set handlers \<Longrightarrow> implements cmd h"
  unfolding handlers_def using all_implement by auto

lemma known_handlers: "map fst handlers = known_commands"
  by (simp add: handlers_def known_commands_def)

lemma execute_raw_step:
  assumes "kv_wf s"
  shows "kv_wf (fst (execute_raw s args)) \<and>
    redis_step (kv_map s) args (kv_map (fst (execute_raw s args))) (snd (execute_raw s args))"
proof (cases args)
  case Nil
  then show ?thesis using assms by (simp add: execute_raw_def error_response_def redis_step.empty_command)
next
  case (Cons c rest)
  show ?thesis
  proof (cases "map_of handlers (to_upper c)")
    case None
    then have "to_upper c \<notin> set known_commands" by (simp add: map_of_eq_None_iff flip: known_handlers)
    then show ?thesis using None Cons assms redis_step.unknown[of c "kv_map s" rest]
      by (simp add: execute_raw_def error_response_def)
  next
    case (Some h)
    then have "implements (to_upper c) h" using handler_implements map_of_SomeD by fastforce
    then show ?thesis using Some Cons assms by (simp add: execute_raw_def implements_def)
  qed
qed

text \<open>Handlers do not look at the counter of processed commands except for \<^verbatim>\<open>INFO\<close>, and never change it.\<close>

lemma execute_raw_counter: "commands_processed (fst (execute_raw s args)) = commands_processed s"
  by (auto simp: execute_raw_def handlers_def handle_get_def handle_set_def handle_del_def handle_exists_def
      handle_keys_def handle_ping_def handle_echo_def handle_flushdb_def handle_dbsize_def handle_info_def
      Let_def case_prod_beta split: option.splits if_splits)

lemma execute_command_step:
  assumes "kv_wf s"
  shows "kv_wf (fst (execute_command s req)) \<and>
    commands_processed (fst (execute_command s req)) = commands_processed s + 1 \<and>
    (if parse_command req = []
     then kv_map (fst (execute_command s req)) = kv_map s \<and>
       snd (execute_command s req) = make_error ''ERR invalid command format''
     else redis_step (kv_map s) (parse_command req) (kv_map (fst (execute_command s req)))
       (snd (execute_command s req)))"
proof -
  let ?s1 = "s\<lparr>commands_processed := commands_processed s + 1\<rparr>"
  have "kv_wf ?s1" "kv_map ?s1 = kv_map s" using assms by (simp_all add: kv_wf_def kv_map_def)
  then show ?thesis using execute_raw_step[of ?s1 "parse_command req"] execute_raw_counter[of ?s1]
    by (simp add: execute_command_def Let_def error_response_def)
qed

lemma kv_new_wf: "ht_wf t \<Longrightarrow> kv_wf (kv_new t)"
  by (simp add: kv_wf_def kv_new_def mgr_new_wf)

lemma kv_clear_wf: "kv_wf s \<Longrightarrow> kv_wf (kv_clear s) \<and> kv_map (kv_clear s) = Map.empty"
  by (simp add: kv_wf_def kv_clear_def kv_map_def ht.invars ht.maps)

text \<open>A run of commands.\<close>

fun run_commands :: "kv_store \<Rightarrow> string list list \<Rightarrow> kv_store \<times> message list" where
  "run_commands s [] = (s, [])"
| "run_commands s (args # cmds) =
     (let (s1, reply) = execute_raw s args; (s2, replies) = run_commands s1 cmds in (s2, reply # replies))"

inductive redis_run ::
  "(string \<Rightarrow> string option) \<Rightarrow> string list list \<Rightarrow> (string \<Rightarrow> string option) \<Rightarrow> message list \<Rightarrow> bool" where
  nothing: "redis_run m [] m []"
| more: "redis_step m args m1 reply \<Longrightarrow> redis_run m1 cmds m2 replies \<Longrightarrow>
    redis_run m (args # cmds) m2 (reply # replies)"

lemma run_commands_refines:
  "kv_wf s \<Longrightarrow> kv_wf (fst (run_commands s cmds)) \<and>
   redis_run (kv_map s) cmds (kv_map (fst (run_commands s cmds))) (snd (run_commands s cmds))"
proof (induction cmds arbitrary: s)
  case Nil
  then show ?case by (simp add: redis_run.nothing)
next
  case (Cons args cmds)
  note step = execute_raw_step[OF Cons.prems, of args]
  have "kv_wf (fst (run_commands (fst (execute_raw s args)) cmds))"
    "redis_run (kv_map (fst (execute_raw s args))) cmds
      (kv_map (fst (run_commands (fst (execute_raw s args)) cmds)))
      (snd (run_commands (fst (execute_raw s args)) cmds))"
    using Cons.IH[of "fst (execute_raw s args)"] step by auto
  then show ?case using redis_run.more[OF step[THEN conjunct2]] by (simp add: case_prod_beta Let_def)
qed

section \<open>Properties\<close>

text \<open>
  C4: The store implements the abstract one: over any sequence of commands, well-formed or not,
  its invariant holds, the map it stands for changes as the commands say, and every reply,
  error replies included, is the one the abstract store gives.
\<close>

theorem store_refines_map:
  assumes "kv_wf s" "run_commands s cmds = (s', replies)"
  shows "kv_wf s' \<and> redis_run (kv_map s) cmds (kv_map s') replies \<and> length replies = length cmds"
proof -
  have "length (snd (run_commands s cmds)) = length cmds" for s
    by (induction cmds arbitrary: s) (auto simp: case_prod_beta Let_def)
  then show ?thesis using run_commands_refines[OF assms(1), of cmds] assms(2) by (metis fst_conv snd_conv)
qed

text \<open>
  A request message is counted, rejected with an error and without effect when it is not a
  non-empty array of strings, and otherwise takes the step of its command.
\<close>

theorem execute_command_correct:
  assumes "kv_wf s" "execute_command s req = (s', reply)"
  shows "kv_wf s' \<and> commands_processed s' = commands_processed s + 1 \<and>
    (if parse_command req = []
     then kv_map s' = kv_map s \<and> reply = make_error ''ERR invalid command format''
     else redis_step (kv_map s) (parse_command req) (kv_map s') reply)"
  using execute_command_step[OF assms(1), of req] unfolding assms(2) fst_conv snd_conv .

text \<open>
  Commands are case-insensitive: two spellings of a known command name that agree in upper
  case have the same effect and the same reply.
\<close>

theorem commands_case_insensitive:
  assumes "to_upper c = to_upper d" "to_upper c \<in> set known_commands"
  shows "execute_raw s (c # rest) = execute_raw s (d # rest)"
proof -
  obtain h where h: "map_of handlers (to_upper c) = Some h"
    using assms(2) by (metis known_handlers map_of_eq_None_iff not_None_eq set_map)
  then have "h \<in> snd ` set handlers" by (metis map_of_SomeD image_eqI snd_conv)
  moreover have "execute_raw s (c # rest) = h s (c # rest)" "execute_raw s (d # rest) = h s (d # rest)"
    using h assms(1) by (simp_all add: execute_raw_def)
  ultimately show ?thesis
    by (auto simp: handlers_def handle_get_def handle_set_def handle_del_def handle_exists_def
        handle_keys_def handle_ping_def handle_echo_def handle_flushdb_def handle_dbsize_def handle_info_def)
qed

text \<open>
  The store's header lists \<^verbatim>\<open>ZADD\<close> and the other sorted-set commands as supported, but no
  handler is registered for them: whatever the arguments, they are answered with the error for
  an unknown command and change nothing.
\<close>

theorem sorted_set_commands_unknown:
  "\<forall>c \<in> {''ZADD'', ''ZRANGE'', ''ZRANK'', ''ZREM'', ''ZSCORE'', ''ZCARD''}.
     execute_raw s (c # rest) = (s, make_error (''ERR unknown command '' @ quoted c))"
proof
  fix c assume "c \<in> {''ZADD'', ''ZRANGE'', ''ZRANK'', ''ZREM'', ''ZSCORE'', ''ZCARD''}"
  moreover have "map_of handlers (to_upper d) = None"
    if "d \<in> {''ZADD'', ''ZRANGE'', ''ZRANK'', ''ZREM'', ''ZSCORE'', ''ZCARD''}" for d
    using that by (auto simp: handlers_def to_upper_def toupper_def)
  ultimately show "execute_raw s (c # rest) = (s, make_error (''ERR unknown command '' @ quoted c))"
    by (simp add: execute_raw_def error_response_def)
qed

section \<open>Witnesses\<close>

lemma default_kv_wf: "kv_wf (kv_new default_table)"
  by (rule kv_new_wf[OF default_table_wf])

theorem store_refines_map_witness:
  "kv_wf (fst (run_commands (kv_new default_table) [[''SET'', ''k'', ''v''], [''GET'', ''k''], [''nope'']])) \<and>
   length (snd (run_commands (kv_new default_table) [[''SET'', ''k'', ''v''], [''GET'', ''k''], [''nope'']])) = 3"
  using store_refines_map[OF default_kv_wf surjective_pairing,
      of "[[''SET'', ''k'', ''v''], [''GET'', ''k''], [''nope'']]"] by simp

theorem execute_command_correct_witness:
  "kv_map (fst (execute_command (kv_new default_table) None)) = kv_map (kv_new default_table)"
  using execute_command_correct[OF default_kv_wf surjective_pairing, of None] by (simp add: parse_command_def)

theorem commands_case_insensitive_witness:
  "execute_raw (kv_new default_table) [''get'', ''k''] = execute_raw (kv_new default_table) [''GET'', ''k'']"
proof (rule commands_case_insensitive)
  show "to_upper ''get'' = to_upper ''GET''" by code_simp
  show "to_upper ''get'' \<in> set known_commands" by code_simp
qed

theorem sorted_set_commands_unknown_witness:
  "execute_raw (kv_new default_table) [''ZCARD'', ''z''] =
     (kv_new default_table, make_error (''ERR unknown command '' @ quoted ''ZCARD''))"
  using sorted_set_commands_unknown[of "kv_new default_table" "[''z'']"] by simp

end
