(* ===== verification/Concurrent_Store.thy ===== *)
theory Concurrent_Store
  imports Kv_Store "HOL-Library.Sublist"
begin

text \<open>
  \<^verbatim>\<open>KVStore\<close> of \<^verbatim>\<open>src/src/server/kv_store.cpp\<close> used by several threads. The store has no lock of its own: a
  command is a program that calls the methods of the \<^verbatim>\<open>ConcurrentHashTable\<close>, each under the lock of the table, and
  the atomic counters. \<open>command_prog\<close> is \<^verbatim>\<open>execute_command\<close> as such a program; run alone it is
  \<open>execute_command\<close>. Commands that call the table at most once to decide their answer take effect at one point between
  the request and the reply, however the threads interleave. \<^verbatim>\<open>DEL\<close> and \<^verbatim>\<open>EXISTS\<close> of several keys call it once per key
  and do not.
\<close>

section \<open>The counters\<close>

record kv_counters =
  cn_commands :: nat
  cn_get :: nat
  cn_set :: nat
  cn_del :: nat

datatype kv_counter = Count_command | Count_get | Count_set | Count_del | Load_commands

text \<open>\<^verbatim>\<open>counter++\<close> and \<^verbatim>\<open>counter.load()\<close> on \<^verbatim>\<open>std::atomic<size_t>\<close>.\<close>

fun count_step :: "kv_counter \<Rightarrow> kv_counters \<Rightarrow> kv_counters \<times> nat" where
  "count_step Count_command k = (k\<lparr>cn_commands := cn_commands k + 1\<rparr>, cn_commands k)"
| "count_step Count_get k = (k\<lparr>cn_get := cn_get k + 1\<rparr>, cn_get k)"
| "count_step Count_set k = (k\<lparr>cn_set := cn_set k + 1\<rparr>, cn_set k)"
| "count_step Count_del k = (k\<lparr>cn_del := cn_del k + 1\<rparr>, cn_del k)"
| "count_step Load_commands k = (k, cn_commands k)"

definition kv_counters_of :: "kv_store \<Rightarrow> kv_counters" where
  "kv_counters_of s = \<lparr>cn_commands = commands_processed s, cn_get = get_commands s, cn_set = set_commands s, cn_del = del_commands s\<rparr>"

section \<open>Commands as programs\<close>

type_synonym kv_prog = "(cht_call, cht_result, kv_counter, message) prog"

fun size_of :: "cht_result \<Rightarrow> nat" where
  "size_of (RSize n) = n"
| "size_of _ = 0"

fun get_reply :: "cht_result \<Rightarrow> message" where
  "get_reply (RValue (Some v)) = make_bulk_string v"
| "get_reply _ = nil_response"

fun keys_reply :: "cht_result \<Rightarrow> message" where
  "keys_reply (RKeys ks) = make_array (map (\<lambda>key. Some (make_bulk_string key)) ks)"
| "keys_reply _ = make_array []"

definition get_prog :: "string list \<Rightarrow> kv_prog" where
  "get_prog args =
     (if length args \<noteq> 2 then Return (wrong_arguments ''GET'')
      else Atomic Count_get (\<lambda>_. Call (Call_get (args ! 1)) (\<lambda>r. Return (get_reply r))))"

definition set_prog :: "string list \<Rightarrow> kv_prog" where
  "set_prog args =
     (if length args < 3 then Return (wrong_arguments ''SET'')
      else Atomic Count_set (\<lambda>_. Call (Call_set (args ! 1) (args ! 2)) (\<lambda>_. Return ok_response)))"

fun each_key :: "(string \<Rightarrow> cht_call) \<Rightarrow> string list \<Rightarrow> int64 \<Rightarrow> kv_prog" where
  "each_key call [] n = Return (make_integer n)"
| "each_key call (k # ks) n = Call (call k) (\<lambda>r. each_key call ks (if r = RBool True then n + 1 else n))"

definition del_prog :: "string list \<Rightarrow> kv_prog" where
  "del_prog args =
     (if length args < 2 then Return (wrong_arguments ''DEL'')
      else Atomic Count_del (\<lambda>_. each_key Call_del (tl args) 0))"

definition exists_prog :: "string list \<Rightarrow> kv_prog" where
  "exists_prog args =
     (if length args < 2 then Return (wrong_arguments ''EXISTS'') else each_key Call_exists (tl args) 0)"

definition keys_prog :: "string list \<Rightarrow> kv_prog" where
  "keys_prog args =
     (if length args \<noteq> 2 then Return (wrong_arguments ''KEYS'')
      else Call (Call_keys (args ! 1)) (\<lambda>r. Return (keys_reply r)))"

definition ping_prog :: "string list \<Rightarrow> kv_prog" where
  "ping_prog args =
     (if length args = 1 then Return pong_response
      else if length args = 2 then Return (make_bulk_string (args ! 1))
      else Return (wrong_arguments ''PING''))"

definition echo_prog :: "string list \<Rightarrow> kv_prog" where
  "echo_prog args =
     (if length args \<noteq> 2 then Return (wrong_arguments ''ECHO'') else Return (make_bulk_string (args ! 1)))"

definition flushdb_prog :: "string list \<Rightarrow> kv_prog" where
  "flushdb_prog args =
     (if length args \<noteq> 1 then Return (wrong_arguments ''FLUSHDB'')
      else Call Call_clear (\<lambda>_. Return ok_response))"

definition dbsize_prog :: "string list \<Rightarrow> kv_prog" where
  "dbsize_prog args =
     (if length args \<noteq> 1 then Return (wrong_arguments ''DBSIZE'')
      else Call Call_size (\<lambda>r. Return (make_integer (word_of_nat (size_of r)))))"

definition info_prog :: "string list \<Rightarrow> kv_prog" where
  "info_prog args =
     Call Call_size (\<lambda>r1. Atomic Load_commands (\<lambda>n. Call Call_size (\<lambda>r2.
       Return (make_bulk_string (info_lines (size_of r1) n (size_of r2))))))"

definition prog_handlers :: "(string \<times> (string list \<Rightarrow> kv_prog)) list" where
  "prog_handlers =
     [(''GET'', get_prog), (''SET'', set_prog), (''DEL'', del_prog), (''EXISTS'', exists_prog),
      (''KEYS'', keys_prog), (''PING'', ping_prog), (''ECHO'', echo_prog),
      (''FLUSHDB'', flushdb_prog), (''DBSIZE'', dbsize_prog), (''INFO'', info_prog)]"

definition raw_prog :: "string list \<Rightarrow> kv_prog" where
  "raw_prog args =
     (if args = [] then Return (error_response ''ERR empty command'')
      else case map_of prog_handlers (to_upper (args ! 0)) of
             None \<Rightarrow> Return (error_response (''ERR unknown command '' @ quoted (args ! 0)))
           | Some handler \<Rightarrow> handler args)"

definition command_prog :: "message option \<Rightarrow> kv_prog" where
  "command_prog request =
     Atomic Count_command (\<lambda>_.
       let args = parse_command request
       in if args = [] then Return (error_response ''ERR invalid command format'') else raw_prog args)"

section \<open>A command that runs alone\<close>

text \<open>A program does what a handler does, on the table and the counters of a store.\<close>

definition runs_as :: "kv_prog \<Rightarrow> kv_store \<Rightarrow> kv_store \<times> message \<Rightarrow> bool" where
  "runs_as p s out =
     (run_prog call_body count_step p (kv_table s) (kv_counters_of s) = (kv_table (fst out), kv_counters_of (fst out), snd out))"

lemma each_del_runs:
  "run_prog call_body count_step (each_key Call_del ks n) t k =
     (fst (del_loop ht_del t ks n), k, make_integer (snd (del_loop ht_del t ks n)))"
  by (induction ks arbitrary: t n) (auto simp: case_prod_beta Let_def)

lemma each_exists_runs:
  "run_prog call_body count_step (each_key Call_exists ks n) t k = (t, k, make_integer (exists_loop ht_exists t ks n))"
  by (induction ks arbitrary: n) auto

lemmas prog_defs = get_prog_def set_prog_def del_prog_def exists_prog_def keys_prog_def ping_prog_def echo_prog_def
  flushdb_prog_def dbsize_prog_def info_prog_def

lemmas handler_defs = handle_get_def handle_set_def handle_del_def handle_exists_def handle_keys_def handle_ping_def
  handle_echo_def handle_flushdb_def handle_dbsize_def handle_info_def info_text_def

lemma handlers_run:
  "runs_as (get_prog args) s (handle_get s args)" "runs_as (set_prog args) s (handle_set s args)"
  "runs_as (del_prog args) s (handle_del s args)" "runs_as (exists_prog args) s (handle_exists s args)"
  "runs_as (keys_prog args) s (handle_keys s args)" "runs_as (ping_prog args) s (handle_ping s args)"
  "runs_as (echo_prog args) s (handle_echo s args)" "runs_as (flushdb_prog args) s (handle_flushdb s args)"
  "runs_as (dbsize_prog args) s (handle_dbsize s args)" "runs_as (info_prog args) s (handle_info s args)"
  by (simp_all add: runs_as_def prog_defs handler_defs kv_counters_of_def each_del_runs each_exists_runs Let_def
      case_prod_beta split: option.split)

lemma raw_prog_runs: "runs_as (raw_prog args) s (execute_raw s args)"
proof (cases "args = []")
  case False
  have "list_all2 (\<lambda>(c, p) (c', h). c = c' \<and> (\<forall>s args. runs_as (p args) s (h s args))) prog_handlers handlers"
    by (simp add: prog_handlers_def handlers_def handlers_run)
  then have "case (map_of prog_handlers c, map_of handlers c) of
      (Some p, Some h) \<Rightarrow> \<forall>s args. runs_as (p args) s (h s args) | (None, None) \<Rightarrow> True | _ \<Rightarrow> False" for c
    by (induction rule: list_all2_induct) auto
  from this[of "to_upper (args ! 0)"] False show ?thesis
    by (auto simp: raw_prog_def execute_raw_def split: option.splits) (simp add: runs_as_def)
qed (simp add: raw_prog_def execute_raw_def runs_as_def)

lemma command_prog_runs: "runs_as (command_prog req) s (execute_command s req)"
  using raw_prog_runs[of "parse_command req" "s\<lparr>commands_processed := commands_processed s + 1\<rparr>"]
  by (auto simp: command_prog_def execute_command_def Let_def runs_as_def kv_counters_of_def)

section \<open>Commands that call the table once\<close>

text \<open>What a request does to a map, and the requests that do not go through several keys.\<close>

definition command_spec ::
  "(string \<Rightarrow> string option) \<Rightarrow> message option \<Rightarrow> (string \<Rightarrow> string option) \<Rightarrow> message \<Rightarrow> bool" where
  "command_spec m request m' reply =
     (if parse_command request = [] then m' = m \<and> reply = make_error ''ERR invalid command format''
      else redis_step m (parse_command request) m' reply)"

definition several_keys :: "message option \<Rightarrow> bool" where
  "several_keys request =
     (let args = parse_command request
      in 2 < length args \<and> (to_upper (hd args) = ''DEL'' \<or> to_upper (hd args) = ''EXISTS''))"

abbreviation cmd_point :: "string list \<Rightarrow> kv_prog \<Rightarrow> bool" where
  "cmd_point args \<equiv> one_point call_body ht_wf ht_map redis_step args"

lemma wrong_point:
  "to_upper c = cmd \<Longrightarrow> cmd \<in> set known_commands \<Longrightarrow> \<not> arity_ok cmd (Suc (length rest)) \<Longrightarrow>
   cmd_point (c # rest) (Return (wrong_arguments cmd))"
  using wrong_arity_step by simp

lemma last_call:
  "(\<And>s. ht_wf s \<Longrightarrow> redis_step (ht_map s) args (ht_map (fst (call_body c s))) (f (snd (call_body c s)))) \<Longrightarrow>
   cmd_point args (Call c (\<lambda>r. Return (f r)))"
  by simp

lemma get_step: "to_upper c = ''GET'' \<Longrightarrow> redis_step m [c, k] m (get_reply (RValue (m k)))"
  by (cases "m k") (auto simp: nil_response_def intro: redis_step.get_hit redis_step.get_miss)

lemma get_point: "to_upper c = ''GET'' \<Longrightarrow> cmd_point (c # rest) (get_prog (c # rest))"
  by (cases "length rest = 1")
    (auto simp: get_prog_def length1 ht.get_map known_commands_def get_step simp del: one_point.simps(2)
      intro!: last_call wrong_arity_step)

lemma one_key: "each_key call [k] n = Call (call k) (\<lambda>r. Return (make_integer (if r = RBool True then n + 1 else n)))"
  by (simp add: fun_eq_iff)

lemma set_point: "to_upper c = ''SET'' \<Longrightarrow> cmd_point (c # rest) (set_prog (c # rest))"
proof (cases "length rest < 2")
  case True
  assume "to_upper c = ''SET''"
  then show ?thesis using True by (auto simp: set_prog_def known_commands_def intro!: wrong_arity_step)
next
  case False
  assume c: "to_upper c = ''SET''"
  from False obtain k v opts where r: "rest = k # v # opts" by (cases rest; cases "tl rest") auto
  then show ?thesis using redis_step.set[OF c] by (simp add: set_prog_def ok_response_def case_prod_beta Let_def ht.maps)
qed

lemma del_point:
  assumes "to_upper c = ''DEL''" "length rest \<le> 1"
  shows "cmd_point (c # rest) (del_prog (c # rest))"
proof (cases rest)
  case Nil
  then show ?thesis using assms(1) by (auto simp: del_prog_def known_commands_def intro!: wrong_arity_step)
next
  case (Cons k ks)
  then have r: "rest = [k]" using assms(2) by simp
  have "m |` (- {k}) = m(k := None)" "set [k] \<inter> dom m = (if m k = None then {} else {k})" for m :: "string \<Rightarrow> string option"
    by (auto simp: restrict_map_def fun_eq_iff)
  then have "redis_step m [c, k] (m(k := None)) (make_integer (if \<exists>y. m k = Some y then 1 else 0))" for m
    using redis_step.del[OF assms(1), of "[k]" m] by (cases "m k") simp_all
  then show ?thesis unfolding r
    by (simp add: del_prog_def one_key del: one_point.simps(2) each_key.simps)
      (rule last_call, simp add: case_prod_beta Let_def ht.maps split del: if_split cong: if_cong)
qed

lemma exists_point:
  assumes "to_upper c = ''EXISTS''" "length rest \<le> 1"
  shows "cmd_point (c # rest) (exists_prog (c # rest))"
proof (cases rest)
  case Nil
  then show ?thesis using assms(1) by (auto simp: exists_prog_def known_commands_def intro!: wrong_arity_step)
next
  case (Cons k ks)
  then have r: "rest = [k]" using assms(2) by simp
  have "redis_step m [c, k] m (make_integer (if \<exists>y. m k = Some y then 1 else 0))" for m
    using redis_step.exists[OF assms(1), of "[k]" m] by (cases "m k") (simp_all add: domIff)
  then show ?thesis unfolding r
    by (simp add: exists_prog_def one_key del: one_point.simps(2) each_key.simps) (rule last_call, simp add: ht.maps split del: if_split cong: if_cong)
qed

lemma other_points:
  "to_upper c = ''KEYS'' \<Longrightarrow> cmd_point (c # rest) (keys_prog (c # rest))"
  "to_upper c = ''PING'' \<Longrightarrow> cmd_point (c # rest) (ping_prog (c # rest))"
  "to_upper c = ''ECHO'' \<Longrightarrow> cmd_point (c # rest) (echo_prog (c # rest))"
  "to_upper c = ''FLUSHDB'' \<Longrightarrow> cmd_point (c # rest) (flushdb_prog (c # rest))"
  "to_upper c = ''DBSIZE'' \<Longrightarrow> cmd_point (c # rest) (dbsize_prog (c # rest))"
  "to_upper c = ''INFO'' \<Longrightarrow> cmd_point (c # rest) (info_prog (c # rest))"
  by (auto simp: keys_prog_def ping_prog_def echo_prog_def flushdb_prog_def dbsize_prog_def info_prog_def length1
      pong_response_def ok_response_def ht.keys_set ht.keys_distinct ht.maps ht.size_card known_commands_def
      intro: redis_step.ping redis_step.ping_text redis_step.echo redis_step.flushdb redis_step.dbsize redis_step.info
      intro!: redis_step.keys wrong_arity_step)

lemma raw_point:
  assumes "args \<noteq> []" "2 < length args \<Longrightarrow> to_upper (hd args) \<noteq> ''DEL'' \<and> to_upper (hd args) \<noteq> ''EXISTS''"
  shows "cmd_point args (raw_prog args)"
proof -
  obtain c rest where a: "args = c # rest" using assms(1) by (cases args) auto
  show ?thesis
  proof (cases "map_of prog_handlers (to_upper c)")
    case None
    then have "to_upper c \<notin> set known_commands" by (auto simp: map_of_eq_None_iff prog_handlers_def known_commands_def)
    then show ?thesis using a None redis_step.unknown[of c _ rest] by (simp add: raw_prog_def error_response_def)
  next
    case (Some p)
    then have "(to_upper c, p) \<in> set prog_handlers" by (rule map_of_SomeD)
    moreover have "length rest \<le> 1" if "to_upper c = ''DEL'' \<or> to_upper c = ''EXISTS''" using assms(2) a that by fastforce
    ultimately have "cmd_point (c # rest) (p (c # rest))" unfolding prog_handlers_def list.set insert_iff prod.inject
      by (elim disjE conjE) (simp_all add: get_point set_point del_point exists_point other_points del: one_point.simps)
    then show ?thesis using a Some by (simp add: raw_prog_def)
  qed
qed

lemma one_point_mono:
  "one_point body invar abst spec q p \<Longrightarrow> (\<And>m m' x. spec m q m' x \<Longrightarrow> spec' m q' m' x) \<Longrightarrow> one_point body invar abst spec' q' p"
  by (induction p) (simp_all, (meson rangeI)+)

lemma command_point: "\<not> several_keys req \<Longrightarrow> one_point call_body ht_wf ht_map command_spec req (command_prog req)"
proof (cases "parse_command req = []")
  case False
  assume "\<not> several_keys req"
  then have "cmd_point (parse_command req) (raw_prog (parse_command req))"
    using False by (intro raw_point) (auto simp: several_keys_def)
  then have "one_point call_body ht_wf ht_map command_spec req (raw_prog (parse_command req))"
    by (rule one_point_mono) (simp add: command_spec_def False)
  then show ?thesis using False by (simp add: command_prog_def)
qed (simp add: command_prog_def command_spec_def error_response_def)

interpretation commands: point_requests call_body exclusive ht_wf ht_map command_spec command_prog "\<lambda>req. \<not> several_keys req"
  by unfold_locales (simp_all add: call_body_wf command_point)

section \<open>Properties\<close>

text \<open>
  C5: Commands on one store from any number of threads are linearisable: in every interleaving of the steps of the
  handlers and of the table's lock, each request (\<^verbatim>\<open>DEL\<close> and \<^verbatim>\<open>EXISTS\<close> of several keys apart) takes effect at one
  point between its arrival and its reply, and in the order of these points the requests and their replies are a run of
  the abstract store that ends in the map the table holds.
\<close>

theorem commands_linearizable:
  assumes "ht_wf t0"
    "locked_run call_body exclusive count_step command_prog (\<lambda>req. \<not> several_keys req) t0 k0 l t"
  shows "\<exists>h'. linearizes command_spec (ht_map t0) (th_hist t) (ht_map (lo_data l)) h'"
  using commands.requests_linearizable[OF assms] .

text \<open>
  C15: A request is always answered when it gets to run: whenever no thread is inside the table, a thread that runs a
  request without others in between comes to its end, and leaves the table, the counters and the reply that
  \<^verbatim>\<open>execute_command\<close> gives on the store with that table and these counters. This holds for every request.
\<close>

theorem request_alone_is_execute_command:
  assumes "locked_run call_body exclusive count_step command_prog ok t0 k0 l t" "unlocked l" "th_prog t i = None" "ok req"
    "kv_table s = lo_data l" "kv_counters_of s = th_counters t" "execute_command s req = (s', reply)"
  shows "\<exists>l'. unlocked l' \<and> lo_data l' = kv_table s' \<and>
    locked_run call_body exclusive count_step command_prog ok t0 k0 l'
      (t\<lparr>th_counters := kv_counters_of s', th_hist := th_hist t @ [Inv i req, Res i req reply]\<rparr>)"
  using cht.locked_run_request[OF assms(1-4)] command_prog_runs[of req s] assms(5-7) by (simp add: runs_as_def)

text \<open>The requests of the examples.\<close>

definition request :: "string list \<Rightarrow> message option" where
  "request args = Some (make_command args)"

lemma request_simps [simp]: "parse_command (request args) = args"
  by (simp add: request_def parse_make_command)

lemmas run_request = command_prog_def raw_prog_def prog_handlers_def to_upper_def toupper_def prog_defs

definition no_counts :: kv_counters where
  "no_counts = \<lparr>cn_commands = 0, cn_get = 0, cn_set = 0, cn_del = 0\<rparr>"

abbreviation store_run :: "(message option \<Rightarrow> bool) \<Rightarrow> (cht_call, hash_table, cht_result) lock_state \<Rightarrow>
    (message option, cht_call, cht_result, kv_counter, kv_counters, message) threads \<Rightarrow> bool" where
  "store_run ok \<equiv> locked_run call_body exclusive count_step command_prog ok default_table no_counts"

text \<open>A run that has come to an unlocked table that holds the map \<open>m\<close>.\<close>

abbreviation store_at ::
  "(message option \<Rightarrow> bool) \<Rightarrow> (string \<Rightarrow> string option) \<Rightarrow> (nat \<Rightarrow> (message option \<times> kv_prog) option) \<Rightarrow>
   (message option, message) event list \<Rightarrow> bool" where
  "store_at ok m \<equiv>
     run_at call_body exclusive count_step command_prog ok default_table no_counts (\<lambda>s. ht_wf s \<and> ht_map s = m)"

lemma store_at_start: "store_at ok Map.empty Map.empty []"
  by (rule run_at_start) (simp add: default_table_wf default_table_map)

lemma store_at_call:
  assumes "store_at ok m pr h" "pr i = Some (q, Call c f)"
    "\<And>s. ht_wf s \<Longrightarrow> ht_map s = m \<Longrightarrow> ht_map (fst (call_body c s)) = m' \<and> f (snd (call_body c s)) = p"
  shows "store_at ok m' (pr(i \<mapsto> (q, p))) h"
  using cht.run_at_call[OF assms(1,2)] assms(3) by (simp add: call_body_wf)

text \<open>A \<^verbatim>\<open>SET\<close> and a \<^verbatim>\<open>DEL\<close> of one key that run alone.\<close>

lemma store_at_count_call:
  assumes "store_at ok m pr h" "pr i = None" "ok q"
    "\<And>n. command_prog q = Atomic Count_command (\<lambda>_. Atomic a (\<lambda>_. Call c (\<lambda>r. Return (g r))))"
    "\<And>s. ht_wf s \<Longrightarrow> ht_map s = m \<Longrightarrow> ht_map (fst (call_body c s)) = m' \<and> g (snd (call_body c s)) = x"
  shows "store_at ok m' pr (h @ [Inv i q, Res i q x])"
proof -
  let ?p = "Call c (\<lambda>r. Return (g r))"
  have "store_at ok m (pr(i \<mapsto> (q, Atomic Count_command (\<lambda>_. Atomic a (\<lambda>_. ?p))))) (h @ [Inv i q])"
    using run_at_invoke[OF assms(1-3)] assms(4) by simp
  from cht.run_at_count[OF this, of i q _ _ "Atomic a (\<lambda>_. ?p)"]
  have "store_at ok m (pr(i \<mapsto> (q, Atomic a (\<lambda>_. ?p)))) (h @ [Inv i q])" by simp
  from cht.run_at_count[OF this, of i q _ _ ?p] have "store_at ok m (pr(i \<mapsto> (q, ?p))) (h @ [Inv i q])" by simp
  from store_at_call[OF this, of i q c _ m' "Return x"] assms(5)
  have "store_at ok m' (pr(i \<mapsto> (q, Return x))) (h @ [Inv i q])" by simp
  from run_at_return[OF this, of i q x] assms(2) show ?thesis by (simp add: fun_upd_idem)
qed

lemma store_at_set:
  assumes "store_at ok m pr h" "pr i = None" "ok (request [''SET'', k, v])"
  shows "store_at ok (m(k \<mapsto> v)) pr (h @ [Inv i (request [''SET'', k, v]), Res i (request [''SET'', k, v]) ok_response])"
  using assms by (intro store_at_count_call[where a = Count_set and c = "Call_set k v" and g = "\<lambda>_. ok_response"])
    (auto simp: run_request case_prod_beta Let_def ht.maps)

lemma store_at_del:
  assumes "store_at ok m pr h" "pr i = None" "ok (request [''DEL'', k])" "m k \<noteq> None"
  shows "store_at ok (m(k := None)) pr (h @ [Inv i (request [''DEL'', k]), Res i (request [''DEL'', k]) (make_integer 1)])"
  using assms by (intro store_at_count_call[where a = Count_del and c = "Call_del k"
        and g = "\<lambda>r. make_integer (if r = RBool True then 0 + 1 else 0)"])
    (auto simp: run_request one_key case_prod_beta Let_def ht.maps simp del: each_key.simps)

text \<open>Thread 0 sets a key while thread 1 waits to read it.\<close>

lemma set_then_get_run:
  "\<exists>l t. store_run (\<lambda>req. \<not> several_keys req) l t \<and>
     th_hist t = [Inv 1 (request [''GET'', ''k'']), Inv 0 (request [''SET'', ''k'', ''v'']),
       Res 0 (request [''SET'', ''k'', ''v'']) ok_response, Res 1 (request [''GET'', ''k'']) (make_bulk_string ''v'')]"
proof -
  let ?g = "request [''GET'', ''k'']" and ?s = "request [''SET'', ''k'', ''v'']" and ?ok = "\<lambda>req. \<not> several_keys req"
  let ?p = "Call (Call_get ''k'') (\<lambda>r. Return (get_reply r))"
  let ?h = "[Inv 1 ?g, Inv 0 ?s, Res 0 ?s ok_response]" and ?m = "[''k'' \<mapsto> ''v'']"
  have g: "command_prog ?g = Atomic Count_command (\<lambda>_. Atomic Count_get (\<lambda>_. ?p))" by (simp add: run_request)
  have "store_at ?ok Map.empty [1 \<mapsto> (?g, command_prog ?g)] [Inv 1 ?g]"
    using run_at_invoke[OF store_at_start, where ok = ?ok and i = 1 and q = ?g] by (simp add: several_keys_def)
  from store_at_set[OF this, of 0 "''k''" "''v''"]
  have "store_at ?ok ?m [1 \<mapsto> (?g, command_prog ?g)] ?h" by (simp add: several_keys_def to_upper_def toupper_def)
  from cht.run_at_count[OF this, of 1 ?g Count_command] g
  have "store_at ?ok ?m [1 \<mapsto> (?g, Atomic Count_get (\<lambda>_. ?p))] ?h" by simp
  from cht.run_at_count[OF this, of 1 ?g Count_get _ ?p] have "store_at ?ok ?m [1 \<mapsto> (?g, ?p)] ?h" by simp
  from store_at_call[OF this, of 1 ?g "Call_get ''k''" _ ?m "Return (make_bulk_string ''v'')"]
  have "store_at ?ok ?m [1 \<mapsto> (?g, Return (make_bulk_string ''v''))] ?h" by (simp add: ht.maps)
  from run_at_return[OF this, of 1] show ?thesis by (auto simp: run_at_def)
qed

theorem commands_linearizable_witness:
  "\<exists>l t h'. store_run (\<lambda>req. \<not> several_keys req) l t \<and>
     th_hist t = [Inv 1 (request [''GET'', ''k'']), Inv 0 (request [''SET'', ''k'', ''v'']),
       Res 0 (request [''SET'', ''k'', ''v'']) ok_response, Res 1 (request [''GET'', ''k'']) (make_bulk_string ''v'')] \<and>
     linearizes command_spec Map.empty (th_hist t) (ht_map (lo_data l)) h'"
  using set_then_get_run commands_linearizable[OF default_table_wf] default_table_map by metis

theorem request_alone_is_execute_command_witness:
  "\<exists>l'. unlocked l' \<and> lo_data l' = default_table \<and>
     store_run (\<lambda>_. True) l' ((threads_new no_counts)\<lparr>th_counters := no_counts\<lparr>cn_commands := 1\<rparr>,
       th_hist := [Inv 0 (request [''PING'']), Res 0 (request [''PING'']) pong_response]\<rparr>)"
proof -
  have "execute_command (kv_new default_table) (request [''PING'']) = ((kv_new default_table)\<lparr>commands_processed := 1\<rparr>, pong_response)"
    by (simp add: execute_command_def execute_raw_def handlers_def to_upper_def toupper_def handle_ping_def kv_new_def)
  from request_alone_is_execute_command[OF locked_run.start _ _ _ _ _ this, where ok = "\<lambda>_. True" and ?t0.0 = default_table
    and ?k0.0 = no_counts and i = 0]
  show ?thesis by (simp add: threads_new_def kv_new_def kv_counters_of_def no_counts_def)
qed

section \<open>Statistics\<close>

text \<open>Programs that do not count a command any more.\<close>

primrec past_counting :: "kv_prog \<Rightarrow> bool" where
  "past_counting (Return x) = True"
| "past_counting (Call c f) = (\<forall>r. past_counting (f r))"
| "past_counting (Atomic a f) = (a \<noteq> Count_command \<and> (\<forall>n. past_counting (f n)))"

lemma each_key_past_counting: "past_counting (each_key call ks n)"
  by (induction ks arbitrary: n) auto

lemma raw_past_counting: "past_counting (raw_prog args)"
proof (cases "map_of prog_handlers (to_upper (args ! 0))")
  case (Some h)
  then have "(to_upper (args ! 0), h) \<in> set prog_handlers" by (rule map_of_SomeD)
  then have "past_counting (h args)" by (auto simp: prog_handlers_def prog_defs each_key_past_counting)
  then show ?thesis using Some by (simp add: raw_prog_def)
qed (simp add: raw_prog_def)

lemma command_prog_counts:
  obtains f where "command_prog req = Atomic Count_command f" "\<And>n. past_counting (f n)"
  by (rule that[of "\<lambda>_. let args = parse_command req
       in if args = [] then Return (error_response ''ERR invalid command format'') else raw_prog args"])
    (simp_all add: command_prog_def raw_past_counting Let_def)

text \<open>The threads whose request has come in and is not counted yet, and the requests that have come in.\<close>

type_synonym kv_threads = "(message option, cht_call, cht_result, kv_counter, kv_counters, message) threads"

definition uncounted :: "kv_threads \<Rightarrow> nat set" where
  "uncounted t = {i. \<exists>q f. th_prog t i = Some (q, Atomic Count_command f)}"

fun is_inv :: "('q, 'x) event \<Rightarrow> bool" where
  "is_inv (Inv i q) = True"
| "is_inv _ = False"

definition arrivals :: "kv_threads \<Rightarrow> nat" where
  "arrivals t = length (filter is_inv (th_hist t))"

definition count_inv :: "kv_counters \<Rightarrow> kv_threads \<Rightarrow> bool" where
  "count_inv k0 t =
     ((\<forall>i q p. th_prog t i = Some (q, p) \<longrightarrow> past_counting p \<or> (\<exists>f. p = Atomic Count_command f \<and> (\<forall>n. past_counting (f n)))) \<and>
      finite (uncounted t) \<and> cn_commands (th_counters t) + card (uncounted t) = cn_commands k0 + arrivals t)"

lemma count_inv_step:
  assumes "count_inv k0 t" "th_prog t i = Some (q, p)" "past_counting p" "\<And>q' p'. tp = Some (q', p') \<Longrightarrow> past_counting p'"
    "th_prog t' = (th_prog t)(i := tp)" "cn_commands (th_counters t') = cn_commands (th_counters t)" "arrivals t' = arrivals t"
  shows "count_inv k0 t'"
proof -
  have "j \<in> uncounted t' \<longleftrightarrow> j \<in> uncounted t" for j
    using assms(2-5) by (cases "j = i") (force simp: uncounted_def)+
  then have "uncounted t' = uncounted t" by blast
  then show ?thesis using assms by (auto simp: count_inv_def)
qed

lemma locked_run_counts:
  "locked_run call_body exclusive count_step command_prog ok t0 k0 l t \<Longrightarrow> count_inv k0 t"
proof (induction rule: locked_run.induct)
  case start
  show ?case by (simp add: count_inv_def threads_new_def uncounted_def arrivals_def)
next
  case (invoke l t i q)
  obtain f where f: "command_prog q = Atomic Count_command f" "\<And>n. past_counting (f n)"
    using command_prog_counts[of q] by metis
  have "uncounted (th_invoke t i q (command_prog q)) = insert i (uncounted t)" "i \<notin> uncounted t"
    using invoke.hyps(2) f(1) by (auto simp: uncounted_def th_invoke_def)
  then show ?case using invoke.IH f by (auto simp: count_inv_def th_invoke_def arrivals_def)
next
  case (count l t i q a f k n)
  have p: "past_counting (f n)" using count.IH count.hyps(2) by (fastforce simp: count_inv_def)
  show ?case
  proof (cases "a = Count_command")
    case True
    have "uncounted (th_count t i q (f n) k) = uncounted t - {i}" "i \<in> uncounted t"
      using count.hyps(2) True p by (auto simp: uncounted_def th_count_def)
    moreover have "cn_commands k = cn_commands (th_counters t) + 1" using count.hyps(3) True by auto
    ultimately show ?thesis using count.IH p card_Suc_Diff1[of "uncounted t" i]
      by (auto simp: count_inv_def th_count_def arrivals_def)
  next
    case False
    then have "past_counting (Atomic a f)" "cn_commands k = cn_commands (th_counters t)"
      using count.IH count.hyps(2,3) by (cases a; fastforce simp: count_inv_def)+
    then show ?thesis using p by (intro count_inv_step[OF count.IH count.hyps(2), of "Some (q, f n)"])
      (auto simp: th_count_def arrivals_def)
  qed
next
  case (release l t i c r q f)
  have "past_counting (Call c f)" using release.IH release.hyps(3) by (fastforce simp: count_inv_def)
  then show ?case by (intro count_inv_step[OF release.IH release.hyps(3), of "Some (q, f r)"]) (auto simp: th_goto_def arrivals_def)
next
  case (finish l t i q x)
  show ?case by (rule count_inv_step[OF finish.IH finish.hyps(2), of None]) (auto simp: th_finish_def arrivals_def)
qed

text \<open>
  C16: The statistics lose no request: however the threads interleave, the number of commands processed is the number of
  requests that have come in, less those that have just come in and are not counted yet; when no request is being served,
  it is exactly the number of requests.
\<close>

theorem every_request_counted_once:
  assumes "locked_run call_body exclusive count_step command_prog ok t0 k0 l t"
  shows "cn_commands (th_counters t) + card (uncounted t) = cn_commands k0 + arrivals t \<and>
    (th_prog t = Map.empty \<longrightarrow> cn_commands (th_counters t) = cn_commands k0 + arrivals t)"
proof -
  have "cn_commands (th_counters t) + card (uncounted t) = cn_commands k0 + arrivals t"
    using locked_run_counts[OF assms] by (simp add: count_inv_def)
  moreover have "uncounted t = {}" if "th_prog t = Map.empty" using that by (simp add: uncounted_def)
  ultimately show ?thesis by auto
qed

theorem every_request_counted_once_witness:
  "\<exists>l t. store_run (\<lambda>req. \<not> several_keys req) l t \<and> arrivals t = 2 \<and> cn_commands (th_counters t) + card (uncounted t) = 2"
proof -
  obtain l t where lt: "store_run (\<lambda>req. \<not> several_keys req) l t" "arrivals t = 2"
    using set_then_get_run by (auto simp: arrivals_def)
  from every_request_counted_once[OF lt(1)] lt(2) have "cn_commands (th_counters t) + card (uncounted t) = 2"
    by (simp add: no_counts_def)
  then show ?thesis using lt by blast
qed

section \<open>Several keys\<close>

text \<open>
  While \<^verbatim>\<open>EXISTS a b\<close> is between its two lookups, another thread deletes \<^verbatim>\<open>a\<close>, which was seen, and
  then sets \<^verbatim>\<open>b\<close>, which is then seen.
\<close>

abbreviation set_a :: "message option" where "set_a \<equiv> request [''SET'', ''a'', ''1'']"
abbreviation set_b :: "message option" where "set_b \<equiv> request [''SET'', ''b'', ''1'']"
abbreviation del_a :: "message option" where "del_a \<equiv> request [''DEL'', ''a'']"
abbreviation exists_ab :: "message option" where "exists_ab \<equiv> request [''EXISTS'', ''a'', ''b'']"

definition torn_history :: "(message option, message) event list" where
  "torn_history =
     [Inv 0 set_a, Res 0 set_a ok_response, Inv 0 exists_ab, Inv 1 del_a, Res 1 del_a (make_integer 1),
      Inv 1 set_b, Res 1 set_b ok_response, Res 0 exists_ab (make_integer 2)]"

lemma torn_history_run: "store_at (\<lambda>_. True) [''b'' \<mapsto> ''1''] Map.empty torn_history"
proof -
  let ?f = "\<lambda>n r. Return (make_integer (if r = RBool True then n + 1 else n))"
  let ?p = "\<lambda>n. Call (Call_exists ''b'') (?f n)" and ?ok = "\<lambda>_. True" and ?q = exists_ab
  let ?c = "Call (Call_exists ''a'') (\<lambda>r. ?p (if r = RBool True then 0 + 1 else 0))"
  let ?h = "[Inv 0 set_a, Res 0 set_a ok_response, Inv 0 exists_ab]"
  have e: "command_prog ?q = Atomic Count_command (\<lambda>_. ?c)" by (simp add: run_request fun_eq_iff)
  have "store_at ?ok [''a'' \<mapsto> ''1''] Map.empty [Inv 0 set_a, Res 0 set_a ok_response]"
    using store_at_set[OF store_at_start, where ok = ?ok and i = 0 and k = "''a''" and v = "''1''"] by simp
  from run_at_invoke[OF this, of 0 ?q] have "store_at ?ok [''a'' \<mapsto> ''1''] [0 \<mapsto> (?q, command_prog ?q)] ?h" by simp
  from cht.run_at_count[OF this, of 0 ?q Count_command _ ?c] e have "store_at ?ok [''a'' \<mapsto> ''1''] [0 \<mapsto> (?q, ?c)] ?h" by simp
  from store_at_call[OF this, of 0 ?q "Call_exists ''a''" _ "[''a'' \<mapsto> ''1'']" "?p 1"]
  have "store_at ?ok [''a'' \<mapsto> ''1''] [0 \<mapsto> (?q, ?p 1)] ?h" by (simp add: ht.maps cong: if_cong)
  from store_at_del[OF this, of 1 "''a''"]
  have "store_at ?ok Map.empty [0 \<mapsto> (?q, ?p 1)] (?h @ [Inv 1 del_a, Res 1 del_a (make_integer 1)])" by simp
  from store_at_set[OF this, of 1 "''b''" "''1''"]
  have "store_at ?ok [''b'' \<mapsto> ''1''] [0 \<mapsto> (?q, ?p 1)]
      (?h @ [Inv 1 del_a, Res 1 del_a (make_integer 1), Inv 1 set_b, Res 1 set_b ok_response])" by simp
  from store_at_call[OF this, of 0 ?q "Call_exists ''b''" _ "[''b'' \<mapsto> ''1'']" "Return (make_integer 2)"]
  have "store_at ?ok [''b'' \<mapsto> ''1''] [0 \<mapsto> (?q, Return (make_integer 2))]
      (?h @ [Inv 1 del_a, Res 1 del_a (make_integer 1), Inv 1 set_b, Res 1 set_b ok_response])" by (simp add: ht.maps)
  from run_at_return[OF this, of 0] show ?thesis by (simp add: torn_history_def)
qed

lemma command_spec_steps:
  "command_spec m set_a m' x \<Longrightarrow> m' = m(''a'' \<mapsto> ''1'')"
  "command_spec m set_b m' x \<Longrightarrow> m' = m(''b'' \<mapsto> ''1'')"
  "command_spec m del_a m' x \<Longrightarrow> m' = m(''a'' := None)"
  "command_spec m exists_ab m' x \<Longrightarrow> m' = m \<and> (x = make_integer 2 \<longrightarrow> m ''a'' \<noteq> None \<and> m ''b'' \<noteq> None)"
  by (auto simp: command_spec_def to_upper_def toupper_def known_commands_def make_integer_def restrict_map_def elim!: redis_step.cases split: if_splits)

text \<open>
  After how many events what is known of the map and the threads: \<^verbatim>\<open>b\<close> comes in when \<^verbatim>\<open>a\<close> is gone, so \<^verbatim>\<open>EXISTS a b\<close> cannot take
  effect with the answer 2.
\<close>

definition torn_inv :: "nat \<Rightarrow> (string \<Rightarrow> string option) \<Rightarrow> (nat \<Rightarrow> (message option, message) phase) \<Rightarrow> bool" where
  "torn_inv n m ph =
     (n < 8 \<and> (m ''b'' \<noteq> None \<longrightarrow> 6 \<le> n) \<and> (5 \<le> n \<longrightarrow> m ''a'' = None) \<and>
      (if n < 2 then ph 0 = Idle \<or> ph 0 = Invoked set_a \<or> (\<exists>x. ph 0 = Linearized set_a x)
       else ph 0 = Idle \<or> ph 0 = Invoked exists_ab \<or> (\<exists>x. x \<noteq> make_integer 2 \<and> ph 0 = Linearized exists_ab x)) \<and>
      (if n = 4 then ph 1 = Invoked del_a \<or> m ''a'' = None \<and> (\<exists>x. ph 1 = Linearized del_a x)
       else if n = 6 then ph 1 = Invoked set_b \<or> (\<exists>x. ph 1 = Linearized set_b x)
       else ph 1 = Idle) \<and>
      (\<forall>i. 1 < i \<longrightarrow> ph i = Idle))"

lemma torn_inv_lin:
  assumes "torn_inv n m ph" "ph i = Invoked q" "command_spec m q m' x"
  shows "torn_inv n m' (ph(i := Linearized q x))"
proof -
  have i: "i = 0 \<or> i = 1" using assms(1,2) unfolding torn_inv_def
    by (metis less_one linorder_neqE_nat phase.distinct(1))
  consider "n < 2" "i = 0" "q = set_a" "m' = m(''a'' \<mapsto> ''1'')"
    | "\<not> n < 2" "i = 0" "q = exists_ab" "m' = m" "x = make_integer 2 \<Longrightarrow> m ''a'' \<noteq> None \<and> m ''b'' \<noteq> None"
    | "n = 4" "i = 1" "q = del_a" "m' = m(''a'' := None)"
    | "n = 6" "i = 1" "q = set_b" "m' = m(''b'' \<mapsto> ''1'')"
    using i assms(1,2) command_spec_steps[of m m' x] assms(3) by (auto simp: torn_inv_def split: if_splits)
  then show ?thesis
  proof cases
    case 2
    then have "x \<noteq> make_integer 2" using assms(1) by (auto simp: torn_inv_def)
    then show ?thesis using 2 assms(1) by (auto simp: torn_inv_def split: if_splits)
  qed (use assms(1,2) in \<open>auto simp: torn_inv_def\<close>)
qed

lemma torn_prefix:
  assumes "prefix (h @ [e]) torn_history"
  shows "length h < 8 \<and> e = torn_history ! length h \<and> prefix h torn_history"
proof -
  obtain zs where z: "torn_history = h @ e # zs" using assms by (auto simp: prefix_def)
  have "length (h @ e # zs) = 8" by (simp add: torn_history_def flip: z)
  then have "length h < 8" by simp
  then show ?thesis using z by (metis nth_append_length prefixI)
qed

lemma torn_inv_invoke:
  assumes "torn_inv n m ph" "n < 8" "Inv i q = torn_history ! n"
  shows "torn_inv (Suc n) m (ph(i := Invoked q))"
proof -
  consider "n = 0" "i = 0" "q = set_a" | "n = 2" "i = 0" "q = exists_ab" | "n = 3" "i = 1" "q = del_a" | "n = 5" "i = 1" "q = set_b"
    using assms(2,3) unfolding torn_history_def by (auto simp: nth_Cons' split: if_splits)
  then show ?thesis using assms(1) by cases (auto simp: torn_inv_def)
qed

lemma torn_inv_result:
  assumes "torn_inv n m ph" "n < 8" "ph i = Linearized q x" "Res i q x = torn_history ! n"
  shows "torn_inv (Suc n) m (ph(i := Idle))"
proof -
  consider "n = 1" "i = 0" | "n = 4" "i = 1" | "n = 6" "i = 1" | "n = 7" "i = 0" "q = exists_ab" "x = make_integer 2"
    using assms(2,4) unfolding torn_history_def by (auto simp: nth_Cons' split: if_splits)
  then show ?thesis using assms(1,3) by cases (auto simp: torn_inv_def)
qed

lemma torn_inv_holds: "lin_state command_spec Map.empty h m ph \<Longrightarrow> prefix h torn_history \<Longrightarrow> torn_inv (length h) m ph"
proof (induction rule: lin_state.induct)
  case start
  show ?case by (simp add: torn_inv_def)
next
  case (lin h m ph i q m' x)
  then show ?case using torn_inv_lin by blast
next
  case (inv h m ph i q)
  then show ?case using torn_prefix[OF inv.prems] torn_inv_invoke[of "length h" m ph i q] by (simp del: fun_upd_apply)
next
  case (res h m ph i q x)
  then show ?case using torn_prefix[OF res.prems] torn_inv_result[of "length h" m ph i q x] by (simp del: fun_upd_apply)
qed

lemma torn_history_not_linearizable: "\<not> linearizes command_spec Map.empty torn_history m h'"
proof
  assume "linearizes command_spec Map.empty torn_history m h'"
  from torn_inv_holds[OF linearizes_lin_state[OF this]] show False by (simp add: torn_inv_def torn_history_def)
qed

text \<open>
  \<^verbatim>\<open>EXISTS\<close> of several keys is not atomic: there is a run of two threads in which \<^verbatim>\<open>EXISTS a b\<close> answers 2
  although the two keys are never there together, so that no order of the requests explains the replies.
\<close>

theorem exists_of_several_keys_not_atomic:
  "\<exists>l t. store_run (\<lambda>_. True) l t \<and> th_hist t = torn_history \<and>
     \<not> (\<exists>m h'. linearizes command_spec (ht_map default_table) (th_hist t) m h')"
  using torn_history_run torn_history_not_linearizable unfolding run_at_def default_table_map by metis

end
