(* ===== verification/Concurrent_Set.thy ===== *)
theory Concurrent_Set
  imports Sorted_Set Threads
begin

text \<open>
  \<^verbatim>\<open>SortedSet\<close> of \<^verbatim>\<open>src/src/data/sorted_set.cpp\<close> used by several threads. Most methods hold \<^verbatim>\<open>mutex_\<close> from beginning to
  end; \<^verbatim>\<open>zadd_multi\<close>, \<^verbatim>\<open>zrem_multi\<close>, \<^verbatim>\<open>zrevrange\<close> and \<^verbatim>\<open>zcount\<close> call such methods without holding it. The
  methods are programs over the ones that lock. \<^verbatim>\<open>zcard\<close>, \<^verbatim>\<open>empty\<close> and \<^verbatim>\<open>zrevrank\<close> read \<^verbatim>\<open>size_\<close>, which is not atomic, without
  the mutex. This is a data race with every method that writes it, to which the language gives no meaning: threads that use these methods are
  not modelled. What already the gap between the two steps of \<^verbatim>\<open>zrevrank\<close> does is shown.
\<close>

section \<open>The methods that lock\<close>

datatype ss_call =
    Z_add string dbl | Z_rem string | Z_score string | Z_rank string | Z_range int int bool
  | Z_rangebyscore dbl dbl bool | Z_clear

datatype ss_result =
    Z_int int | Z_dbl "dbl option" | Z_pos "int option" | Z_pairs "(string \<times> dbl) list" | Z_unit | Z_size nat

fun ss_body :: "ss_call \<Rightarrow> sorted_set \<Rightarrow> sorted_set \<times> ss_result" where
  "ss_body (Z_add m sc) s = (let (s', n) = zadd s m sc in (s', Z_int n))"
| "ss_body (Z_rem m) s = (let (s', n) = zrem s m in (s', Z_int n))"
| "ss_body (Z_score m) s = (s, Z_dbl (zscore s m))"
| "ss_body (Z_rank m) s = (s, Z_pos (zrank s m))"
| "ss_body (Z_range start stop withScores) s = (s, Z_pairs (zrange s start stop withScores))"
| "ss_body (Z_rangebyscore lo hi withScores) s = (s, Z_pairs (zrangebyscore s lo hi withScores))"
| "ss_body Z_clear s = (ss_clear s, Z_unit)"

text \<open>\<^verbatim>\<open>std::lock_guard\<close> on a \<^verbatim>\<open>std::mutex\<close>: always alone.\<close>

definition ss_exclusive :: "ss_call \<Rightarrow> bool" where
  "ss_exclusive c = True"

section \<open>All methods\<close>

datatype ss_request =
    Zadd string dbl | Zadd_multi "(string \<times> dbl) list" | Zrem string | Zrem_multi "string list" | Zscore string
  | Zrank string | Zrange int int bool | Zrevrange int int bool | Zrangebyscore dbl dbl bool
  | Zcount dbl dbl | Zclear

type_synonym ss_prog = "(ss_call, ss_result, unit, ss_result) prog"

fun int_of :: "ss_result \<Rightarrow> int" where
  "int_of (Z_int n) = n"
| "int_of _ = 0"

fun pairs_of :: "ss_result \<Rightarrow> (string \<times> dbl) list" where
  "pairs_of (Z_pairs ps) = ps"
| "pairs_of _ = []"

fun zadd_multi_prog :: "(string \<times> dbl) list \<Rightarrow> int \<Rightarrow> ss_prog" where
  "zadd_multi_prog [] added = Return (Z_int added)"
| "zadd_multi_prog ((m, sc) # items) added = Call (Z_add m sc) (\<lambda>r. zadd_multi_prog items (added + int_of r))"

fun zrem_multi_prog :: "string list \<Rightarrow> int \<Rightarrow> ss_prog" where
  "zrem_multi_prog [] removed = Return (Z_int removed)"
| "zrem_multi_prog (m # ms) removed = Call (Z_rem m) (\<lambda>r. zrem_multi_prog ms (removed + int_of r))"

fun ss_prog_of :: "ss_request \<Rightarrow> ss_prog" where
  "ss_prog_of (Zadd m sc) = Call (Z_add m sc) Return"
| "ss_prog_of (Zadd_multi items) = zadd_multi_prog items 0"
| "ss_prog_of (Zrem m) = Call (Z_rem m) Return"
| "ss_prog_of (Zrem_multi ms) = zrem_multi_prog ms 0"
| "ss_prog_of (Zscore m) = Call (Z_score m) Return"
| "ss_prog_of (Zrank m) = Call (Z_rank m) Return"
| "ss_prog_of (Zrange start stop withScores) = Call (Z_range start stop withScores) Return"
| "ss_prog_of (Zrevrange start stop withScores) =
     Call (Z_range start stop withScores) (\<lambda>r. Return (Z_pairs (rev (pairs_of r))))"
| "ss_prog_of (Zrangebyscore lo hi withScores) = Call (Z_rangebyscore lo hi withScores) Return"
| "ss_prog_of (Zcount lo hi) = Call (Z_rangebyscore lo hi False) (\<lambda>r. Return (Z_size (length (pairs_of r))))"
| "ss_prog_of Zclear = Call Z_clear Return"

section \<open>Methods that run alone\<close>

text \<open>The methods as they are when one thread uses the set.\<close>

fun ss_alone :: "ss_request \<Rightarrow> sorted_set \<Rightarrow> sorted_set \<times> ss_result" where
  "ss_alone (Zadd m sc) s = (let (s', n) = zadd s m sc in (s', Z_int n))"
| "ss_alone (Zadd_multi items) s = (let (s', n) = zadd_multi s items in (s', Z_int n))"
| "ss_alone (Zrem m) s = (let (s', n) = zrem s m in (s', Z_int n))"
| "ss_alone (Zrem_multi ms) s = (let (s', n) = zrem_multi s ms in (s', Z_int n))"
| "ss_alone (Zscore m) s = (s, Z_dbl (zscore s m))"
| "ss_alone (Zrank m) s = (s, Z_pos (zrank s m))"
| "ss_alone (Zrange start stop withScores) s = (s, Z_pairs (zrange s start stop withScores))"
| "ss_alone (Zrevrange start stop withScores) s = (s, Z_pairs (zrevrange s start stop withScores))"
| "ss_alone (Zrangebyscore lo hi withScores) s = (s, Z_pairs (zrangebyscore s lo hi withScores))"
| "ss_alone (Zcount lo hi) s = (s, Z_size (zcount s lo hi))"
| "ss_alone Zclear s = (ss_clear s, Z_unit)"

text \<open>There are no counters.\<close>

definition no_counter :: "unit \<Rightarrow> unit \<Rightarrow> unit \<times> nat" where
  "no_counter a k = (k, 0)"

lemma zadd_multi_runs:
  "run_prog ss_body no_counter (zadd_multi_prog items n) s k = (fst (zadd_multi s items), k, Z_int (n + snd (zadd_multi s items)))"
  by (induction items arbitrary: s n) (auto simp: case_prod_beta Let_def)

lemma zrem_multi_runs:
  "run_prog ss_body no_counter (zrem_multi_prog ms n) s k = (fst (zrem_multi s ms), k, Z_int (n + snd (zrem_multi s ms)))"
  by (induction ms arbitrary: s n) (auto simp: case_prod_beta Let_def)

lemma ss_prog_runs:
  "run_prog ss_body no_counter (ss_prog_of q) s k = (fst (ss_alone q s), k, snd (ss_alone q s))"
  by (cases q) (auto simp: zadd_multi_runs zrem_multi_runs zrevrange_def zcount_def
      case_prod_beta Let_def split: option.split)

section \<open>Linearisation\<close>

text \<open>The methods that lock at most once, with scores that are numbers.\<close>

fun locks_once :: "ss_request \<Rightarrow> bool" where
  "locks_once (Zadd_multi items) = (length items \<le> 1)"
| "locks_once (Zrem_multi ms) = (length ms \<le> 1)"
| "locks_once _ = True"

fun scores_ok :: "ss_request \<Rightarrow> bool" where
  "scores_ok (Zadd m sc) = (\<not> dbl_nan sc)"
| "scores_ok (Zadd_multi items) = (\<forall>(m, sc) \<in> set items. \<not> dbl_nan sc)"
| "scores_ok _ = True"

definition ss_spec :: "sorted_set \<Rightarrow> ss_request \<Rightarrow> sorted_set \<Rightarrow> ss_result \<Rightarrow> bool" where
  "ss_spec s q s' x = (scores_ok q \<and> ss_alone q s = (s', x))"

lemma ss_one_point:
  assumes "locks_once q" "scores_ok q"
  shows "one_point ss_body (\<lambda>_. True) id ss_spec q (ss_prog_of q)"
proof (cases q)
  case (Zadd_multi items)
  then show ?thesis using assms by (cases items; cases "hd items") (auto simp: ss_spec_def case_prod_beta Let_def)
next
  case (Zrem_multi ms)
  then show ?thesis using assms by (cases ms) (auto simp: ss_spec_def case_prod_beta Let_def)
qed (use assms in \<open>auto simp: ss_spec_def zrevrange_def zcount_def case_prod_beta Let_def\<close>)

interpretation zset: point_requests ss_body ss_exclusive "\<lambda>_. True" id ss_spec ss_prog_of "\<lambda>q. locks_once q \<and> scores_ok q"
  by unfold_locales (auto simp: ss_exclusive_def ss_one_point)

lemma ss_spec_wf: "ss_spec s q s' x \<Longrightarrow> ss_wf s \<Longrightarrow> ss_wf s'"
  by (cases q) (auto simp: ss_spec_def case_prod_beta Let_def zadd_wf zrem_wf ss_clear_wf zadd_multi_correct zrem_multi_correct)

lemma ss_run_wf: "spec_run ss_spec s ops s' \<Longrightarrow> ss_wf s \<Longrightarrow> ss_wf s'"
  by (induction rule: spec_run.induct) (auto simp: ss_spec_wf)

section \<open>Properties\<close>

text \<open>
  C12: A sorted set used by any number of threads is linearisable in the methods that do their work in one section under the lock, which leaves
  out the insertion and removal of several members and the methods that read the size without the lock, and with scores that are not NaN: in every
  interleaving each call takes effect at one point between its start and its return, and in the order of these points
  the calls and their results are those of one thread that uses the set; the set keeps its invariant, tree and map in
  step.
\<close>

theorem sorted_set_linearizable:
  assumes "ss_wf s0"
    "locked_run ss_body ss_exclusive no_counter ss_prog_of (\<lambda>q. locks_once q \<and> scores_ok q) s0 () l t"
  shows "ss_wf (lo_data l) \<and> (\<exists>h'. linearizes ss_spec s0 (th_hist t) (lo_data l) h')"
proof -
  obtain h' where h': "linearizes ss_spec s0 (th_hist t) (lo_data l) h'"
    using zset.requests_linearizable[OF _ assms(2)] by auto
  then have "spec_run ss_spec s0 (lin_ops h') (lo_data l)" by (simp add: linearizes_def)
  then show ?thesis using h' ss_run_wf assms(1) by blast
qed

text \<open>One thread adds a member and removes it while another asks for its reverse rank.\<close>

abbreviation set_at :: "(ss_request \<Rightarrow> bool) \<Rightarrow> sorted_set \<Rightarrow> (nat \<Rightarrow> (ss_request \<times> ss_prog) option) \<Rightarrow>
    (ss_request, ss_result) event list \<Rightarrow> bool" where
  "set_at ok s \<equiv> run_at ss_body ss_exclusive no_counter ss_prog_of ok ss_new () (\<lambda>s'. s' = s)"

lemma set_at_request:
  assumes "set_at ok s pr h" "pr i = None" "ok q" "ss_prog_of q = Call c Return"
  shows "set_at ok (fst (ss_body c s)) pr (h @ [Inv i q, Res i q (snd (ss_body c s))])"
proof -
  have "set_at ok s (pr(i \<mapsto> (q, Call c Return))) (h @ [Inv i q])" using run_at_invoke[OF assms(1-3)] assms(4) by simp
  from zset.run_at_call[OF this, of i q c Return "\<lambda>s'. s' = fst (ss_body c s)" "Return (snd (ss_body c s))"]
  have "set_at ok (fst (ss_body c s)) (pr(i \<mapsto> (q, Return (snd (ss_body c s))))) (h @ [Inv i q])" by simp
  from run_at_return[OF this, of i q "snd (ss_body c s)"] assms(2) show ?thesis by (simp add: fun_upd_idem)
qed

definition one_member :: sorted_set where
  "one_member = fst (zadd ss_new ''a'' dbl_one)"

lemma one_member_facts:
  "snd (zadd ss_new ''a'' dbl_one) = 1" "zrank one_member ''a'' = Some 0"
  "snd (zrem one_member ''a'') = 1" "ss_size (fst (zrem one_member ''a'')) = 0"
  unfolding one_member_def by code_simp+

lemma one_member_run:
  assumes "ok (Zadd ''a'' dbl_one)"
  shows "set_at ok one_member Map.empty [Inv 0 (Zadd ''a'' dbl_one), Res 0 (Zadd ''a'' dbl_one) (Z_int 1)]"
  using set_at_request[OF run_at_start[of "\<lambda>s'. s' = ss_new"], where ok = ok and i = 0 and q = "Zadd ''a'' dbl_one"
    and c = "Z_add ''a'' dbl_one"] assms
  by (simp add: one_member_facts case_prod_beta Let_def flip: one_member_def)

theorem sorted_set_linearizable_witness:
  "\<exists>l t h'. locked_run ss_body ss_exclusive no_counter ss_prog_of (\<lambda>q. locks_once q \<and> scores_ok q) ss_new () l t \<and>
     th_hist t = [Inv 0 (Zadd ''a'' dbl_one), Res 0 (Zadd ''a'' dbl_one) (Z_int 1)] \<and> ss_wf (lo_data l) \<and>
     linearizes ss_spec ss_new (th_hist t) (lo_data l) h'"
proof -
  have "\<not> dbl_nan dbl_one" by code_simp
  then have "set_at (\<lambda>q. locks_once q \<and> scores_ok q) one_member Map.empty [Inv 0 (Zadd ''a'' dbl_one), Res 0 (Zadd ''a'' dbl_one) (Z_int 1)]"
    by (intro one_member_run) simp
  then show ?thesis unfolding run_at_def using sorted_set_linearizable[OF ss_new_wf] by metis
qed

lemma zrevrank_nonneg:
  assumes "ss_wf s" "ss_size s < 2 ^ 31" "zrevrank s m = Some r"
  shows "0 \<le> r"
proof (cases "ss_scores s m")
  case None
  then show ?thesis using assms(3) by (simp add: zrevrank_def zrank_def)
next
  case (Some sc)
  then obtain i where "zrank s m = Some (int i)" "i < ss_size s" using zrank_position[OF assms(1)] by blast
  then show ?thesis using assms(2,3) by (auto simp: zrevrank_def int_of_size_small)
qed

text \<open>\<^verbatim>\<open>zrevrank\<close> finds the rank under the mutex and reads the size after it has released it: the set may have changed.\<close>

definition zrevrank_split :: "sorted_set \<Rightarrow> sorted_set \<Rightarrow> string \<Rightarrow> int option" where
  "zrevrank_split s later m =
     (case zrank s m of
        Some rank \<Rightarrow> Some (int_of_size (ss_size later) - 1 - rank)
      | None \<Rightarrow> None)"

lemma zrevrank_split_same: "zrevrank_split s s m = zrevrank s m"
  by (simp add: zrevrank_split_def zrevrank_def)

text \<open>
  With one thread \<^verbatim>\<open>zrevrank\<close> never answers a negative rank; when another thread removes the member between the two steps it
  answers -1.
\<close>

theorem zrevrank_races_with_zrem:
  "{r. \<exists>s m. ss_wf s \<and> ss_size s < 2 ^ 31 \<and> zrevrank_split s s m = Some r} \<subseteq> {0..} \<and>
   ss_wf one_member \<and> zrevrank_split one_member (fst (zrem one_member ''a'')) ''a'' = Some (- 1)"
proof (intro conjI)
  show "{r. \<exists>s m. ss_wf s \<and> ss_size s < 2 ^ 31 \<and> zrevrank_split s s m = Some r} \<subseteq> {0..}"
    by (auto simp: zrevrank_split_same dest: zrevrank_nonneg)
  have "\<not> dbl_nan dbl_one" by code_simp
  then show "ss_wf one_member" unfolding one_member_def by (rule zadd_wf[OF ss_new_wf])
  show "zrevrank_split one_member (fst (zrem one_member ''a'')) ''a'' = Some (- 1)"
    by (simp add: zrevrank_split_def one_member_facts int_of_size_small)
qed

section \<open>The manager under its lock\<close>

text \<open>\<^verbatim>\<open>SortedSetManager\<close>: every method holds \<^verbatim>\<open>mutex_\<close> from beginning to end.\<close>

datatype mgr_call = Get_or_create string | Mgr_del string | Mgr_exists string | Mgr_keys | Mgr_clear

datatype mgr_result = Pointer nat | Flag bool | Names "string list" | Cleared

fun mgr_body :: "mgr_call \<Rightarrow> ss_manager \<Rightarrow> ss_manager \<times> mgr_result" where
  "mgr_body (Get_or_create k) g = (let (g', ptr) = get_or_create g k in (g', Pointer ptr))"
| "mgr_body (Mgr_del k) g = (let (g', b) = mgr_del g k in (g', Flag b))"
| "mgr_body (Mgr_exists k) g = (g, Flag (mgr_exists g k))"
| "mgr_body Mgr_keys g = (g, Names (mgr_keys g))"
| "mgr_body Mgr_clear g = (mgr_clear g, Cleared)"

definition mgr_exclusive :: "mgr_call \<Rightarrow> bool" where
  "mgr_exclusive c = True"

interpretation mgr: locked_object mgr_body mgr_exclusive
  by unfold_locales (simp add: mgr_exclusive_def)

lemma mgr_body_wf: "mgr_wf g \<Longrightarrow> mgr_wf (fst (mgr_body c g))"
  by (cases c) (auto simp: case_prod_beta Let_def intro: wf_intros)

lemma mgr_body_keeps:
  assumes "c \<noteq> Mgr_del k" "c \<noteq> Mgr_clear" "map_of (mgr_sets g) k = Some p"
  shows "map_of (mgr_sets (fst (mgr_body c g))) k = Some p"
proof (cases c)
  case (Get_or_create k')
  then show ?thesis using assms by (auto simp: case_prod_beta Let_def get_or_create_def split: option.splits)
next
  case (Mgr_del k')
  then have "k' \<noteq> k" using assms by auto
  then have "map_of (filter (\<lambda>p. fst p \<noteq> k') ps) k = map_of ps k" for ps :: "(string \<times> nat) list"
    by (induction ps) auto
  then show ?thesis using Mgr_del assms by (simp add: mgr_del_def)
qed (use assms in auto)

text \<open>While the key is not deleted, all that ask for it get one pointer, the one it is bound to at the end.\<close>

lemma replay_pointer:
  assumes "\<forall>c \<in> set cs. c \<noteq> Mgr_del k \<and> c \<noteq> Mgr_clear"
  shows "map_of (mgr_sets g) k = Some p \<Longrightarrow> map_of (mgr_sets (fst (replay mgr_body g cs))) k = Some p"
  using assms by (induction cs arbitrary: g) (auto simp: case_prod_beta Let_def mgr_body_keeps)

lemma pointer_is_bound:
  assumes "\<forall>c \<in> set cs. c \<noteq> Mgr_del k \<and> c \<noteq> Mgr_clear"
    "(Get_or_create k, Pointer p) \<in> set (zip cs (snd (replay mgr_body g cs)))"
  shows "map_of (mgr_sets (fst (replay mgr_body g cs))) k = Some p"
  using assms
proof (induction cs arbitrary: g)
  case (Cons c cs)
  show ?case
  proof (cases "(c, snd (mgr_body c g)) = (Get_or_create k, Pointer p)")
    case True
    then have "map_of (mgr_sets (fst (mgr_body c g))) k = Some p"
      using get_or_create_bound_after[of g k] by (auto simp: case_prod_beta Let_def)
    then show ?thesis using replay_pointer[of cs k] Cons.prems(1) by (simp add: case_prod_beta Let_def)
  next
    case False
    then show ?thesis using Cons by (auto simp: case_prod_beta Let_def)
  qed
qed simp

text \<open>
  C17: Threads that race to create a sorted set share it: in every interleaving of calls to the manager in which the key is not
  deleted, all calls of \<^verbatim>\<open>get_or_create\<close> for it return the same object, and it is the one the manager holds in the end;
  the manager keeps its invariant.
\<close>

theorem get_or_create_race_shares_one_set:
  assumes "lock_reachable mgr_body mgr_exclusive mgr_new l"
    "\<forall>c \<in> fst ` set (lo_log l). c \<noteq> Mgr_del k \<and> c \<noteq> Mgr_clear"
  shows "mgr_wf (lo_data l) \<and>
    (\<forall>p. (Get_or_create k, Pointer p) \<in> set (lo_log l) \<longrightarrow> map_of (mgr_sets (lo_data l)) k = Some p)"
proof -
  have log: "replay mgr_body mgr_new (map fst (lo_log l)) = (lo_data l, map snd (lo_log l))"
    using mgr.linearizable(1)[OF assms(1)] .
  have "mgr_wf (lo_data l)" using replay_preserves[of mgr_wf mgr_body mgr_new "map fst (lo_log l)"] log mgr_body_wf mgr_new_wf
    by simp
  moreover have "map_of (mgr_sets (lo_data l)) k = Some p" if "(Get_or_create k, Pointer p) \<in> set (lo_log l)" for p
    using pointer_is_bound[of "map fst (lo_log l)" k p mgr_new] assms(2) that log by (simp add: zip_map_fst_snd)
  ultimately show ?thesis by blast
qed

theorem get_or_create_race_shares_one_set_witness:
  "\<exists>l. lock_reachable mgr_body mgr_exclusive mgr_new l \<and>
     lo_log l = [(Get_or_create ''z'', Pointer 0), (Get_or_create ''z'', Pointer 0)] \<and> map_of (mgr_sets (lo_data l)) ''z'' = Some 0"
proof -
  let ?l = "whole_call mgr_body (whole_call mgr_body (lock_new mgr_new) (Get_or_create ''z'')) (Get_or_create ''z'')"
  have r: "lock_reachable mgr_body mgr_exclusive mgr_new ?l"
    by (intro mgr.reachable_whole_call lock_reachable.start) simp_all
  have "lo_log ?l = [(Get_or_create ''z'', Pointer 0), (Get_or_create ''z'', Pointer 0)]"
    by (simp add: whole_call_def lock_new_def get_or_create_def mgr_new_def)
  then show ?thesis using r get_or_create_race_shares_one_set[OF r, of "''z''"] by auto
qed

end
