(* ===== verification/Ttl_Manager.thy ===== *)
theory Ttl_Manager
  imports Prelude
begin

text \<open>
  \<^verbatim>\<open>TTLManager\<close> and \<^verbatim>\<open>TTLManagerSingleton\<close> of
  \<^verbatim>\<open>src/src/data/ttl_manager.{hpp,cpp}\<close>. A time point of \<^verbatim>\<open>steady_clock\<close> is a number of
  nanoseconds; the reading of \<^verbatim>\<open>now()\<close> is an argument of the operations that take one.
  \<^verbatim>\<open>mutex_\<close> is not recursive: an operation that locks it twice does not return
  (\<open>Deadlock\<close>), and a deadline outside \<^verbatim>\<open>int64_t\<close> is \<open>Overflow\<close>.
  Positions of the heap are always in range under the invariant \<open>ttl_wf\<close>, which every
  operation keeps. The expiration callback is represented by the sequence of its arguments.
\<close>

section \<open>State\<close>

record ttl_entry =
  te_key :: string
  expire_time :: int
  te_id :: u64

record ttl_manager =
  expiration_heap :: "ttl_entry list"
  key_to_index :: "string \<Rightarrow> nat option"
  key_to_id :: "string \<Rightarrow> u64 option"
  next_id :: u64
  total_expired :: nat

datatype 'a outcome = Returned 'a | Deadlock | Overflow

definition ttl_new :: ttl_manager where
  "ttl_new = \<lparr>expiration_heap = [], key_to_index = Map.empty, key_to_id = Map.empty, next_id = 1,
              total_expired = 0\<rparr>"

definition te_after :: "ttl_entry \<Rightarrow> ttl_entry \<Rightarrow> bool" where
  "te_after a b = (expire_time a > expire_time b)"

definition ns_per_s :: int where "ns_per_s = 1000000000"
definition ns_per_ms :: int where "ns_per_ms = 1000000"

definition in_int64 :: "int \<Rightarrow> bool" where
  "in_int64 t = (- (2 ^ 63) \<le> t \<and> t < 2 ^ 63)"

text \<open>\<^verbatim>\<open>now() + duration\<close>, with the conversion of the duration to nanoseconds.\<close>

definition calculate_expire_time :: "int \<Rightarrow> int \<Rightarrow> int \<Rightarrow> int option" where
  "calculate_expire_time now unit amount =
     (if in_int64 (amount * unit) \<and> in_int64 (now + amount * unit) then Some (now + amount * unit) else None)"

section \<open>Heap operations\<close>

definition swap_entries :: "ttl_manager \<Rightarrow> nat \<Rightarrow> nat \<Rightarrow> ttl_manager" where
  "swap_entries m i j =
     (if i = j then m
      else let h = expiration_heap m;
               h' = h[i := h ! j, j := h ! i]
           in m\<lparr>expiration_heap := h',
                key_to_index := (key_to_index m)(te_key (h' ! i) \<mapsto> i, te_key (h' ! j) \<mapsto> j)\<rparr>)"

function heapify_up :: "ttl_manager \<Rightarrow> nat \<Rightarrow> ttl_manager" where
  "heapify_up m index =
     (if index > 0 then
        let parent = (index - 1) div 2
        in if te_after (expiration_heap m ! index) (expiration_heap m ! parent) then m
           else heapify_up (swap_entries m index parent) parent
      else m)"
  by pat_completeness auto
termination by (relation "measure snd") auto

lemma length_swap_entries [simp]:
  "length (expiration_heap (swap_entries m i j)) = length (expiration_heap m)"
  by (simp add: swap_entries_def Let_def)

text \<open>One round of \<^verbatim>\<open>heapify_down\<close>: the position called \<^verbatim>\<open>smallest\<close>.\<close>

definition heap_pick :: "ttl_entry list \<Rightarrow> nat \<Rightarrow> nat" where
  "heap_pick h index =
     (let left_child = 2 * index + 1; right_child = 2 * index + 2;
          s1 = (if left_child < length h \<and> te_after (h ! left_child) (h ! index) then left_child else index)
      in if right_child < length h \<and> te_after (h ! right_child) (h ! s1) then right_child else s1)"

lemma heap_pick_cases: "heap_pick h i = i \<or> i < heap_pick h i \<and> heap_pick h i < length h"
  by (auto simp: heap_pick_def Let_def)

function heapify_down :: "ttl_manager \<Rightarrow> nat \<Rightarrow> ttl_manager" where
  "heapify_down m index =
     (let smallest = heap_pick (expiration_heap m) index
      in if smallest = index then m else heapify_down (swap_entries m index smallest) smallest)"
  by pat_completeness auto
termination
proof (relation "measure (\<lambda>(m, index). length (expiration_heap m) - index)", goal_cases)
  case (2 m index x)
  then show ?case using heap_pick_cases[of "expiration_heap m" index] by auto
qed simp

definition remove_from_heap :: "ttl_manager \<Rightarrow> nat \<Rightarrow> ttl_manager" where
  "remove_from_heap m index =
     (if index \<ge> length (expiration_heap m) then m
      else let last_index = length (expiration_heap m) - 1;
               m1 = (if index \<noteq> last_index then swap_entries m index last_index else m);
               removed_key = te_key (last (expiration_heap m1));
               m2 = m1\<lparr>expiration_heap := butlast (expiration_heap m1),
                       key_to_index := (key_to_index m1)(removed_key := None),
                       key_to_id := (key_to_id m1)(removed_key := None)\<rparr>
           in if index \<noteq> last_index \<and> expiration_heap m2 \<noteq> []
              then heapify_down (heapify_up m2 index) index
              else m2)"

section \<open>Operations\<close>

definition remove_ttl :: "ttl_manager \<Rightarrow> string \<Rightarrow> ttl_manager \<times> bool" where
  "remove_ttl m key =
     (case key_to_index m key of
        None \<Rightarrow> (m, False)
      | Some index \<Rightarrow> (remove_from_heap m index, True))"

text \<open>The common part of \<^verbatim>\<open>set_ttl\<close> and \<^verbatim>\<open>set_ttl_ms\<close>, with the deadline computed.\<close>

definition set_deadline :: "ttl_manager \<Rightarrow> string \<Rightarrow> int \<Rightarrow> ttl_manager" where
  "set_deadline m0 key expire =
     (let id = next_id m0; m = m0\<lparr>next_id := id + 1\<rparr>
      in case key_to_index m key of
           Some index \<Rightarrow>
             let h = expiration_heap m;
                 m1 = m\<lparr>expiration_heap := h[index := (h ! index)\<lparr>expire_time := expire, te_id := id\<rparr>],
                        key_to_id := (key_to_id m)(key \<mapsto> id)\<rparr>
             in heapify_down (heapify_up m1 index) index
         | None \<Rightarrow>
             let h = expiration_heap m @ [\<lparr>te_key = key, expire_time = expire, te_id = id\<rparr>];
                 index = length h - 1;
                 m1 = m\<lparr>expiration_heap := h, key_to_index := (key_to_index m)(key \<mapsto> index),
                        key_to_id := (key_to_id m)(key \<mapsto> id)\<rparr>
             in heapify_up m1 index)"

text \<open>
  With \<^verbatim>\<open>seconds <= 0\<close> the source calls \<^verbatim>\<open>remove_ttl\<close>, which locks \<^verbatim>\<open>mutex_\<close>, while
  holding \<^verbatim>\<open>mutex_\<close>.
\<close>

definition set_ttl :: "int \<Rightarrow> ttl_manager \<Rightarrow> string \<Rightarrow> int \<Rightarrow> (ttl_manager \<times> bool) outcome" where
  "set_ttl now m key seconds =
     (if seconds \<le> 0 then Deadlock
      else case calculate_expire_time now ns_per_s seconds of
             None \<Rightarrow> Overflow
           | Some expire \<Rightarrow> Returned (set_deadline m key expire, True))"

definition set_ttl_ms :: "int \<Rightarrow> ttl_manager \<Rightarrow> string \<Rightarrow> int \<Rightarrow> (ttl_manager \<times> bool) outcome" where
  "set_ttl_ms now m key milliseconds =
     (if milliseconds \<le> 0 then Deadlock
      else case calculate_expire_time now ns_per_ms milliseconds of
             None \<Rightarrow> Overflow
           | Some expire \<Rightarrow> Returned (set_deadline m key expire, True))"

text \<open>\<^verbatim>\<open>duration_cast\<close> truncates towards zero.\<close>

definition duration_cast :: "int \<Rightarrow> int \<Rightarrow> int" where
  "duration_cast unit d = (if d < 0 then - ((- d) div unit) else d div unit)"

definition remaining_ttl :: "int \<Rightarrow> int \<Rightarrow> ttl_manager \<Rightarrow> string \<Rightarrow> int" where
  "remaining_ttl unit now m key =
     (case key_to_index m key of
        None \<Rightarrow> -1
      | Some index \<Rightarrow>
          let expire = expire_time (expiration_heap m ! index)
          in if expire \<le> now then -2 else duration_cast unit (expire - now))"

definition get_ttl :: "int \<Rightarrow> ttl_manager \<Rightarrow> string \<Rightarrow> int" where
  "get_ttl now m key = remaining_ttl ns_per_s now m key"

definition get_ttl_ms :: "int \<Rightarrow> ttl_manager \<Rightarrow> string \<Rightarrow> int" where
  "get_ttl_ms now m key = remaining_ttl ns_per_ms now m key"

definition has_ttl :: "ttl_manager \<Rightarrow> string \<Rightarrow> bool" where
  "has_ttl m key = (key_to_index m key \<noteq> None)"

definition ttl_size :: "ttl_manager \<Rightarrow> nat" where
  "ttl_size m = length (expiration_heap m)"

definition ttl_clear :: "ttl_manager \<Rightarrow> ttl_manager" where
  "ttl_clear m = m\<lparr>expiration_heap := [], key_to_index := Map.empty, key_to_id := Map.empty\<rparr>"

definition ttl_destroy :: "ttl_manager \<Rightarrow> ttl_manager" where
  "ttl_destroy m = ttl_clear m"

lemma length_heapify_up [simp]: "length (expiration_heap (heapify_up m i)) = length (expiration_heap m)"
proof (induction m i rule: heapify_up.induct)
  case (1 m i)
  then show ?case by (subst heapify_up.simps) (simp add: Let_def del: heapify_up.simps)
qed

lemma length_heapify_down [simp]:
  "length (expiration_heap (heapify_down m i)) = length (expiration_heap m)"
proof (induction m i rule: heapify_down.induct)
  case (1 m i)
  then show ?case by (subst heapify_down.simps) (simp add: Let_def del: heapify_down.simps)
qed

declare heapify_up.simps [simp del] heapify_down.simps [simp del]

lemma length_remove_from_heap:
  "i < length (expiration_heap m) \<Longrightarrow>
   length (expiration_heap (remove_from_heap m i)) = length (expiration_heap m) - 1"
  by (simp add: remove_from_heap_def Let_def)

text \<open>
  The loop of \<^verbatim>\<open>check_expirations\<close>: the manager afterwards and the keys that expired, in the
  order of the callbacks.
\<close>

function expire_loop :: "int \<Rightarrow> ttl_manager \<Rightarrow> ttl_manager \<times> string list" where
  "expire_loop now_time m =
     (if expiration_heap m = [] then (m, [])
      else let top = hd (expiration_heap m)
           in if expire_time top > now_time then (m, [])
              else let m1 = remove_from_heap m 0;
                       (m2, expired) = expire_loop now_time (m1\<lparr>total_expired := total_expired m1 + 1\<rparr>)
                   in (m2, te_key top # expired))"
  by pat_completeness auto
termination
  by (relation "measure (\<lambda>(_, m). length (expiration_heap m))") (auto simp: length_remove_from_heap)

declare expire_loop.simps [simp del]

definition check_expirations :: "int \<Rightarrow> ttl_manager \<Rightarrow> ttl_manager \<times> string list \<times> nat" where
  "check_expirations now_time m =
     (let (m', expired) = expire_loop now_time m in (m', expired, length expired))"

section \<open>Invariant and abstraction\<close>

text \<open>
  The index map locates exactly the keys of the heap, and the id map has their ids. The manager
  stands for the map from keys to deadlines.
\<close>

definition ttl_wf :: "ttl_manager \<Rightarrow> bool" where
  "ttl_wf m =
     ((\<forall>k i. key_to_index m k = Some i \<longleftrightarrow>
         i < length (expiration_heap m) \<and> te_key (expiration_heap m ! i) = k) \<and>
      (\<forall>k. key_to_id m k = map_option (\<lambda>i. te_id (expiration_heap m ! i)) (key_to_index m k)))"

definition deadline :: "ttl_manager \<Rightarrow> string \<Rightarrow> int option" where
  "deadline m k = map_option (\<lambda>i. expire_time (expiration_heap m ! i)) (key_to_index m k)"

lemma ttl_wf_index:
  "ttl_wf m \<Longrightarrow> key_to_index m k = Some i \<longleftrightarrow>
     i < length (expiration_heap m) \<and> te_key (expiration_heap m ! i) = k"
  by (simp add: ttl_wf_def)

lemma ttl_wf_id:
  "ttl_wf m \<Longrightarrow> key_to_id m k = map_option (\<lambda>i. te_id (expiration_heap m ! i)) (key_to_index m k)"
  by (simp add: ttl_wf_def)

lemma ttl_wf_none:
  "ttl_wf m \<Longrightarrow> key_to_index m k = None \<longleftrightarrow> k \<notin> te_key ` set (expiration_heap m)"
  by (simp only: not_Some_eq[symmetric] ttl_wf_index) (auto simp: in_set_conv_nth dest: nth_mem)

lemma ttl_key_unique:
  "ttl_wf m \<Longrightarrow> i < length (expiration_heap m) \<Longrightarrow> j < length (expiration_heap m) \<Longrightarrow>
   te_key (expiration_heap m ! i) = te_key (expiration_heap m ! j) \<longleftrightarrow> i = j"
  using ttl_wf_index[of m "te_key (expiration_heap m ! i)"] by (metis option.inject)

lemma deadline_in_heap:
  "ttl_wf m \<Longrightarrow> deadline m k = Some t \<longleftrightarrow>
     (\<exists>e \<in> set (expiration_heap m). te_key e = k \<and> expire_time e = t)"
  using ttl_wf_index[of m k] by (fastforce simp: deadline_def in_set_conv_nth)

lemma deadline_eqI:
  assumes "ttl_wf m" "ttl_wf m'" "set (expiration_heap m') = set (expiration_heap m)"
  shows "deadline m' = deadline m"
proof
  fix k
  have "deadline m' k = Some t \<longleftrightarrow> deadline m k = Some t" for t
    using assms by (simp add: deadline_in_heap)
  then show "deadline m' k = deadline m k" by (metis not_None_eq)
qed

lemma swap_entries_heap:
  "i < length (expiration_heap m) \<Longrightarrow> j < length (expiration_heap m) \<Longrightarrow>
   mset (expiration_heap (swap_entries m i j)) = mset (expiration_heap m)"
  by (simp add: swap_entries_def Let_def mset_swap)

lemma swap_entries_wf:
  assumes "ttl_wf m" "i < length (expiration_heap m)" "j < length (expiration_heap m)"
  shows "ttl_wf (swap_entries m i j)"
proof (cases "i = j")
  case True
  then show ?thesis using assms(1) by (simp add: swap_entries_def)
next
  case False
  let ?h = "expiration_heap m"
  have ne: "te_key (?h ! i) \<noteq> te_key (?h ! j)" using False ttl_key_unique[OF assms] by simp
  have idx: "key_to_index m k = Some l \<longleftrightarrow> l < length ?h \<and> te_key (?h ! l) = k" for k l
    using assms(1) by (rule ttl_wf_index)
  have old: "key_to_index m (te_key (?h ! i)) = Some i" "key_to_index m (te_key (?h ! j)) = Some j"
    using assms(2,3) by (simp_all add: idx)
  have id: "key_to_id m k = map_option (\<lambda>i. te_id (?h ! i)) (key_to_index m k)" for k
    using assms(1) by (simp add: ttl_wf_def)
  have nth: "?h[i := ?h ! j, j := ?h ! i] ! l = (if l = j then ?h ! i else if l = i then ?h ! j else ?h ! l)"
    if "l < length ?h" for l
    using that False by simp
  have index': "((key_to_index m)(te_key (?h ! j) \<mapsto> i, te_key (?h ! i) \<mapsto> j)) k = Some l \<longleftrightarrow>
      l < length ?h \<and> te_key (?h[i := ?h ! j, j := ?h ! i] ! l) = k" for k l
    using ne assms(2,3) idx[of k l] ttl_key_unique[OF assms(1)] by (auto simp: nth nth_list_update)
  have id': "key_to_id m k = map_option (\<lambda>l. te_id (?h[i := ?h ! j, j := ?h ! i] ! l))
      (((key_to_index m)(te_key (?h ! j) \<mapsto> i, te_key (?h ! i) \<mapsto> j)) k)" for k
  proof (cases "key_to_index m k")
    case None
    then show ?thesis using id[of k] old by auto
  next
    case (Some l)
    then have "l < length ?h" "te_key (?h ! l) = k" using idx by auto
    then show ?thesis using Some id[of k] old ne assms(2,3) False by (auto simp: nth_list_update)
  qed
  show ?thesis using False assms(2,3) index' id' by (simp add: ttl_wf_def swap_entries_def Let_def)
qed

text \<open>What sifting keeps: the entries and the invariant.\<close>

definition same_entries :: "ttl_manager \<Rightarrow> ttl_manager \<Rightarrow> bool" where
  "same_entries m m' =
     (mset (expiration_heap m') = mset (expiration_heap m) \<and> next_id m' = next_id m \<and>
      total_expired m' = total_expired m \<and> (ttl_wf m \<longrightarrow> ttl_wf m'))"

lemma same_entries_refl: "same_entries m m"
  by (simp add: same_entries_def)

lemma same_entries_trans: "same_entries m m' \<Longrightarrow> same_entries m' m'' \<Longrightarrow> same_entries m m''"
  by (simp add: same_entries_def)

lemma same_entries_swap:
  "i < length (expiration_heap m) \<Longrightarrow> j < length (expiration_heap m) \<Longrightarrow> same_entries m (swap_entries m i j)"
  using swap_entries_heap[of i m j] swap_entries_wf[of m i j]
  by (auto simp: same_entries_def) (simp_all add: swap_entries_def Let_def)

lemma same_entries_up: "i < length (expiration_heap m) \<Longrightarrow> same_entries m (heapify_up m i)"
proof (induction m i rule: heapify_up.induct)
  case (1 m i)
  show ?case
  proof (cases "0 < i \<and> \<not> te_after (expiration_heap m ! i) (expiration_heap m ! ((i - 1) div 2))")
    case True
    have p: "(i - 1) div 2 < length (expiration_heap m)" using "1.prems" by linarith
    have "same_entries (swap_entries m i ((i - 1) div 2)) (heapify_up (swap_entries m i ((i - 1) div 2)) ((i - 1) div 2))"
      using 1 True p by simp
    then show ?thesis using True same_entries_trans[OF same_entries_swap[OF "1.prems" p]]
      by (simp add: heapify_up.simps[of m i] Let_def)
  next
    case False
    then show ?thesis by (auto simp: heapify_up.simps[of m i] Let_def same_entries_refl)
  qed
qed

lemma same_entries_down: "i < length (expiration_heap m) \<Longrightarrow> same_entries m (heapify_down m i)"
proof (induction m i rule: heapify_down.induct)
  case (1 m i)
  let ?s = "heap_pick (expiration_heap m) i"
  show ?case
  proof (cases "?s = i")
    case True
    then show ?thesis by (simp add: heapify_down.simps[of m i] same_entries_refl)
  next
    case False
    then have s: "?s < length (expiration_heap m)" using heap_pick_cases[of "expiration_heap m" i] by auto
    have "same_entries (swap_entries m i ?s) (heapify_down (swap_entries m i ?s) ?s)"
      using 1 False s by simp
    then show ?thesis using False same_entries_trans[OF same_entries_swap[OF "1.prems" s]]
      by (simp add: heapify_down.simps[of m i] Let_def)
  qed
qed

lemma same_entries_sift:
  "i < length (expiration_heap m) \<Longrightarrow> same_entries m (heapify_down (heapify_up m i) i)"
  by (rule same_entries_trans[OF same_entries_up same_entries_down]) simp_all

lemma same_entries_deadline: "ttl_wf m \<Longrightarrow> same_entries m m' \<Longrightarrow> ttl_wf m' \<and> deadline m' = deadline m"
  using deadline_eqI[of m m'] by (metis same_entries_def set_mset_mset)

section \<open>What the operations do to the deadlines\<close>

lemma ttl_new_wf [wf_intros]: "ttl_wf ttl_new"
  by (simp add: ttl_wf_def ttl_new_def)

lemma ttl_new_deadline: "deadline ttl_new = Map.empty"
  by (simp add: deadline_def ttl_new_def fun_eq_iff)

lemma ttl_clear_wf [wf_intros]: "ttl_wf (ttl_clear m)"
  by (simp add: ttl_wf_def ttl_clear_def)

lemma ttl_clear_deadline [abs_simps]: "deadline (ttl_clear m) = Map.empty"
  by (simp add: deadline_def ttl_clear_def fun_eq_iff)

text \<open>Removing the last entry of the heap.\<close>

definition pop_entry :: "ttl_manager \<Rightarrow> ttl_manager" where
  "pop_entry m = (let k = te_key (last (expiration_heap m))
     in m\<lparr>expiration_heap := butlast (expiration_heap m), key_to_index := (key_to_index m)(k := None),
          key_to_id := (key_to_id m)(k := None)\<rparr>)"

lemma pop_entry_correct:
  assumes "ttl_wf m" "expiration_heap m \<noteq> []"
  shows "ttl_wf (pop_entry m) \<and> deadline (pop_entry m) = (deadline m)(te_key (last (expiration_heap m)) := None)"
proof -
  let ?h = "expiration_heap m"
  let ?n = "length ?h - 1"
  have last: "last ?h = ?h ! ?n" using assms(2) by (rule last_conv_nth)
  have n: "?n < length ?h" using assms(2) by simp
  have idx: "((key_to_index m)(te_key (last ?h) := None)) k = Some i \<longleftrightarrow>
      i < length ?h - 1 \<and> te_key (butlast ?h ! i) = k" for k i
    using ttl_wf_index[OF assms(1), of k i] ttl_key_unique[OF assms(1) n, of i] last
    by (auto simp: nth_butlast)
  have id: "((key_to_id m)(te_key (last ?h) := None)) k =
      map_option (\<lambda>i. te_id (butlast ?h ! i)) (((key_to_index m)(te_key (last ?h) := None)) k)" for k
  proof (cases "key_to_index m k")
    case None
    then show ?thesis using assms(1) by (auto simp: ttl_wf_def)
  next
    case (Some i)
    then have old: "key_to_id m k = Some (te_id (?h ! i))" using ttl_wf_id[OF assms(1), of k] by simp
    show ?thesis
    proof (cases "k = te_key (last ?h)")
      case False
      then have "i < length ?h - 1" using idx[of k i] Some by simp
      then show ?thesis using False Some old by (simp add: nth_butlast)
    qed simp
  qed
  have dl: "deadline (pop_entry m) k = ((deadline m)(te_key (last ?h) := None)) k" for k
  proof (cases "k = te_key (last ?h) \<or> key_to_index m k = None")
    case True
    then show ?thesis by (auto simp: deadline_def pop_entry_def Let_def)
  next
    case False
    then obtain i where i: "key_to_index m k = Some i" "k \<noteq> te_key (last ?h)" by auto
    then have "i < length ?h - 1" using idx[of k i] by simp
    then show ?thesis using i by (simp add: deadline_def pop_entry_def Let_def nth_butlast)
  qed
  show ?thesis using idx id dl by (simp add: ttl_wf_def pop_entry_def Let_def fun_eq_iff)
qed

lemma remove_from_heap_correct:
  assumes "ttl_wf m" "i < length (expiration_heap m)"
  shows "ttl_wf (remove_from_heap m i) \<and>
    deadline (remove_from_heap m i) = (deadline m)(te_key (expiration_heap m ! i) := None) \<and>
    next_id (remove_from_heap m i) = next_id m \<and> total_expired (remove_from_heap m i) = total_expired m"
proof -
  let ?n = "length (expiration_heap m) - 1"
  define m1 where "m1 = (if i \<noteq> ?n then swap_entries m i ?n else m)"
  have n: "?n < length (expiration_heap m)" using assms(2) by linarith
  have same: "same_entries m m1"
    using same_entries_swap[OF assms(2) n] by (simp add: m1_def same_entries_refl)
  then have m1: "ttl_wf m1" "deadline m1 = deadline m" using same_entries_deadline[OF assms(1)] by auto
  have len1: "length (expiration_heap m1) = length (expiration_heap m)" by (simp add: m1_def)
  then have ne: "expiration_heap m1 \<noteq> []" using assms(2) by auto
  have last: "te_key (last (expiration_heap m1)) = te_key (expiration_heap m ! i)"
  proof -
    have "last (expiration_heap m1) = expiration_heap m1 ! ?n" using last_conv_nth[OF ne] len1 by simp
    then show ?thesis using n assms(2) by (simp add: m1_def swap_entries_def Let_def)
  qed
  note pop = pop_entry_correct[OF m1(1) ne, unfolded last m1(2)]
  have len: "length (expiration_heap (pop_entry m1)) = ?n" by (simp add: pop_entry_def Let_def m1_def)
  have result: "remove_from_heap m i =
      (if i \<noteq> ?n \<and> expiration_heap (pop_entry m1) \<noteq> [] then heapify_down (heapify_up (pop_entry m1) i) i
       else pop_entry m1)"
    using assms(2) by (simp add: remove_from_heap_def pop_entry_def m1_def Let_def)
  have "i < length (expiration_heap (pop_entry m1))" if "i \<noteq> ?n" using that assms(2) len by simp
  then have sift: "same_entries (pop_entry m1) (remove_from_heap m i)"
    using result same_entries_sift[of i "pop_entry m1"] by (auto simp: same_entries_refl)
  have "next_id (pop_entry m1) = next_id m" "total_expired (pop_entry m1) = total_expired m"
    using same by (auto simp: pop_entry_def Let_def same_entries_def)
  then show ?thesis using pop same_entries_deadline[OF _ sift] sift by (auto simp: same_entries_def)
qed

lemma remove_ttl_correct:
  assumes "ttl_wf m"
  shows "ttl_wf (fst (remove_ttl m k)) \<and> deadline (fst (remove_ttl m k)) = (deadline m)(k := None) \<and>
    (snd (remove_ttl m k) \<longleftrightarrow> deadline m k \<noteq> None)"
proof (cases "key_to_index m k")
  case None
  then show ?thesis using assms by (auto simp: remove_ttl_def deadline_def fun_eq_iff)
next
  case (Some i)
  then have "i < length (expiration_heap m)" "te_key (expiration_heap m ! i) = k"
    using ttl_wf_index[OF assms] by auto
  then show ?thesis using remove_from_heap_correct[OF assms, of i] Some
    by (simp add: remove_ttl_def) (simp add: deadline_def)
qed

lemma set_deadline_correct:
  assumes "ttl_wf m"
  shows "ttl_wf (set_deadline m k t) \<and> deadline (set_deadline m k t) = (deadline m)(k \<mapsto> t)"
proof (cases "key_to_index m k")
  case None
  let ?e = "\<lparr>te_key = k, expire_time = t, te_id = next_id m\<rparr>"
  let ?m1 = "m\<lparr>next_id := next_id m + 1, expiration_heap := expiration_heap m @ [?e],
    key_to_index := (key_to_index m)(k \<mapsto> length (expiration_heap m)), key_to_id := (key_to_id m)(k \<mapsto> next_id m)\<rparr>"
  have fresh: "k \<notin> te_key ` set (expiration_heap m)" using None ttl_wf_none[OF assms] by blast
  have old: "key_to_index m k' = Some j \<Longrightarrow> j < length (expiration_heap m)" for k' j
    using ttl_wf_index[OF assms] by blast
  have wf: "ttl_wf ?m1"
    using assms fresh by (auto simp: ttl_wf_def nth_append less_Suc_eq option.map_comp
        intro!: option.map_cong)
  have "deadline ?m1 = (deadline m)(k \<mapsto> t)"
    using old by (auto simp: deadline_def nth_append fun_eq_iff intro!: option.map_cong)
  moreover have "set_deadline m k t = heapify_up ?m1 (length (expiration_heap m))"
    using None by (simp add: set_deadline_def Let_def)
  ultimately show ?thesis
    using same_entries_deadline[OF wf same_entries_up[of "length (expiration_heap m)" ?m1]] by simp
next
  case (Some i)
  let ?h = "expiration_heap m"
  let ?m1 = "m\<lparr>next_id := next_id m + 1,
    expiration_heap := ?h[i := (?h ! i)\<lparr>expire_time := t, te_id := next_id m\<rparr>],
    key_to_id := (key_to_id m)(k \<mapsto> next_id m)\<rparr>"
  have i: "i < length ?h" "te_key (?h ! i) = k" using Some ttl_wf_index[OF assms] by auto
  have key: "te_key (?h[i := (?h ! i)\<lparr>expire_time := t, te_id := next_id m\<rparr>] ! j) = te_key (?h ! j)"
    for j using i by (cases "j = i") auto
  have other: "key_to_index m k' = Some j \<Longrightarrow> j = i \<longleftrightarrow> k' = k" for k' j
    using Some i(2) ttl_wf_index[OF assms, of k' j] by (metis option.inject)
  have id: "((key_to_id m)(k \<mapsto> next_id m)) k' = map_option
      (\<lambda>j. te_id (?h[i := (?h ! i)\<lparr>expire_time := t, te_id := next_id m\<rparr>] ! j)) (key_to_index m k')" for k'
    using Some i(1) ttl_wf_id[OF assms, of k'] other[of k']
    by (cases "key_to_index m k'") (auto simp: nth_list_update)
  have wf: "ttl_wf ?m1" using ttl_wf_index[OF assms] id by (simp add: ttl_wf_def key)
  have "deadline ?m1 k' = ((deadline m)(k \<mapsto> t)) k'" for k'
    using i(1) Some other[of k'] by (cases "key_to_index m k'") (auto simp: deadline_def nth_list_update)
  then have "deadline ?m1 = (deadline m)(k \<mapsto> t)" by blast
  moreover have "set_deadline m k t = heapify_down (heapify_up ?m1 i) i"
    using Some by (simp add: set_deadline_def Let_def)
  ultimately show ?thesis using same_entries_deadline[OF wf same_entries_sift[of i ?m1]] i by simp
qed

lemmas set_deadline_wf [wf_intros] = set_deadline_correct[THEN conjunct1]
lemmas remove_ttl_wf [wf_intros] = remove_ttl_correct[THEN conjunct1]

lemma top_deadline:
  assumes "ttl_wf m" "expiration_heap m \<noteq> []"
  shows "deadline m (te_key (hd (expiration_heap m))) = Some (expire_time (hd (expiration_heap m)))"
  using assms by (auto simp: deadline_in_heap intro!: bexI[of _ "hd (expiration_heap m)"])

lemma expire_step:
  assumes "ttl_wf m" "expiration_heap m \<noteq> []"
  defines "m1 \<equiv> (remove_from_heap m 0)\<lparr>total_expired := total_expired (remove_from_heap m 0) + 1\<rparr>"
  shows "ttl_wf m1 \<and> deadline m1 = (deadline m)(te_key (hd (expiration_heap m)) := None) \<and>
    total_expired m1 = total_expired m + 1"
  using remove_from_heap_correct[OF assms(1), of 0] assms(2)
  by (simp add: m1_def ttl_wf_def deadline_def hd_conv_nth fun_eq_iff)

lemma expire_loop_correct:
  "ttl_wf m \<Longrightarrow> expire_loop now m = (m', ex) \<Longrightarrow>
   ttl_wf m' \<and> deadline m' = deadline m |` (- set ex) \<and> distinct ex \<and>
   (\<forall>k \<in> set ex. \<exists>t. deadline m k = Some t \<and> t \<le> now) \<and>
   total_expired m' = total_expired m + length ex \<and>
   (expiration_heap m' = [] \<or> now < expire_time (hd (expiration_heap m')))"
proof (induction now m arbitrary: m' ex rule: expire_loop.induct)
  case (1 now m)
  let ?top = "hd (expiration_heap m)"
  define m1 where "m1 = (remove_from_heap m 0)\<lparr>total_expired := total_expired (remove_from_heap m 0) + 1\<rparr>"
  show ?case
  proof (cases "expiration_heap m = [] \<or> now < expire_time ?top")
    case True
    then have "expire_loop now m = (m, [])"
      by (cases "expiration_heap m = []") (simp_all add: expire_loop.simps[of now m] Let_def)
    then show ?thesis using "1.prems" True by auto
  next
    case False
    then have ne: "expiration_heap m \<noteq> []" and due: "\<not> now < expire_time ?top" by auto
    obtain m2 ex2 where rest: "expire_loop now m1 = (m2, ex2)" by force
    then have eq: "m' = m2" "ex = te_key ?top # ex2"
      using ne due "1.prems"(2) by (simp_all add: expire_loop.simps[of now m] Let_def m1_def)
    note step = expire_step[OF "1.prems"(1) ne, folded m1_def]
    note IH = "1.IH"[OF ne refl due refl step[THEN conjunct1, unfolded m1_def] rest[unfolded m1_def],
        folded m1_def]
    have "deadline m2 = deadline m |` (- set ex)"
      using IH step unfolding eq by (auto simp: restrict_map_def fun_eq_iff)
    moreover have "te_key ?top \<notin> set ex2" "\<forall>k \<in> set ex2. \<exists>t. deadline m k = Some t \<and> t \<le> now"
      using IH step by (auto split: if_splits)
    moreover have "deadline m (te_key ?top) = Some (expire_time ?top)" "expire_time ?top \<le> now"
      using top_deadline[OF "1.prems"(1) ne] due by auto
    ultimately show ?thesis using IH step eq by auto
  qed
qed

section \<open>The order of the heap\<close>

text \<open>
  The heap order by positions, and the order with position \<open>i\<close> still to be sifted up: the
  entry there may be too early for its parent, but its children are later than its parent.
\<close>

definition min_heap :: "ttl_entry list \<Rightarrow> bool" where
  "min_heap h = (\<forall>j < length h. 0 < j \<longrightarrow> expire_time (h ! ((j - 1) div 2)) \<le> expire_time (h ! j))"

definition heap_but :: "ttl_entry list \<Rightarrow> nat \<Rightarrow> bool" where
  "heap_but h i =
     (\<forall>j < length h. 0 < j \<longrightarrow>
        (j \<noteq> i \<longrightarrow> expire_time (h ! ((j - 1) div 2)) \<le> expire_time (h ! j)) \<and>
        (0 < i \<and> (j - 1) div 2 = i \<longrightarrow> expire_time (h ! ((i - 1) div 2)) \<le> expire_time (h ! j)))"

lemma min_heap_top:
  assumes "min_heap h" "j < length h"
  shows "expire_time (h ! 0) \<le> expire_time (h ! j)"
  using assms(2)
proof (induction j rule: less_induct)
  case (less j)
  show ?case
  proof (cases "j = 0")
    case False
    then have "(j - 1) div 2 < j" by linarith
    then have "expire_time (h ! 0) \<le> expire_time (h ! ((j - 1) div 2))" using less by simp
    also have "\<dots> \<le> expire_time (h ! j)" using assms(1) less.prems False by (simp add: min_heap_def)
    finally show ?thesis .
  qed simp
qed

lemma heap_butD:
  assumes "heap_but h i" "j < length h" "0 < j"
  shows "j \<noteq> i \<Longrightarrow> expire_time (h ! ((j - 1) div 2)) \<le> expire_time (h ! j)"
    "0 < i \<Longrightarrow> (j - 1) div 2 = i \<Longrightarrow> expire_time (h ! ((i - 1) div 2)) \<le> expire_time (h ! j)"
  using assms by (simp_all add: heap_but_def)

lemma heap_but_swap_order:
  assumes "heap_but h i" "i < length h" "0 < i" "p = (i - 1) div 2" "expire_time (h ! i) \<le> expire_time (h ! p)"
    and "j < length h" "0 < j" "j \<noteq> p"
  shows "expire_time (h[i := h ! p, p := h ! i] ! ((j - 1) div 2)) \<le> expire_time (h[i := h ! p, p := h ! i] ! j)"
proof -
  have p: "p < i" "p < length h" and parent: "(j - 1) div 2 < length h" using assms by auto
  have nth: "h[i := h ! p, p := h ! i] ! k = (if k = p then h ! i else if k = i then h ! p else h ! k)" if "k < length h" for k
    using that p assms(2) by auto
  note order = heap_butD[OF assms(1,6,7)]
  consider "j = i" | "j \<noteq> i" "(j - 1) div 2 = i" | "j \<noteq> i" "(j - 1) div 2 = p"
    | "j \<noteq> i" "(j - 1) div 2 \<noteq> i" "(j - 1) div 2 \<noteq> p" by blast
  then show ?thesis
    by cases (use order assms(2-5,8) p in \<open>simp_all add: nth[OF parent] nth[OF assms(6)]\<close>)
qed

lemma heap_but_swap:
  assumes "heap_but h i" "i < length h" "0 < i" "expire_time (h ! i) \<le> expire_time (h ! ((i - 1) div 2))"
  defines "p \<equiv> (i - 1) div 2"
  shows "heap_but (h[i := h ! p, p := h ! i]) p"
  unfolding heap_but_def
proof (intro allI impI conjI)
  let ?h = "h[i := h ! p, p := h ! i]"
  have p: "p < i" "p < length h" using assms(2,3) by (auto simp: p_def)
  fix j assume "j < length ?h" and j0: "0 < j"
  then have j: "j < length h" and parent: "(j - 1) div 2 < j" by auto
  show "expire_time (?h ! ((j - 1) div 2)) \<le> expire_time (?h ! j)" if "j \<noteq> p"
    using heap_but_swap_order[OF assms(1-3) _ _ j j0] assms(4) that by (simp add: p_def)
  show "expire_time (?h ! ((p - 1) div 2)) \<le> expire_time (?h ! j)" if child: "0 < p \<and> (j - 1) div 2 = p"
  proof -
    have "(p - 1) div 2 < p" using child by linarith
    then have g: "(p - 1) div 2 < length h" "(p - 1) div 2 \<noteq> p" "(p - 1) div 2 \<noteq> i" "j \<noteq> p" using p child parent by auto
    have "expire_time (h ! ((p - 1) div 2)) \<le> expire_time (h ! p)" using heap_butD(1)[OF assms(1) p(2)] p child by auto
    moreover have "expire_time (h ! p) \<le> expire_time (h ! j)" if "j \<noteq> i" using heap_butD(1)[OF assms(1) j j0 that] child by simp
    ultimately show ?thesis using g p assms(2) by (cases "j = i") (auto intro: order_trans)
  qed
qed

lemma min_heap_but0: "heap_but h 0 \<Longrightarrow> min_heap h"
  by (simp add: heap_but_def min_heap_def)

lemma heap_but_min_heap:
  "heap_but h i \<Longrightarrow> expire_time (h ! ((i - 1) div 2)) \<le> expire_time (h ! i) \<Longrightarrow> min_heap h"
  by (auto simp: heap_but_def min_heap_def)

lemma heapify_up_min_heap:
  "heap_but (expiration_heap m) i \<Longrightarrow> i < length (expiration_heap m) \<Longrightarrow>
   min_heap (expiration_heap (heapify_up m i))"
proof (induction m i rule: heapify_up.induct)
  case (1 m i)
  let ?p = "(i - 1) div 2"
  let ?h = "expiration_heap m"
  consider (root) "i = 0" | (stop) "0 < i" "te_after (?h ! i) (?h ! ?p)"
    | (swap) "0 < i" "\<not> te_after (?h ! i) (?h ! ?p)" by blast
  then show ?case
  proof cases
    case root
    then show ?thesis using "1.prems" by (simp add: heapify_up.simps[of m 0] min_heap_but0)
  next
    case stop
    then show ?thesis using heap_but_min_heap[OF "1.prems"(1)]
      by (simp add: heapify_up.simps[of m i] te_after_def Let_def)
  next
    case swap
    then have ne: "i \<noteq> ?p" by linarith
    have "heap_but (expiration_heap (swap_entries m i ?p)) ?p"
      using heap_but_swap[OF "1.prems"] swap ne by (simp add: swap_entries_def te_after_def Let_def)
    moreover have "?p < length ?h" using "1.prems"(2) by linarith
    ultimately show ?thesis using "1.IH"[OF swap(1) refl swap(2)] swap
      by (simp add: heapify_up.simps[of m i] Let_def)
  qed
qed

lemma heap_but_append: "min_heap h \<Longrightarrow> heap_but (h @ [e]) (length h)"
  by (auto simp: min_heap_def heap_but_def nth_append less_Suc_eq)

lemma set_deadline_min_heap:
  assumes "min_heap (expiration_heap m)" "key_to_index m k = None"
  shows "min_heap (expiration_heap (set_deadline m k t))"
  using assms(2) heap_but_append[OF assms(1)]
  by (simp add: set_deadline_def Let_def heapify_up_min_heap)

section \<open>Histories\<close>

text \<open>The managers that calls which return build.\<close>

inductive ttl_reachable :: "ttl_manager \<Rightarrow> bool" where
  new: "ttl_reachable ttl_new"
| set_s: "ttl_reachable m \<Longrightarrow> set_ttl now m k s = Returned (m', b) \<Longrightarrow> ttl_reachable m'"
| set_ms: "ttl_reachable m \<Longrightarrow> set_ttl_ms now m k ms = Returned (m', b) \<Longrightarrow> ttl_reachable m'"
| remove: "ttl_reachable m \<Longrightarrow> ttl_reachable (fst (remove_ttl m k))"
| check: "ttl_reachable m \<Longrightarrow> ttl_reachable (fst (check_expirations now m))"
| clear: "ttl_reachable m \<Longrightarrow> ttl_reachable (ttl_clear m)"

lemma check_expirations_loop:
  "check_expirations now m = (fst (expire_loop now m), snd (expire_loop now m), length (snd (expire_loop now m)))"
  by (simp add: check_expirations_def case_prod_beta)

lemmas expire_facts = expire_loop_correct[OF _ surjective_pairing]

lemma reachable_ttl_wf: "ttl_reachable m \<Longrightarrow> ttl_wf m"
proof (induction rule: ttl_reachable.induct)
  case (check m now)
  then show ?case using expire_facts[of m now] by (simp add: check_expirations_loop)
qed (auto simp: set_ttl_def set_ttl_ms_def intro: wf_intros split: if_splits option.splits)

text \<open>
  \<^verbatim>\<open>background_checker_loop\<close>: each round reads \<^verbatim>\<open>running_\<close> and the clock; the list holds
  these readings. The result is the manager and the keys that expired, in order.
\<close>

fun background_checker_loop :: "ttl_manager \<Rightarrow> (bool \<times> int) list \<Rightarrow> ttl_manager \<times> string list" where
  "background_checker_loop m [] = (m, [])"
| "background_checker_loop m ((running, now) # rounds) =
     (if running then
        let (m1, expired, _) = check_expirations now m;
            (m2, later) = background_checker_loop m1 rounds
        in (m2, expired @ later)
      else (m, []))"

section \<open>Properties\<close>

text \<open>
  C26: In every manager that calls of the public operations build, the index map finds exactly
  the entries of the heap, at their positions, and the id map has their ids, whatever swaps the
  sifting made.
\<close>

theorem index_map_consistent:
  assumes "ttl_reachable m"
  shows "(\<forall>k i. key_to_index m k = Some i \<longleftrightarrow>
       i < length (expiration_heap m) \<and> te_key (expiration_heap m ! i) = k) \<and>
    (\<forall>k i. key_to_index m k = Some i \<longrightarrow> key_to_id m k = Some (te_id (expiration_heap m ! i))) \<and>
    distinct (map te_key (expiration_heap m)) \<and> ttl_size m = card (dom (deadline m))"
proof -
  note wf = reachable_ttl_wf[OF assms]
  have dist: "distinct (map te_key (expiration_heap m))"
    using ttl_key_unique[OF wf] by (simp add: distinct_conv_nth)
  have "dom (deadline m) = set (map te_key (expiration_heap m))"
  proof (rule set_eqI)
    fix k show "k \<in> dom (deadline m) \<longleftrightarrow> k \<in> set (map te_key (expiration_heap m))"
      using ttl_wf_none[OF wf, of k] by (simp add: deadline_def domIff)
  qed
  then have "card (dom (deadline m)) = ttl_size m" using distinct_card[OF dist] by (simp add: ttl_size_def)
  moreover have "key_to_id m k = Some (te_id (expiration_heap m ! i))" if "key_to_index m k = Some i" for k i
    using that ttl_wf_id[OF wf, of k] by simp
  ultimately show ?thesis by (intro conjI allI impI ttl_wf_index[OF wf] dist) simp_all
qed

text \<open>
  \<^verbatim>\<open>set_ttl\<close> with a positive number of seconds that does not overflow the clock sets
  that key's deadline and no other, and \<^verbatim>\<open>get_ttl\<close> reads the remaining whole seconds back,
  until it answers -2 from the deadline on; \<^verbatim>\<open>remove_ttl\<close> removes that key's deadline and no
  other, and then \<^verbatim>\<open>get_ttl\<close> answers -1.
\<close>

theorem set_get_remove_ttl:
  assumes "ttl_wf m" "0 < s" "in_int64 (s * ns_per_s)" "in_int64 (now + s * ns_per_s)" "0 \<le> d"
  shows "\<exists>m'. set_ttl now m k s = Returned (m', True) \<and> ttl_wf m' \<and>
    deadline m' = (deadline m)(k \<mapsto> now + s * ns_per_s) \<and>
    get_ttl (now + d) m' k = (if d < s * ns_per_s then (s * ns_per_s - d) div ns_per_s else -2) \<and>
    deadline (fst (remove_ttl m' k)) = (deadline m)(k := None) \<and> snd (remove_ttl m' k) \<and>
    get_ttl (now + d) (fst (remove_ttl m' k)) k = -1"
proof -
  let ?m' = "set_deadline m k (now + s * ns_per_s)"
  have set: "set_ttl now m k s = Returned (?m', True)"
    using assms(2-4) by (simp add: set_ttl_def calculate_expire_time_def)
  note dl = set_deadline_correct[OF assms(1), of k "now + s * ns_per_s"]
  note rem = remove_ttl_correct[of ?m' k]
  obtain i where i: "key_to_index ?m' k = Some i" "expire_time (expiration_heap ?m' ! i) = now + s * ns_per_s"
    using dl by (auto simp: deadline_def fun_eq_iff split: if_splits)
  have "get_ttl (now + d) ?m' k = (if d < s * ns_per_s then (s * ns_per_s - d) div ns_per_s else -2)"
    using i by (simp add: get_ttl_def remaining_ttl_def duration_cast_def Let_def)
  moreover have "deadline (fst (remove_ttl ?m' k)) k = None" using rem dl by simp
  then have "key_to_index (fst (remove_ttl ?m' k)) k = None" by (simp add: deadline_def)
  ultimately show ?thesis using set dl rem by (auto simp: get_ttl_def remaining_ttl_def fun_eq_iff)
qed

text \<open>
  C20: \<^verbatim>\<open>check_expirations\<close> never expires a key early: every key it reports had a deadline that
  has passed, each is reported once and counted, and all other keys keep their deadlines. When
  every deadline has passed it expires all of them.
\<close>

theorem check_expirations_never_early:
  assumes "ttl_wf m" "check_expirations now m = (m', expired, n)"
  shows "ttl_wf m' \<and> (\<forall>k \<in> set expired. \<exists>t. deadline m k = Some t \<and> t \<le> now) \<and>
    deadline m' = deadline m |` (- set expired) \<and> distinct expired \<and> n = length expired \<and>
    total_expired m' = total_expired m + n \<and>
    ((\<forall>k t. deadline m k = Some t \<longrightarrow> t \<le> now) \<longrightarrow> set expired = dom (deadline m) \<and> ttl_size m' = 0)"
proof -
  have m': "m' = fst (expire_loop now m)" "expired = snd (expire_loop now m)" "n = length expired"
    using assms(2) by (auto simp: check_expirations_loop)
  note facts = expire_facts[OF assms(1), of now, folded m'(1,2)]
  have "expiration_heap m' = []" if all: "\<forall>k t. deadline m k = Some t \<longrightarrow> t \<le> now"
  proof (rule ccontr)
    assume ne: "expiration_heap m' \<noteq> []"
    then have "now < expire_time (hd (expiration_heap m'))" using facts by blast
    moreover have "deadline m' (te_key (hd (expiration_heap m'))) = Some (expire_time (hd (expiration_heap m')))"
      using top_deadline facts ne by blast
    then have "deadline m (te_key (hd (expiration_heap m'))) = Some (expire_time (hd (expiration_heap m')))"
      using facts by (auto simp: restrict_map_def split: if_splits)
    ultimately show False using all by force
  qed
  moreover have "set expired = dom (deadline m)" if "expiration_heap m' = []"
  proof -
    have "deadline m' k = None" for k
      using ttl_wf_none[of m' k] facts that unfolding deadline_def[of m'] by simp
    then have gone: "k \<in> set expired \<or> deadline m k = None" for k
      using facts by (metis ComplI restrict_in)
    have "k \<in> set expired \<Longrightarrow> deadline m k \<noteq> None" for k using facts by fastforce
    then have "k \<in> set expired \<longleftrightarrow> deadline m k \<noteq> None" for k using gone[of k] by metis
    then show ?thesis by (simp add: set_eq_iff domIff)
  qed
  ultimately show ?thesis using facts m'(3) by (simp add: ttl_size_def)
qed

text \<open>
  Giving deadlines to new keys keeps the heap ordered by deadline, and a check of an ordered
  heap expires at least one key as soon as any deadline has passed.
\<close>

theorem new_deadlines_keep_heap_order:
  assumes "ttl_wf m" "min_heap (expiration_heap m)"
  shows "(deadline m k = None \<longrightarrow> min_heap (expiration_heap (set_deadline m k t))) \<and>
    ((\<exists>k' t'. deadline m k' = Some t' \<and> t' \<le> now) \<longrightarrow> 0 < snd (snd (check_expirations now m)))"
proof (intro conjI impI)
  assume "deadline m k = None"
  then show "min_heap (expiration_heap (set_deadline m k t))"
    using set_deadline_min_heap[OF assms(2)] by (simp add: deadline_def)
next
  assume "\<exists>k' t'. deadline m k' = Some t' \<and> t' \<le> now"
  then obtain e where "e \<in> set (expiration_heap m)" "expire_time e \<le> now"
    by (auto simp: deadline_in_heap[OF assms(1)])
  then obtain j where j: "j < length (expiration_heap m)" "expire_time (expiration_heap m ! j) \<le> now"
    by (auto simp: in_set_conv_nth)
  then have ne: "expiration_heap m \<noteq> []" by auto
  have "expire_time (hd (expiration_heap m)) \<le> now"
    using min_heap_top[OF assms(2) j(1)] j(2) ne by (simp add: hd_conv_nth)
  then show "0 < snd (snd (check_expirations now m))"
    using ne by (simp add: check_expirations_loop expire_loop.simps[of now m] Let_def case_prod_beta)
qed

text \<open>A new key whose deadline is the last goes to the end of the heap and stays there.\<close>

lemma set_last_deadline:
  assumes "key_to_index m k = None" "\<forall>e \<in> set (expiration_heap m). expire_time e < t"
  shows "set_deadline m k t =
    m\<lparr>next_id := next_id m + 1, expiration_heap := expiration_heap m @ [\<lparr>te_key = k, expire_time = t, te_id = next_id m\<rparr>],
      key_to_index := (key_to_index m)(k \<mapsto> length (expiration_heap m)), key_to_id := (key_to_id m)(k \<mapsto> next_id m)\<rparr>"
proof -
  let ?n = "length (expiration_heap m)"
  let ?m1 = "m\<lparr>next_id := next_id m + 1, expiration_heap := expiration_heap m @ [\<lparr>te_key = k, expire_time = t, te_id = next_id m\<rparr>],
    key_to_index := (key_to_index m)(k \<mapsto> ?n), key_to_id := (key_to_id m)(k \<mapsto> next_id m)\<rparr>"
  have "heapify_up ?m1 ?n = ?m1"
  proof (cases "?n = 0")
    case False
    then have p: "(?n - 1) div 2 < ?n" by linarith
    then have "expire_time (expiration_heap m ! ((?n - 1) div 2)) < t" using assms(2) nth_mem by blast
    then show ?thesis using p by (simp add: heapify_up.simps[of ?m1 ?n] te_after_def nth_append Let_def)
  qed (simp add: heapify_up.simps[of _ 0])
  moreover have "set_deadline m k t = heapify_up ?m1 ?n" using assms(1) by (simp add: set_deadline_def Let_def)
  ultimately show ?thesis by simp
qed

lemma set_ttl_last:
  assumes "0 < n" "in_int64 (n * ns_per_s)" "in_int64 (now + n * ns_per_s)"
    and "key_to_index m k = None" "\<forall>e \<in> set (expiration_heap m). expire_time e < now + n * ns_per_s"
  shows "set_ttl now m k n = Returned (m\<lparr>next_id := next_id m + 1,
    expiration_heap := expiration_heap m @ [\<lparr>te_key = k, expire_time = now + n * ns_per_s, te_id = next_id m\<rparr>],
    key_to_index := (key_to_index m)(k \<mapsto> length (expiration_heap m)), key_to_id := (key_to_id m)(k \<mapsto> next_id m)\<rparr>, True)"
proof -
  have "set_ttl now m k n = Returned (set_deadline m k (now + n * ns_per_s), True)"
    using assms(1-3) by (simp add: set_ttl_def calculate_expire_time_def)
  then show ?thesis by (simp only: set_last_deadline[OF assms(4,5)])
qed

text \<open>Removing the top of three entries in the order of their deadlines puts the last one on top, and leaves it there.\<close>

lemma remove_top_of_three:
  assumes "expiration_heap m = [ea, eb, ec]" "expire_time eb < expire_time ec"
  shows "expiration_heap (remove_from_heap m 0) = [ec, eb]"
    "key_to_index (remove_from_heap m 0) = (key_to_index m)(te_key ec \<mapsto> 0, te_key ea := None)"
  using assms
  by (simp_all add: remove_from_heap_def swap_entries_def heapify_up.simps[of _ 0] heapify_down.simps[of _ 0] heap_pick_def
      te_after_def numeral_2_eq_2 Let_def)

text \<open>
  C36: Removing an entry can leave the heap without order, because \<^verbatim>\<open>heapify_down\<close> looks for children that expire later instead of
  earlier and so lets an entry stay above one that expires before it; a check then misses keys that have expired. This is so for all
  three keys that are set with \<^verbatim>\<open>set_ttl\<close> to increasing deadlines: the heap is in order, a check between the first two
  deadlines expires the first key and leaves the heap out of order, and a check between the other two expires nothing, although
  the deadline of the second key has passed, as \<^verbatim>\<open>get_ttl\<close> says.
\<close>

theorem heapify_down_breaks_expiration:
  assumes "distinct [a, b, c]" "0 < x" "x < y" "y < z"
    and "\<forall>n \<in> {x, y, z}. in_int64 (n * ns_per_s) \<and> in_int64 (now + n * ns_per_s)"
    and "now + x * ns_per_s \<le> t1" "t1 < now + y * ns_per_s" "now + y * ns_per_s \<le> t2" "t2 < now + z * ns_per_s"
  shows "\<exists>m1 m2 m3 m4. set_ttl now ttl_new a x = Returned (m1, True) \<and> set_ttl now m1 b y = Returned (m2, True) \<and>
    set_ttl now m2 c z = Returned (m3, True) \<and> min_heap (expiration_heap m3) \<and>
    check_expirations t1 m3 = (m4, [a], 1) \<and> \<not> min_heap (expiration_heap m4) \<and>
    check_expirations t2 m4 = (m4, [], 0) \<and> get_ttl t2 m4 b = -2"
proof -
  let ?t = "\<lambda>n. now + n * ns_per_s" and ?e = "\<lambda>k n i. \<lparr>te_key = k, expire_time = now + n * ns_per_s, te_id = i\<rparr>"
  have ne: "a \<noteq> b" "a \<noteq> c" "b \<noteq> c" using assms(1) by auto
  have t: "?t x < ?t y" "?t y < ?t z" using assms(3,4) by (simp_all add: ns_per_s_def)
  obtain m1 where m1: "set_ttl now ttl_new a x = Returned (m1, True)" "expiration_heap m1 = [?e a x 1]" "next_id m1 = 2"
    "key_to_index m1 = [a \<mapsto> 0]"
    using set_ttl_last[of x now ttl_new a] assms(2,5) by (simp add: ttl_new_def)
  obtain m2 where m2: "set_ttl now m1 b y = Returned (m2, True)" "expiration_heap m2 = [?e a x 1, ?e b y 2]" "next_id m2 = 3"
    "key_to_index m2 = [a \<mapsto> 0, b \<mapsto> 1]"
    using set_ttl_last[of y now m1 b] m1(2-4) t ne assms(2-5) by simp
  obtain m3 where m3: "set_ttl now m2 c z = Returned (m3, True)" "expiration_heap m3 = [?e a x 1, ?e b y 2, ?e c z 3]"
    "key_to_index m3 = [a \<mapsto> 0, b \<mapsto> 1, c \<mapsto> 2]"
    using set_ttl_last[of z now m2 c] m2(2-4) t ne assms(2-5) by (simp add: numeral_2_eq_2)
  let ?r = "remove_from_heap m3 0"
  let ?m4 = "?r\<lparr>total_expired := total_expired ?r + 1\<rparr>"
  have r: "expiration_heap ?r = [?e c z 3, ?e b y 2]" "key_to_index ?r b = Some 1"
    using remove_top_of_three[OF m3(2)] t(2) m3(3) assms(1) by simp_all
  have ordered: "min_heap (expiration_heap m3)"
    using t by (auto simp: m3(2) min_heap_def less_Suc_eq numeral_3_eq_3)
  have unordered: "\<not> min_heap (expiration_heap ?m4)"
    using t(2) by (auto simp: r(1) min_heap_def intro!: exI[of _ 1])
  have stop: "expire_loop u ?m4 = (?m4, [])" if "u < ?t z" for u using that by (simp add: expire_loop.simps[of u] r(1))
  then have "expire_loop t1 m3 = (?m4, [a])"
    using assms(6,7) t(2) by (simp add: expire_loop.simps[of t1 m3] m3(2) Let_def)
  then have "check_expirations t1 m3 = (?m4, [a], 1)" "check_expirations t2 ?m4 = (?m4, [], 0)"
    using stop[OF assms(9)] by (simp_all add: check_expirations_def)
  moreover have "get_ttl t2 ?m4 b = -2" using r assms(8) by (simp add: get_ttl_def remaining_ttl_def)
  ultimately show ?thesis using m1(1) m2(1) m3(1) ordered unordered by blast
qed

text \<open>Deadlines of 1, 2 and 10 seconds.\<close>

theorem heapify_down_breaks_expiration_witness:
  "\<exists>m1 m2 m3 m4. set_ttl 0 ttl_new ''a'' 1 = Returned (m1, True) \<and> set_ttl 0 m1 ''b'' 2 = Returned (m2, True) \<and>
     set_ttl 0 m2 ''c'' 10 = Returned (m3, True) \<and> \<not> min_heap (expiration_heap m4) \<and>
     check_expirations ns_per_s m3 = (m4, [''a''], 1) \<and> check_expirations (2 * ns_per_s) m4 = (m4, [], 0) \<and>
     get_ttl (2 * ns_per_s) m4 ''b'' = -2"
  using heapify_down_breaks_expiration[of "''a''" "''b''" "''c''" 1 2 10 0 ns_per_s "2 * ns_per_s"]
  by (auto simp: in_int64_def ns_per_s_def)

text \<open>
  \<^verbatim>\<open>set_ttl\<close> and \<^verbatim>\<open>set_ttl_ms\<close> with zero or a negative amount, documented to remove the
  deadline, never return: they call \<^verbatim>\<open>remove_ttl\<close>, which locks the mutex they hold. For a
  positive amount that fits the clock they return true.
\<close>

theorem nonpositive_ttl_deadlocks:
  "(set_ttl now m k s = Deadlock \<longleftrightarrow> s \<le> 0) \<and> (set_ttl_ms now m k s = Deadlock \<longleftrightarrow> s \<le> 0) \<and>
   (0 < s \<and> in_int64 (s * ns_per_s) \<and> in_int64 (now + s * ns_per_s) \<longrightarrow>
      (\<exists>m'. set_ttl now m k s = Returned (m', True))) \<and>
   (0 < s \<and> in_int64 (s * ns_per_ms) \<and> in_int64 (now + s * ns_per_ms) \<longrightarrow>
      (\<exists>m'. set_ttl_ms now m k s = Returned (m', True)))"
  by (auto simp: set_ttl_def set_ttl_ms_def calculate_expire_time_def split: option.splits)

text \<open>
  The background checker keeps the invariant over any number of rounds, and each key it
  reports had a deadline no later than the clock of one of its rounds.
\<close>

theorem background_checker_never_early:
  "ttl_wf m \<Longrightarrow> background_checker_loop m rounds = (m', expired) \<Longrightarrow>
   ttl_wf m' \<and> deadline m' = deadline m |` (- set expired) \<and>
   (\<forall>k \<in> set expired. \<exists>t now. deadline m k = Some t \<and> t \<le> now \<and> (True, now) \<in> set rounds)"
proof (induction m rounds arbitrary: m' expired rule: background_checker_loop.induct)
  case (1 m)
  then show ?case by simp
next
  case (2 m running now rounds)
  show ?case
  proof (cases running)
    case False
    then show ?thesis using 2 by simp
  next
    case True
    let ?m1 = "fst (expire_loop now m)" and ?ex1 = "snd (expire_loop now m)"
    obtain m2 ex2 where rest: "background_checker_loop ?m1 rounds = (m2, ex2)" by force
    have eq: "m' = m2" "expired = ?ex1 @ ex2"
      using True rest "2.prems"(2) by (auto simp: check_expirations_loop Let_def)
    note one = expire_facts[OF "2.prems"(1), of now]
    have IH: "ttl_wf m2 \<and> deadline m2 = deadline ?m1 |` (- set ex2) \<and>
        (\<forall>k \<in> set ex2. \<exists>t now. deadline ?m1 k = Some t \<and> t \<le> now \<and> (True, now) \<in> set rounds)"
      using "2.IH"[OF True] one rest by (simp add: check_expirations_loop)
    have "deadline m2 = deadline m |` (- set expired)"
      using IH one unfolding eq by (auto simp: restrict_map_def fun_eq_iff)
    moreover have "\<exists>t now'. deadline m k = Some t \<and> t \<le> now' \<and> (True, now') \<in> set ((running, now) # rounds)"
      if k: "k \<in> set expired" for k
    proof (cases "k \<in> set ?ex1")
      case True
      then show ?thesis using one \<open>running\<close> by auto
    next
      case False
      then obtain t now' where "deadline ?m1 k = Some t" "t \<le> now'" "(True, now') \<in> set rounds"
        using k eq(2) IH by auto
      moreover from this have "deadline m k = Some t"
        using one by (auto simp: restrict_map_def split: if_splits)
      ultimately show ?thesis by auto
    qed
    ultimately show ?thesis using IH eq by auto
  qed
qed

section \<open>Statistics\<close>

record ttl_stats =
  total_ttl_entries :: nat
  expired_this_check :: nat
  stat_total_expired :: nat
  average_ttl_seconds :: real

definition ttl_get_stats :: "int \<Rightarrow> ttl_manager \<Rightarrow> ttl_stats" where
  "ttl_get_stats now_time m =
     \<lparr>total_ttl_entries = length (expiration_heap m), expired_this_check = 0,
      stat_total_expired = total_expired m,
      average_ttl_seconds =
        (if expiration_heap m \<noteq> []
         then foldl (\<lambda>sum e. sum + max 0 (real_of_int (duration_cast ns_per_s (expire_time e - now_time))))
                0 (expiration_heap m) / real (length (expiration_heap m))
         else 0)\<rparr>"

section \<open>Concrete managers\<close>

definition one_deadline :: ttl_manager where
  "one_deadline = set_deadline ttl_new ''a'' ns_per_s"

lemma one_deadline_reachable: "ttl_reachable one_deadline"
  by (rule ttl_reachable.set_s[OF ttl_reachable.new, of 0 "''a''" 1 _ True])
     (simp add: set_ttl_def calculate_expire_time_def in_int64_def ns_per_s_def one_deadline_def)

lemma one_deadline_wf: "ttl_wf one_deadline"
  by (rule reachable_ttl_wf[OF one_deadline_reachable])

lemma one_deadline_map: "deadline one_deadline = [''a'' \<mapsto> ns_per_s]"
  using set_deadline_correct[OF ttl_new_wf, of "''a''" ns_per_s]
  by (simp add: one_deadline_def ttl_new_deadline)

theorem index_map_consistent_witness: "distinct (map te_key (expiration_heap one_deadline))"
  using index_map_consistent[OF one_deadline_reachable] by blast

theorem set_get_remove_ttl_witness:
  "\<exists>m'. set_ttl 0 one_deadline ''b'' 5 = Returned (m', True) \<and> get_ttl 0 m' ''b'' = 5"
  using set_get_remove_ttl[OF one_deadline_wf, of 5 0 0 "''b''"]
  by (auto simp: in_int64_def ns_per_s_def)

theorem check_expirations_never_early_witness:
  "set (fst (snd (check_expirations ns_per_s one_deadline))) = {''a''}"
  using check_expirations_never_early[OF one_deadline_wf, of ns_per_s] one_deadline_map
  by (cases "check_expirations ns_per_s one_deadline") (auto split: if_splits)

theorem new_deadlines_keep_heap_order_witness:
  "0 < snd (snd (check_expirations ns_per_s one_deadline)) \<and> min_heap (expiration_heap one_deadline)"
proof -
  have "min_heap (expiration_heap one_deadline)" by code_simp
  then show ?thesis
    using new_deadlines_keep_heap_order[OF one_deadline_wf, of "''b''" 0 ns_per_s] one_deadline_map by auto
qed

theorem nonpositive_ttl_deadlocks_witness:
  "set_ttl 0 ttl_new ''a'' 0 = Deadlock \<and> (\<exists>m'. set_ttl 0 ttl_new ''a'' 1 = Returned (m', True))"
  using nonpositive_ttl_deadlocks[of 0 ttl_new "''a''" 0] nonpositive_ttl_deadlocks[of 0 ttl_new "''a''" 1]
  by (simp add: in_int64_def ns_per_s_def)

theorem background_checker_never_early_witness:
  "ttl_wf (fst (background_checker_loop one_deadline [(True, 0), (True, ns_per_s), (False, 0)]))"
  using background_checker_never_early[OF one_deadline_wf, of "[(True, 0), (True, ns_per_s), (False, 0)]"]
  by (metis surjective_pairing)

end
