(* ===== verification/Ttl_Background.thy ===== *)
theory Ttl_Background
  imports Ttl_Manager
begin

text \<open>
  The rest of \<^verbatim>\<open>src/src/data/ttl_manager.{hpp,cpp}\<close>: the expiration callback, which is called with the
  mutex of the manager locked, and the background checker of \<^verbatim>\<open>TTLManagerSingleton\<close> up to the end of the program, which destroys it.
  Threads that start and stop the checker, the thread of the checker and users of the manager take turns, one
  statement at a time; a call of the manager is one step, because it holds the mutex, or never comes back.
\<close>

section \<open>The callback\<close>

text \<open>
  A callback is described by the keys for which it calls the manager again; \<open>None\<close> means that none was
  set. Such a call locks the mutex a second time.
\<close>

type_synonym ttl_callback = "(string \<Rightarrow> bool) option"

definition set_expiration_callback :: "ttl_callback \<Rightarrow> (string \<Rightarrow> bool) \<Rightarrow> ttl_callback" where
  "set_expiration_callback cb callback = Some callback"

function expire_with_callback :: "ttl_callback \<Rightarrow> int \<Rightarrow> ttl_manager \<Rightarrow> (ttl_manager \<times> string list) outcome" where
  "expire_with_callback cb now_time m =
     (if expiration_heap m = [] then Returned (m, [])
      else let top = hd (expiration_heap m)
           in if expire_time top > now_time then Returned (m, [])
              else let m1 = remove_from_heap m 0
                   in if (case cb of None \<Rightarrow> False | Some callback \<Rightarrow> callback (te_key top)) then Deadlock
                      else case expire_with_callback cb now_time (m1\<lparr>total_expired := total_expired m1 + 1\<rparr>) of
                             Returned (m2, expired) \<Rightarrow> Returned (m2, te_key top # expired)
                           | r \<Rightarrow> r)"
  by pat_completeness auto
termination
  by (relation "measure (\<lambda>(_, _, m). length (expiration_heap m))") (auto simp: length_remove_from_heap)

declare expire_with_callback.simps [simp del]

text \<open>
  \<^verbatim>\<open>check_expirations\<close> calls the callback with its mutex locked: it deadlocks exactly when the callback calls the
  manager for one of the keys that expire, and otherwise the callback changes nothing.
\<close>

theorem callback_deadlocks_iff_relocks:
  "expire_with_callback (Some callback) now_time m =
     (if \<exists>k \<in> set (snd (expire_loop now_time m)). callback k then Deadlock else Returned (expire_loop now_time m))"
proof (induction now_time m rule: expire_loop.induct)
  case (1 now_time m)
  note step = expire_with_callback.simps[of _ now_time m] expire_loop.simps[of now_time m]
  show ?case
  proof (cases "expiration_heap m = [] \<or> expire_time (hd (expiration_heap m)) > now_time")
    case True
    then show ?thesis by (auto simp: step Let_def)
  next
    case False
    then show ?thesis using 1 by (auto simp: step Let_def case_prod_beta split: if_splits)
  qed
qed

lemma no_callback: "expire_with_callback None now m = expire_with_callback (Some (\<lambda>_. False)) now m"
proof (induction "None :: ttl_callback" now m rule: expire_with_callback.induct)
  case (1 now m)
  then show ?case by (simp add: expire_with_callback.simps[of _ now m] Let_def)
qed

section \<open>The background checker\<close>

text \<open>
  Where a caller is in \<^verbatim>\<open>start_background_checker\<close> or \<^verbatim>\<open>stop_background_checker\<close>: past the test of the flag, or past
  its assignment. The thread of the checker tests the flag, works or sleeps. \<open>bg_stuck\<close> says that some thread holds the mutex of
  the manager and waits for it, so that nobody gets it any more.
\<close>

datatype caller_pc = Outside | Start_checked | Start_marked | Stop_checked | Stop_marked

datatype loop_pc = Not_started | Testing | Working | Sleeping | Ended

record bg_state =
  bg_manager :: ttl_manager
  bg_stuck :: bool
  bg_running :: bool
  bg_joinable :: bool
  bg_loop :: loop_pc
  bg_terminated :: bool
  bg_expired :: "string list"
  bg_pc :: "nat \<Rightarrow> caller_pc"

definition bg_start :: bg_state where
  "bg_start = \<lparr>bg_manager = ttl_new, bg_stuck = False, bg_running = False, bg_joinable = False, bg_loop = Not_started,
     bg_terminated = False, bg_expired = [], bg_pc = (\<lambda>_. Outside)\<rparr>"

text \<open>
  The next statement of a caller that starts or stops the checker. Assigning a new thread to a \<^verbatim>\<open>std::thread\<close> that is still joinable ends
  the program. \<open>None\<close> is a \<^verbatim>\<open>join\<close> that has to wait.
\<close>

definition start_background_checker :: "bg_state \<Rightarrow> nat \<Rightarrow> bg_state" where
  "start_background_checker s i =
     (case bg_pc s i of
        Outside \<Rightarrow> if bg_running s then s else s\<lparr>bg_pc := (bg_pc s)(i := Start_checked)\<rparr>
      | Start_checked \<Rightarrow> s\<lparr>bg_running := True, bg_pc := (bg_pc s)(i := Start_marked)\<rparr>
      | Start_marked \<Rightarrow>
          if bg_joinable s then s\<lparr>bg_terminated := True\<rparr>
          else s\<lparr>bg_joinable := True, bg_loop := Testing, bg_pc := (bg_pc s)(i := Outside)\<rparr>
      | _ \<Rightarrow> s)"

definition stop_background_checker :: "bg_state \<Rightarrow> nat \<Rightarrow> bg_state option" where
  "stop_background_checker s i =
     (case bg_pc s i of
        Outside \<Rightarrow> Some (if \<not> bg_running s then s else s\<lparr>bg_pc := (bg_pc s)(i := Stop_checked)\<rparr>)
      | Stop_checked \<Rightarrow> Some (s\<lparr>bg_running := False, bg_pc := (bg_pc s)(i := Stop_marked)\<rparr>)
      | Stop_marked \<Rightarrow>
          if bg_joinable s then
            if bg_loop s = Ended then Some (s\<lparr>bg_joinable := False, bg_pc := (bg_pc s)(i := Outside)\<rparr>) else None
          else Some (s\<lparr>bg_pc := (bg_pc s)(i := Outside)\<rparr>)
      | _ \<Rightarrow> Some s)"

text \<open>
  The next statement of the thread, at a time \<open>now\<close>. A check has to wait for the mutex when another thread is stuck with it, and
  is stuck itself when the callback calls the manager for a key that expires.
\<close>

definition checker_step :: "ttl_callback \<Rightarrow> int \<Rightarrow> bg_state \<Rightarrow> bg_state" where
  "checker_step cb now s =
     (case bg_loop s of
        Testing \<Rightarrow> s\<lparr>bg_loop := (if bg_running s then Working else Ended)\<rparr>
      | Working \<Rightarrow>
          if bg_stuck s then s
          else (case expire_with_callback cb now (bg_manager s) of
                  Returned (m, expired) \<Rightarrow> s\<lparr>bg_manager := m, bg_expired := bg_expired s @ expired, bg_loop := Sleeping\<rparr>
                | _ \<Rightarrow> s\<lparr>bg_stuck := True\<rparr>)
      | Sleeping \<Rightarrow> s\<lparr>bg_loop := Testing\<rparr>
      | _ \<Rightarrow> s)"

text \<open>
  The end of the program, which destroys the singleton: its \<^verbatim>\<open>std::thread\<close> ends the program by \<^verbatim>\<open>std::terminate\<close> when it is still
  joinable, because no destructor stops the checker. Otherwise the manager is cleared.
\<close>

definition program_exit :: "bg_state \<Rightarrow> bg_state" where
  "program_exit s = (if bg_joinable s then s\<lparr>bg_terminated := True\<rparr> else s\<lparr>bg_manager := ttl_destroy (bg_manager s)\<rparr>)"

text \<open>The calls of the manager by any thread, and how they come back; a deadline beyond the clock is left out.\<close>

inductive manager_call :: "ttl_callback \<Rightarrow> ttl_manager \<Rightarrow> (ttl_manager \<times> string list) outcome \<Rightarrow> bool" for cb m where
  set: "set_ttl now m key seconds = Returned (m', b) \<Longrightarrow> manager_call cb m (Returned (m', []))"
| set_stuck: "set_ttl now m key seconds = Deadlock \<Longrightarrow> manager_call cb m Deadlock"
| set_ms: "set_ttl_ms now m key ms = Returned (m', b) \<Longrightarrow> manager_call cb m (Returned (m', []))"
| set_ms_stuck: "set_ttl_ms now m key ms = Deadlock \<Longrightarrow> manager_call cb m Deadlock"
| remove: "manager_call cb m (Returned (fst (remove_ttl m key), []))"
| clear: "manager_call cb m (Returned (ttl_clear m, []))"
| check: "manager_call cb m (expire_with_callback cb now m)"

text \<open>Programs in which the threads in \<open>callers\<close> start and stop the checker; any thread may use the manager.\<close>

inductive bg_step :: "ttl_callback \<Rightarrow> nat set \<Rightarrow> bg_state \<Rightarrow> bg_state \<Rightarrow> bool" for cb callers where
  start_call: "i \<in> callers \<Longrightarrow> bg_step cb callers s (start_background_checker s i)"
| stop_call: "i \<in> callers \<Longrightarrow> stop_background_checker s i = Some s' \<Longrightarrow> bg_step cb callers s s'"
| checker: "bg_step cb callers s (checker_step cb now s)"
| use: "\<not> bg_stuck s \<Longrightarrow> manager_call cb (bg_manager s) (Returned (m, expired)) \<Longrightarrow>
    bg_step cb callers s (s\<lparr>bg_manager := m, bg_expired := bg_expired s @ expired\<rparr>)"
| use_stuck: "\<not> bg_stuck s \<Longrightarrow> manager_call cb (bg_manager s) Deadlock \<Longrightarrow> bg_step cb callers s (s\<lparr>bg_stuck := True\<rparr>)"

definition bg_steps :: "ttl_callback \<Rightarrow> nat set \<Rightarrow> bg_state \<Rightarrow> bg_state \<Rightarrow> bool" where
  "bg_steps cb callers = (bg_step cb callers)\<^sup>*\<^sup>*"

definition bg_reachable :: "ttl_callback \<Rightarrow> nat set \<Rightarrow> bg_state \<Rightarrow> bool" where
  "bg_reachable cb callers s = bg_steps cb callers bg_start s"

definition active :: "loop_pc \<Rightarrow> bool" where
  "active p = (p = Testing \<or> p = Working \<or> p = Sleeping)"

text \<open>With one caller, the flag, the thread and where the caller is agree.\<close>

definition bg_inv :: "nat \<Rightarrow> bg_state \<Rightarrow> bool" where
  "bg_inv i s =
     (\<not> bg_terminated s \<and> (active (bg_loop s) \<longrightarrow> bg_joinable s) \<and>
      (case bg_pc s i of
         Outside \<Rightarrow> bg_running s = bg_joinable s \<and> active (bg_loop s) = bg_running s
       | Start_checked \<Rightarrow> \<not> bg_running s \<and> \<not> bg_joinable s
       | Start_marked \<Rightarrow> bg_running s \<and> \<not> bg_joinable s
       | Stop_checked \<Rightarrow> bg_running s \<and> bg_joinable s \<and> active (bg_loop s)
       | Stop_marked \<Rightarrow> \<not> bg_running s \<and> bg_joinable s \<and> bg_loop s \<noteq> Not_started))"

lemma bg_inv_start: "bg_inv i bg_start"
  by (simp add: bg_inv_def bg_start_def active_def)

lemma bg_inv_start_call: "bg_inv i s \<Longrightarrow> bg_inv i (start_background_checker s i)"
  by (cases "bg_pc s i") (auto simp: bg_inv_def start_background_checker_def active_def)

lemma bg_inv_stop_call: "bg_inv i s \<Longrightarrow> stop_background_checker s i = Some s' \<Longrightarrow> bg_inv i s'"
  by (cases "bg_pc s i") (auto simp: bg_inv_def stop_background_checker_def active_def split: if_splits)

text \<open>What a step of the checker leaves alone, and how its thread goes on.\<close>

lemma checker_step_frame [simp]:
  "bg_running (checker_step cb now s) = bg_running s" "bg_joinable (checker_step cb now s) = bg_joinable s"
  "bg_terminated (checker_step cb now s) = bg_terminated s" "bg_pc (checker_step cb now s) = bg_pc s"
  by (cases "bg_loop s"; auto simp: checker_step_def split: outcome.splits)+

lemma checker_step_loop:
  "bg_loop (checker_step cb now s) =
     (case bg_loop s of
        Testing \<Rightarrow> if bg_running s then Working else Ended
      | Working \<Rightarrow> if bg_stuck (checker_step cb now s) then Working else Sleeping
      | Sleeping \<Rightarrow> Testing
      | p \<Rightarrow> p)"
  by (cases "bg_loop s") (auto simp: checker_step_def split: outcome.splits)

lemma bg_inv_checker: "bg_inv i s \<Longrightarrow> bg_inv i (checker_step cb now s)"
  by (cases "bg_loop s"; cases "bg_pc s i") (auto simp: bg_inv_def checker_step_loop active_def)

lemma bg_inv_use: "bg_inv i (s\<lparr>bg_manager := m, bg_expired := e\<rparr>) = bg_inv i s" "bg_inv i (s\<lparr>bg_stuck := b\<rparr>) = bg_inv i s"
  by (cases "bg_pc s i"; simp add: bg_inv_def)+

lemma bg_inv_step: "bg_step cb {i} s s' \<Longrightarrow> bg_inv i s \<Longrightarrow> bg_inv i s'"
  by (induction rule: bg_step.induct) (auto simp: bg_inv_use intro: bg_inv_start_call bg_inv_stop_call bg_inv_checker)

lemma reachable_bg_inv: "bg_reachable cb {i} s \<Longrightarrow> bg_inv i s"
  unfolding bg_reachable_def bg_steps_def
  by (induction rule: rtranclp_induct) (auto intro: bg_inv_start bg_inv_step)

section \<open>A stop\<close>

text \<open>Once a thread is stuck with the mutex, a checker that wants it waits for ever, and a stop waits for the checker.\<close>

definition bg_waiting :: "bg_state \<Rightarrow> bool" where
  "bg_waiting s = (bg_stuck s \<and> bg_loop s = Working \<and> bg_joinable s)"

lemma bg_waiting_step: "bg_step cb {i} s s' \<Longrightarrow> bg_waiting s \<and> bg_pc s i = Stop_marked \<Longrightarrow> bg_waiting s' \<and> bg_pc s' i = Stop_marked"
  by (induction rule: bg_step.induct)
     (auto simp: bg_waiting_def start_background_checker_def stop_background_checker_def checker_step_def)

lemma bg_waiting_steps:
  "bg_steps cb {i} s s' \<Longrightarrow> bg_waiting s \<Longrightarrow> bg_pc s i = Stop_marked \<Longrightarrow> bg_waiting s' \<and> bg_pc s' i = Stop_marked"
  unfolding bg_steps_def by (induction rule: rtranclp_induct) (auto dest: bg_waiting_step)

lemma stuck_stays: "bg_stuck s \<Longrightarrow> bg_stuck (checker_step cb now s)"
  by (cases "bg_loop s") (auto simp: checker_step_def)

lemma checker_stops:
  assumes "\<not> bg_running s" "active (bg_loop s)" "s' = checker_step cb t3 (checker_step cb t2 (checker_step cb t1 s))"
  shows "bg_loop s' = Ended \<or> bg_stuck s' \<and> bg_loop s' = Working"
  using assms(1,2) unfolding assms(3)
  by (auto simp: active_def checker_step_loop stuck_stays split: loop_pc.splits)

text \<open>After the flag is reset the checker checks at most once more, and gets stuck only in a callback that calls the manager.\<close>

lemma last_check_stuck:
  assumes "\<not> bg_running s" "\<not> bg_stuck s" "bg_stuck (checker_step cb t3 (checker_step cb t2 (checker_step cb t1 s)))"
  shows "\<exists>callback. cb = Some callback \<and> (\<exists>k \<in> set (snd (expire_loop t1 (bg_manager s))). callback k)"
proof -
  have quiet: "bg_stuck (checker_step cb t x) = bg_stuck x" if "bg_loop x \<noteq> Working" for t x
    using that by (cases "bg_loop x") (simp_all add: checker_step_def)
  have "bg_loop s = Working \<and> bg_stuck (checker_step cb t1 s)"
  proof (cases "bg_loop s = Working")
    case True
    then show ?thesis using assms
      by (cases "bg_stuck (checker_step cb t1 s)") (simp_all add: quiet checker_step_loop)
  next
    case False
    then show ?thesis using assms by (cases "bg_loop s") (simp_all add: quiet checker_step_loop)
  qed
  then show ?thesis using assms(2)
    by (cases cb) (auto simp: checker_step_def no_callback callback_deadlocks_iff_relocks case_prod_beta split: if_splits)
qed

text \<open>
  C39: One thread that starts and stops the background checker, while any threads use the manager with any callback: starting and
  stopping never terminate the program, and when a stop has returned the checker has ended and expires nothing any more. A stop that
  waits for the checker returns after at most three steps of it, unless a thread is stuck with the mutex of the manager, which was so
  before or comes from the callback that calls the manager for a key that expires in the last check; then the stop
  never returns. A program that ends is terminated by the destructor of \<^verbatim>\<open>std::thread\<close> exactly when it has not stopped the checker.
\<close>

theorem single_caller_stops_checker:
  assumes "bg_reachable cb {i} s"
  shows "\<not> bg_terminated s \<and>
    (bg_pc s i = Outside \<and> \<not> bg_running s \<longrightarrow>
       (bg_loop s = Not_started \<or> bg_loop s = Ended) \<and> (\<forall>now. checker_step cb now s = s)) \<and>
    (bg_pc s i = Stop_marked \<longrightarrow> (\<forall>t1 t2 t3 s'. s' = checker_step cb t3 (checker_step cb t2 (checker_step cb t1 s)) \<longrightarrow>
       stop_background_checker s' i \<noteq> None \<or>
       (bg_stuck s \<or> (\<exists>callback. cb = Some callback \<and> (\<exists>k \<in> set (snd (expire_loop t1 (bg_manager s))). callback k))) \<and>
       (\<forall>s''. bg_steps cb {i} s' s'' \<longrightarrow> bg_pc s'' i = Stop_marked \<and> stop_background_checker s'' i = None))) \<and>
    (bg_pc s i = Outside \<longrightarrow> (bg_terminated (program_exit s) \<longleftrightarrow> bg_running s))"
proof -
  have inv: "bg_inv i s" by (rule reachable_bg_inv[OF assms])
  have "(bg_loop s = Not_started \<or> bg_loop s = Ended) \<and> checker_step cb now s = s" if "\<not> active (bg_loop s)" for now
    using that by (cases "bg_loop s") (simp_all add: checker_step_def active_def)
  moreover have "stop_background_checker s' i \<noteq> None \<or>
      (bg_stuck s \<or> (\<exists>callback. cb = Some callback \<and> (\<exists>k \<in> set (snd (expire_loop t1 (bg_manager s))). callback k))) \<and>
      (\<forall>s''. bg_steps cb {i} s' s'' \<longrightarrow> bg_pc s'' i = Stop_marked \<and> stop_background_checker s'' i = None)"
    if pc: "bg_pc s i = Stop_marked" and s': "s' = checker_step cb t3 (checker_step cb t2 (checker_step cb t1 s))" for t1 t2 t3 s'
  proof -
    have run: "\<not> bg_running s" "bg_joinable s" "bg_loop s = Ended \<or> active (bg_loop s)"
      using inv pc by (auto simp: bg_inv_def active_def) (cases "bg_loop s"; simp)+
    have "bg_loop s' = Ended" if "bg_loop s = Ended" using that by (simp add: s' checker_step_loop)
    then have "bg_loop s' = Ended \<or> bg_stuck s' \<and> bg_loop s' = Working" using run checker_stops[OF _ _ s'] by blast
    moreover have "stop_background_checker s' i \<noteq> None" if "bg_loop s' = Ended"
      using that pc by (simp add: s' stop_background_checker_def)
    moreover have "bg_pc s'' i = Stop_marked \<and> stop_background_checker s'' i = None"
      if "bg_stuck s' \<and> bg_loop s' = Working" "bg_steps cb {i} s' s''" for s''
      using bg_waiting_steps[OF that(2)] that(1) run(2) pc by (auto simp: s' bg_waiting_def stop_background_checker_def)
    moreover note last_check_stuck[OF run(1), of cb t3 t2 t1, folded s']
    ultimately show ?thesis by blast
  qed
  ultimately show ?thesis using inv by (auto simp: bg_inv_def program_exit_def)
qed

text \<open>
  Two threads that start the checker at the same time can end the program: both find that it does not run,
  both create a thread, and the second assignment finds a thread that is still joinable.
\<close>

lemma bg_reachable_start_call: "bg_reachable cb callers s \<Longrightarrow> i \<in> callers \<Longrightarrow> bg_reachable cb callers (start_background_checker s i)"
  unfolding bg_reachable_def bg_steps_def by (rule rtranclp.rtrancl_into_rtrancl) (auto intro: start_call)

lemma bg_reachable_stop_call:
  "bg_reachable cb callers s \<Longrightarrow> i \<in> callers \<Longrightarrow> stop_background_checker s i = Some s' \<Longrightarrow> bg_reachable cb callers s'"
  unfolding bg_reachable_def bg_steps_def by (rule rtranclp.rtrancl_into_rtrancl) (auto intro: stop_call)

lemma bg_reachable_init: "bg_reachable cb callers bg_start"
  by (simp add: bg_reachable_def bg_steps_def)

theorem concurrent_starts_terminate: "\<exists>s. bg_reachable None {0, 1} s \<and> bg_terminated s"
proof -
  let ?go = start_background_checker
  let ?s = "?go (?go (?go (?go (?go (?go bg_start 0) 1) 0) 1) 0) 1"
  have "bg_reachable None {0, 1} ?s" by (intro bg_reachable_start_call bg_reachable_init) simp_all
  moreover have "bg_terminated ?s" by (simp add: start_background_checker_def bg_start_def)
  ultimately show ?thesis by blast
qed

text \<open>A program that starts the checker: if it ends then, it is terminated; a stop comes back after three steps of the checker.\<close>

theorem single_caller_stops_checker_witness:
  "\<exists>s s1. bg_reachable None {0} s \<and> bg_terminated (program_exit s) \<and> bg_reachable None {0} s1 \<and> bg_pc s1 0 = Stop_marked \<and>
     stop_background_checker s1 0 = None \<and>
     stop_background_checker (checker_step None 0 (checker_step None 0 (checker_step None 0 s1))) 0 \<noteq> None"
proof -
  let ?go = start_background_checker
  let ?s = "?go (?go (?go bg_start 0) 0) 0"
  let ?s1 = "?s\<lparr>bg_running := False, bg_pc := (bg_pc ?s)(0 := Stop_marked)\<rparr>"
  note defs = start_background_checker_def stop_background_checker_def bg_start_def
  have r: "bg_reachable None {0} ?s" by (intro bg_reachable_start_call bg_reachable_init) simp_all
  have "stop_background_checker ?s 0 = Some (?s\<lparr>bg_pc := (bg_pc ?s)(0 := Stop_checked)\<rparr>)" by (simp add: defs)
  from bg_reachable_stop_call[OF r _ this]
  have "bg_reachable None {0} (?s\<lparr>bg_pc := (bg_pc ?s)(0 := Stop_checked)\<rparr>)" by simp
  moreover have "stop_background_checker (?s\<lparr>bg_pc := (bg_pc ?s)(0 := Stop_checked)\<rparr>) 0 = Some ?s1" by (simp add: defs)
  ultimately have r1: "bg_reachable None {0} ?s1" using bg_reachable_stop_call by blast
  have "bg_pc ?s 0 = Outside" "bg_running ?s" by (simp_all add: defs)
  then have "bg_terminated (program_exit ?s)" using single_caller_stops_checker[OF r] by blast
  moreover have s1: "bg_pc ?s1 0 = Stop_marked" "stop_background_checker ?s1 0 = None" "\<not> bg_stuck ?s1" by (simp_all add: defs)
  then have "stop_background_checker (checker_step None 0 (checker_step None 0 (checker_step None 0 ?s1))) 0 \<noteq> None"
    using single_caller_stops_checker[OF r1] by blast
  ultimately show ?thesis using r r1 s1(1,2) by blast
qed

end
