(* ===== verification/Locked_Spec.thy ===== *)
theory Locked_Spec
  imports Threads
begin

text \<open>
  Objects under a lock whose methods may not return, because they take the lock again or wait for something that never
  comes: \<open>returns\<close> says when a method comes to its end, \<open>ok\<close> which calls are made. What the methods that return do is a run of
  a specification (locale \<open>locked_component\<close>). Why a method does not return, and what that means for the other threads, is shown where the
  statements of the methods are modelled.
\<close>

section \<open>Steps\<close>

inductive lock_step ::
  "('c \<Rightarrow> 's \<Rightarrow> 's \<times> 'r) \<Rightarrow> ('c \<Rightarrow> bool) \<Rightarrow> ('c \<Rightarrow> bool) \<Rightarrow> ('c \<Rightarrow> 's \<Rightarrow> bool) \<Rightarrow>
   ('c, 's, 'r) lock_state \<Rightarrow> ('c, 's, 'r) lock_state \<Rightarrow> bool" for body exclusive ok returns where
  call: "lo_pc l i = Outside \<Longrightarrow> ok c \<Longrightarrow> lock_step body exclusive ok returns l (lock_call l i c)"
| inner: "lock_inner body exclusive l l' \<Longrightarrow>
    (\<And>i c s. lo_pc l i = Loaded c s \<Longrightarrow> \<not> returns c s \<Longrightarrow> lo_pc l' i = Loaded c s) \<Longrightarrow>
    lock_step body exclusive ok returns l l'"
| release: "lo_pc l i = Stored c r \<Longrightarrow> lock_step body exclusive ok returns l (lock_release exclusive l i c)"

definition lock_steps ::
  "('c \<Rightarrow> 's \<Rightarrow> 's \<times> 'r) \<Rightarrow> ('c \<Rightarrow> bool) \<Rightarrow> ('c \<Rightarrow> bool) \<Rightarrow> ('c \<Rightarrow> 's \<Rightarrow> bool) \<Rightarrow>
   ('c, 's, 'r) lock_state \<Rightarrow> ('c, 's, 'r) lock_state \<Rightarrow> bool" where
  "lock_steps body exclusive ok returns = (lock_step body exclusive ok returns)\<^sup>*\<^sup>*"

lemma lock_step_reachable:
  "lock_step body exclusive ok returns l l' \<Longrightarrow> lock_reachable body exclusive s0 l \<Longrightarrow> lock_reachable body exclusive s0 l'"
  by (induction rule: lock_step.induct) (auto intro: lock_reachable.intros)

lemma lock_steps_reachable:
  "lock_steps body exclusive ok returns (lock_new s0) l \<Longrightarrow> lock_reachable body exclusive s0 l"
  unfolding lock_steps_def
  by (induction rule: rtranclp_induct) (auto intro: lock_reachable.start lock_step_reachable)

definition calls_ok :: "('c \<Rightarrow> bool) \<Rightarrow> ('c, 's, 'r) lock_state \<Rightarrow> bool" where
  "calls_ok ok l = (\<forall>i c. pc_call (lo_pc l i) = Some c \<longrightarrow> ok c)"

lemma calls_okD: "calls_ok ok l \<Longrightarrow> pc_call (lo_pc l i) = Some c \<Longrightarrow> ok c"
  unfolding calls_ok_def by blast

lemma calls_ok_inner: "lock_inner body exclusive l l' \<Longrightarrow> calls_ok ok l \<Longrightarrow> calls_ok ok l'"
proof (induction rule: lock_inner.induct)
  case (lock_unique l i c)
  then show ?case using calls_okD[OF lock_unique.prems, of i c] by (auto simp: calls_ok_def)
next
  case (lock_shared l i c)
  then show ?case using calls_okD[OF lock_shared.prems, of i c] by (auto simp: calls_ok_def)
next
  case (load l i c)
  then show ?case using calls_okD[OF load.prems, of i c] by (auto simp: calls_ok_def)
next
  case (store l i c s)
  then show ?case using calls_okD[OF store.prems, of i c] by (auto simp: calls_ok_def lock_store_def)
qed

lemma calls_ok_step: "lock_step body exclusive ok returns l l' \<Longrightarrow> calls_ok ok l \<Longrightarrow> calls_ok ok l'"
proof (induction rule: lock_step.induct)
  case (inner l l')
  then show ?case using calls_ok_inner by blast
qed (auto simp: calls_ok_def lock_call_def lock_release_def)

section \<open>A call that runs alone\<close>

context locked_object
begin

lemma steps_whole_call:
  assumes "unlocked l" "ok c" "returns c (lo_data l)"
  shows "lock_steps body exclusive ok returns l (whole_call body l c)"
proof -
  let ?R = "\<lambda>a b. lock_inner body exclusive a b \<and> (\<forall>j d s. lo_pc a j = Loaded d s \<longrightarrow> d = c \<and> s = lo_data l)"
  obtain l' where l': "?R\<^sup>*\<^sup>* (lock_call l 0 c) l'" "lo_pc l' 0 = Stored c (snd (body c (lo_data l)))"
    "lock_release exclusive l' 0 c = whole_call body l c" using unlocked_call_path[OF assms(1)] .
  have "lock_step body exclusive ok returns l (lock_call l 0 c)"
    using assms(1,2) by (intro lock_step.call) (simp_all add: unlocked_def)
  with l'(1) have "(lock_step body exclusive ok returns)\<^sup>*\<^sup>* l l'"
  proof (induction rule: rtranclp_induct)
    case (step a b)
    then have "lock_step body exclusive ok returns a b" using assms(3) by (intro lock_step.inner) auto
    then show ?case using step by (meson rtranclp.rtrancl_into_rtrancl)
  qed auto
  then show ?thesis using lock_step.release[OF l'(2), of body exclusive ok returns] l'(3)
    by (metis lock_steps_def rtranclp.rtrancl_into_rtrancl)
qed

end

section \<open>What the methods that return do\<close>

locale locked_component = locked_object body exclusive
  for body :: "'c \<Rightarrow> 's \<Rightarrow> 's \<times> 'r" and exclusive :: "'c \<Rightarrow> bool" +
  fixes ok :: "'c \<Rightarrow> bool" and returns :: "'c \<Rightarrow> 's \<Rightarrow> bool" and invar :: "'s \<Rightarrow> bool" and abst :: "'s \<Rightarrow> 'm"
    and spec :: "'m \<Rightarrow> 'c \<Rightarrow> 'm \<Rightarrow> 'r \<Rightarrow> bool"
  assumes body_keeps: "invar s \<Longrightarrow> ok c \<Longrightarrow> returns c s \<Longrightarrow> invar (fst (body c s))"
    and body_meets: "invar s \<Longrightarrow> ok c \<Longrightarrow> returns c s \<Longrightarrow> spec (abst s) c (abst (fst (body c s))) (snd (body c s))"
begin

definition refines :: "'s \<Rightarrow> ('c, 's, 'r) lock_state \<Rightarrow> bool" where
  "refines s0 l = (invar (lo_data l) \<and> spec_run spec (abst s0) (lo_log l) (abst (lo_data l)))"

lemma refines_inner:
  assumes "lock_inner body exclusive l l'" "\<And>i c s. lo_pc l i = Loaded c s \<Longrightarrow> \<not> returns c s \<Longrightarrow> lo_pc l' i = Loaded c s"
    "fresh_loads l" "calls_ok ok l" "refines s0 l"
  shows "refines s0 l'"
  using assms(1)
proof cases
  case (store i c s)
  have s: "s = lo_data l" using assms(3) store(2) by (simp add: fresh_loads_def)
  have c: "ok c" using calls_okD[OF assms(4), of i c] store(2) by simp
  have r: "returns c s" using assms(2)[OF store(2)] store(1) by (auto simp: lock_store_def)
  have data: "lo_data l' = fst (body c s)" using stored_data[OF assms(3) store(2)] store(1) s by simp
  have "spec_run spec (abst s0) (lo_log l @ [(c, snd (body c s))]) (abst (fst (body c s)))"
    using assms(5) body_meets[OF _ c r] s by (intro spec_run.one_more[of _ _ _ "abst (lo_data l)"]) (auto simp: refines_def)
  then show ?thesis using assms(5) body_keeps[OF _ c r] data s store(1) by (simp add: refines_def) (simp add: lock_store_def)
qed (use assms(5) in \<open>simp_all add: refines_def\<close>)

lemma steps_refine:
  assumes "invar s0" "lock_steps body exclusive ok returns (lock_new s0) l"
  shows "invar (lo_data l) \<and> spec_run spec (abst s0) (lo_log l) (abst (lo_data l))"
proof -
  have "lock_reachable body exclusive s0 l \<and> calls_ok ok l \<and> refines s0 l"
    using assms(2) unfolding lock_steps_def
  proof (induction rule: rtranclp_induct)
    case base
    show ?case using assms(1) spec_run.none[of spec "abst s0"]
      by (simp add: lock_reachable.start refines_def) (simp add: calls_ok_def lock_new_def)
  next
    case (step y z)
    have "lock_reachable body exclusive s0 z" "calls_ok ok z"
      using lock_step_reachable[OF step.hyps(2)] calls_ok_step[OF step.hyps(2)] step.IH by simp_all
    moreover from step.hyps(2) have "refines s0 z"
    proof cases
      case inner
      then show ?thesis using refines_inner[OF inner(1), of s0] reachable_inv[of s0 y] step.IH by simp
    qed (use step.IH in \<open>simp_all add: refines_def lock_call_def lock_release_def\<close>)
    ultimately show ?case by blast
  qed
  then show ?thesis by (simp add: refines_def)
qed

end

end
