(* ===== verification/Concurrent_Ttl.thy ===== *)
theory Concurrent_Ttl
  imports Ttl_Background Locked_Spec
begin

text \<open>
  \<^verbatim>\<open>TTLManager\<close> of \<^verbatim>\<open>src/src/data/ttl_manager.cpp\<close> used by several threads. Every method holds \<^verbatim>\<open>mutex_\<close> from beginning to
  end, and three of them may not return: \<^verbatim>\<open>set_ttl\<close> and \<^verbatim>\<open>set_ttl_ms\<close> with an amount that is not positive lock the
  mutex again, and \<^verbatim>\<open>check_expirations\<close> runs a callback that may call the manager. The methods that return implement a
  map from keys to deadlines, in the order in which they hold the mutex; that those which do not return lock everybody
  else out is shown in \<^verbatim>\<open>Ttl_Mutex\<close>. What a method reads of the clock is an argument of the call.
\<close>

section \<open>Methods\<close>

datatype ttl_call =
    T_set int string int | T_set_ms int string int | T_get int string | T_get_ms int string | T_has string
  | T_remove string | T_check int | T_size | T_clear | T_stats int

datatype ttl_result =
    T_bool bool | T_int int | T_keys "string list" | T_nat nat | T_unit | T_info ttl_stats | No_result

fun of_outcome :: "ttl_manager \<Rightarrow> (ttl_manager \<times> 'a) outcome \<Rightarrow> ('a \<Rightarrow> ttl_result) \<Rightarrow> ttl_manager \<times> ttl_result" where
  "of_outcome m (Returned (m', x)) f = (m', f x)"
| "of_outcome m _ f = (m, No_result)"

text \<open>
  The body of a method, with the callback that is set. The result of \<^verbatim>\<open>check_expirations\<close> is the list of the keys that
  expired, in the order in which the callback gets them; the method returns its length.
\<close>

fun ttl_body :: "ttl_callback \<Rightarrow> ttl_call \<Rightarrow> ttl_manager \<Rightarrow> ttl_manager \<times> ttl_result" where
  "ttl_body cb (T_set now k s) m = of_outcome m (set_ttl now m k s) T_bool"
| "ttl_body cb (T_set_ms now k ms) m = of_outcome m (set_ttl_ms now m k ms) T_bool"
| "ttl_body cb (T_get now k) m = (m, T_int (get_ttl now m k))"
| "ttl_body cb (T_get_ms now k) m = (m, T_int (get_ttl_ms now m k))"
| "ttl_body cb (T_has k) m = (m, T_bool (has_ttl m k))"
| "ttl_body cb (T_remove k) m = (let (m', b) = remove_ttl m k in (m', T_bool b))"
| "ttl_body cb (T_check now) m = of_outcome m (expire_with_callback cb now m) T_keys"
| "ttl_body cb T_size m = (m, T_nat (ttl_size m))"
| "ttl_body cb T_clear m = (ttl_clear m, T_unit)"
| "ttl_body cb (T_stats now) m = (m, T_info (ttl_get_stats now m))"

text \<open>All methods take \<^verbatim>\<open>std::lock_guard\<close>.\<close>

definition ttl_exclusive :: "ttl_call \<Rightarrow> bool" where
  "ttl_exclusive c = True"

fun ttl_returns :: "ttl_callback \<Rightarrow> ttl_call \<Rightarrow> ttl_manager \<Rightarrow> bool" where
  "ttl_returns cb (T_set now k s) m = (set_ttl now m k s \<noteq> Deadlock)"
| "ttl_returns cb (T_set_ms now k ms) m = (set_ttl_ms now m k ms \<noteq> Deadlock)"
| "ttl_returns cb (T_check now) m = (expire_with_callback cb now m \<noteq> Deadlock)"
| "ttl_returns cb _ m = True"

text \<open>The calls considered: those whose deadline fits the clock.\<close>

fun fits_clock :: "ttl_call \<Rightarrow> bool" where
  "fits_clock (T_set now k s) = (in_int64 (s * ns_per_s) \<and> in_int64 (now + s * ns_per_s))"
| "fits_clock (T_set_ms now k ms) = (in_int64 (ms * ns_per_ms) \<and> in_int64 (now + ms * ns_per_ms))"
| "fits_clock _ = True"

section \<open>A map of deadlines\<close>

definition time_left :: "int \<Rightarrow> int \<Rightarrow> int option \<Rightarrow> int" where
  "time_left unit now d = (case d of None \<Rightarrow> - 1 | Some t \<Rightarrow> if t \<le> now then - 2 else (t - now) div unit)"

inductive ttl_spec :: "(string \<Rightarrow> int option) \<Rightarrow> ttl_call \<Rightarrow> (string \<Rightarrow> int option) \<Rightarrow> ttl_result \<Rightarrow> bool" where
  set_s: "0 < s \<Longrightarrow> ttl_spec d (T_set now k s) (d(k \<mapsto> now + s * ns_per_s)) (T_bool True)"
| set_ms: "0 < ms \<Longrightarrow> ttl_spec d (T_set_ms now k ms) (d(k \<mapsto> now + ms * ns_per_ms)) (T_bool True)"
| get_s: "ttl_spec d (T_get now k) d (T_int (time_left ns_per_s now (d k)))"
| get_ms: "ttl_spec d (T_get_ms now k) d (T_int (time_left ns_per_ms now (d k)))"
| has: "ttl_spec d (T_has k) d (T_bool (d k \<noteq> None))"
| remove: "ttl_spec d (T_remove k) (d(k := None)) (T_bool (d k \<noteq> None))"
| check: "distinct ks \<Longrightarrow> (\<And>k. k \<in> set ks \<Longrightarrow> \<exists>t. d k = Some t \<and> t \<le> now) \<Longrightarrow>
    ttl_spec d (T_check now) (d |` (- set ks)) (T_keys ks)"
| size: "ttl_spec d T_size d (T_nat (card (dom d)))"
| clear: "ttl_spec d T_clear Map.empty T_unit"
| stats: "total_ttl_entries st = card (dom d) \<Longrightarrow> ttl_spec d (T_stats now) d (T_info st)"

section \<open>The methods that return implement it\<close>

lemma callback_returned: "expire_with_callback cb now m = Returned p \<Longrightarrow> p = expire_loop now m"
  by (cases cb) (auto simp: no_callback callback_deadlocks_iff_relocks split: if_splits)

lemma callback_no_overflow: "expire_with_callback cb now m \<noteq> Overflow"
  by (cases cb) (auto simp: no_callback callback_deadlocks_iff_relocks)

lemma remaining_is_time_left: "0 < unit \<Longrightarrow> remaining_ttl unit now m k = time_left unit now (deadline m k)"
  by (auto simp: remaining_ttl_def time_left_def deadline_def duration_cast_def Let_def split: option.splits)

lemma get_is_time_left:
  "get_ttl now m k = time_left ns_per_s now (deadline m k)" "get_ttl_ms now m k = time_left ns_per_ms now (deadline m k)"
  "has_ttl m k \<longleftrightarrow> deadline m k \<noteq> None"
  by (simp_all add: get_ttl_def get_ttl_ms_def remaining_is_time_left ns_per_s_def ns_per_ms_def has_ttl_def deadline_def)

lemma ttl_size_card:
  assumes "ttl_wf m"
  shows "length (expiration_heap m) = card (dom (deadline m))"
proof -
  have "distinct (map te_key (expiration_heap m))" using ttl_key_unique[OF assms] by (simp add: distinct_conv_nth)
  moreover have "k \<in> dom (deadline m) \<longleftrightarrow> k \<in> set (map te_key (expiration_heap m))" for k
    using ttl_wf_none[OF assms, of k] by (simp add: deadline_def domIff)
  ultimately show ?thesis using distinct_card[of "map te_key (expiration_heap m)"] by (metis length_map set_eqI)
qed

lemma set_returns:
  "fits_clock (T_set now k s) \<Longrightarrow> set_ttl now m k s \<noteq> Deadlock \<Longrightarrow>
   0 < s \<and> set_ttl now m k s = Returned (set_deadline m k (now + s * ns_per_s), True)"
  "fits_clock (T_set_ms now k s) \<Longrightarrow> set_ttl_ms now m k s \<noteq> Deadlock \<Longrightarrow>
   0 < s \<and> set_ttl_ms now m k s = Returned (set_deadline m k (now + s * ns_per_ms), True)"
  by (auto simp: set_ttl_def set_ttl_ms_def calculate_expire_time_def split: if_splits)

lemma ttl_body_meets:
  assumes "ttl_wf m" "fits_clock c" "ttl_returns cb c m"
  shows "ttl_wf (fst (ttl_body cb c m)) \<and> ttl_spec (deadline m) c (deadline (fst (ttl_body cb c m))) (snd (ttl_body cb c m))"
proof (cases c)
  case (T_set now k s)
  then show ?thesis using assms set_returns(1)[of now k s m] set_deadline_correct[OF assms(1)]
    by (auto intro: ttl_spec.set_s)
next
  case (T_set_ms now k s)
  then show ?thesis using assms set_returns(2)[of now k s m] set_deadline_correct[OF assms(1)]
    by (auto intro: ttl_spec.set_ms)
next
  case (T_check now)
  then obtain m' ks where p: "expire_with_callback cb now m = Returned (m', ks)"
    using assms(3) callback_no_overflow[of cb now m] by (cases "expire_with_callback cb now m") auto
  then have "expire_loop now m = (m', ks)" using callback_returned[OF p] by simp
  then show ?thesis using p T_check expire_loop_correct[OF assms(1), of now m' ks] by (auto intro!: ttl_spec.check)
next
  case (T_remove k)
  then show ?thesis using remove_ttl_correct[OF assms(1), of k] ttl_spec.remove[of "deadline m" k]
    by (simp add: case_prod_beta Let_def)
next
  case T_clear
  have "ttl_wf (ttl_clear m)" "deadline (ttl_clear m) = Map.empty"
    by (auto simp: ttl_clear_def ttl_wf_def deadline_def)
  then show ?thesis using T_clear by (simp add: ttl_spec.clear)
next
  case (T_has k)
  then show ?thesis using assms(1) ttl_spec.has[of "deadline m" k] by (simp add: get_is_time_left)
qed (use assms(1) ttl_size_card[OF assms(1)] in
  \<open>simp_all add: get_is_time_left ttl_size_def ttl_get_stats_def ttl_spec.get_s ttl_spec.get_ms ttl_spec.size ttl_spec.stats\<close>)

interpretation ttl: locked_component "ttl_body cb" ttl_exclusive fits_clock "ttl_returns cb" ttl_wf deadline ttl_spec for cb
  by unfold_locales (auto simp: ttl_exclusive_def ttl_body_meets)

section \<open>Properties\<close>

text \<open>
  C13: The manager of deadlines is a map of deadlines for all its threads, which set a callback before they start: in every interleaving
  of any number of threads, with any readings of the clock at which the deadlines that are set fit its 64 bits, the calls that have
  returned, in the order in which they held the mutex, are a run of the map: deadlines are set and removed for the key given and
  no other, the time left is read back, and a check reports only keys whose deadline has passed, each once. This is so for every callback, of which it only
  matters for which keys it calls the manager, since such a check never returns. The heap and its index maps stay consistent.
\<close>

theorem ttl_threads_refine_deadlines:
  assumes "lock_steps (ttl_body cb) ttl_exclusive fits_clock (ttl_returns cb) (lock_new ttl_new) l"
  shows "ttl_wf (lo_data l) \<and> spec_run ttl_spec Map.empty (lo_log l) (deadline (lo_data l))"
proof -
  have "ttl_wf ttl_new" "deadline ttl_new = Map.empty" by (auto simp: ttl_wf_def ttl_new_def deadline_def)
  then show ?thesis using ttl.steps_refine[OF _ assms] by simp
qed

theorem ttl_threads_refine_deadlines_witness:
  "\<exists>l. lock_steps (ttl_body None) ttl_exclusive fits_clock (ttl_returns None) (lock_new ttl_new) l \<and>
     lo_log l = [(T_set 0 ''a'' 1, T_bool True), (T_check ns_per_s, T_keys [''a''])] \<and>
     spec_run ttl_spec Map.empty (lo_log l) (deadline (lo_data l))"
proof -
  let ?b = "ttl_body None" and ?r = "ttl_returns None"
  let ?l1 = "whole_call ?b (lock_new ttl_new) (T_set 0 ''a'' 1)"
  let ?l2 = "whole_call ?b ?l1 (T_check ns_per_s)"
  have b1: "?b (T_set 0 ''a'' 1) ttl_new = (one_deadline, T_bool True)"
    by (simp add: one_deadline_def set_ttl_def calculate_expire_time_def in_int64_def ns_per_s_def)
  have b2: "snd (?b (T_check ns_per_s) one_deadline) = T_keys [''a'']" unfolding one_deadline_def by code_simp
  have "lock_steps ?b ttl_exclusive fits_clock ?r (lock_new ttl_new) ?l1"
    by (rule ttl.steps_whole_call) (simp_all add: set_ttl_def calculate_expire_time_def in_int64_def ns_per_s_def)
  moreover have "lock_steps ?b ttl_exclusive fits_clock ?r ?l1 ?l2" by (rule ttl.steps_whole_call) (simp_all add: no_callback callback_deadlocks_iff_relocks)
  ultimately have r: "lock_steps ?b ttl_exclusive fits_clock ?r (lock_new ttl_new) ?l2" by (simp add: lock_steps_def)
  have "lo_log ?l2 = [(T_set 0 ''a'' 1, T_bool True), (T_check ns_per_s, T_keys [''a''])]"
    by (simp add: whole_call_def lock_new_def b1 b2 del: ttl_body.simps)
  then show ?thesis using ttl_threads_refine_deadlines[OF r] r by blast
qed

end
