(* ===== verification/Ttl_Mutex.thy ===== *)
theory Ttl_Mutex
  imports Concurrent_Ttl
begin

text \<open>
  The methods of \<^verbatim>\<open>TTLManager\<close> of \<^verbatim>\<open>src/src/data/ttl_manager.cpp\<close> with every locking and unlocking of \<^verbatim>\<open>mutex_\<close> as a statement of
  its own, also those of the methods that they call. The mutex is a \<^verbatim>\<open>std::mutex\<close>: whoever holds it, a thread that
  wants it waits, so that a thread which wants the mutex it holds waits for itself. That \<^verbatim>\<open>set_ttl\<close> with an amount that is not positive and
  a check with a callback that calls the manager do not return, which the results of the models of these methods say, is derived here from the
  statements; and what it means for the other threads is shown.
\<close>

section \<open>Programs\<close>

text \<open>A step changes the manager and goes on depending on how it was.\<close>

datatype ttl_prog =
    Lock ttl_prog | Unlock ttl_prog | Step "ttl_manager \<Rightarrow> ttl_manager" "ttl_manager \<Rightarrow> ttl_prog" | Done ttl_result

text \<open>The callback: the methods of the manager that it calls for a key.\<close>

type_synonym callback_calls = "string \<Rightarrow> ttl_call list"

definition remove_ttl_prog :: "string \<Rightarrow> (bool \<Rightarrow> ttl_prog) \<Rightarrow> ttl_prog" where
  "remove_ttl_prog k cont = Lock (Step (\<lambda>m. fst (remove_ttl m k)) (\<lambda>m. Unlock (cont (snd (remove_ttl m k)))))"

text \<open>\<^verbatim>\<open>set_ttl\<close> and \<^verbatim>\<open>set_ttl_ms\<close>, which differ in the unit, for deadlines that fit the clock.\<close>

definition set_ttl_prog :: "int \<Rightarrow> int \<Rightarrow> string \<Rightarrow> int \<Rightarrow> ttl_prog" where
  "set_ttl_prog unit now k n =
     Lock (if n \<le> 0 then remove_ttl_prog k (\<lambda>b. Unlock (Done (T_bool b)))
           else Step (\<lambda>m. set_deadline m k (now + n * unit)) (\<lambda>m. Unlock (Done (T_bool True))))"

fun callback_prog :: "ttl_call list \<Rightarrow> ttl_prog \<Rightarrow> ttl_prog" where
  "callback_prog [] cont = cont"
| "callback_prog (c # cs) cont = Lock (Step (\<lambda>m. fst (ttl_body None c m)) (\<lambda>m. Unlock (callback_prog cs cont)))"

text \<open>
  The loop of \<^verbatim>\<open>check_expirations\<close>. The number bounds the rounds: each removes an entry and nobody else has the mutex, so that one more than
  there are entries when the loop begins is enough.
\<close>

fun check_prog :: "callback_calls \<Rightarrow> int \<Rightarrow> nat \<Rightarrow> string list \<Rightarrow> ttl_prog" where
  "check_prog cb now_time 0 ks = Unlock (Done (T_keys ks))"
| "check_prog cb now_time (Suc n) ks =
     Step (\<lambda>m. if expiration_heap m = [] \<or> expire_time (hd (expiration_heap m)) > now_time then m else remove_from_heap m 0)
       (\<lambda>m. if expiration_heap m = [] \<or> expire_time (hd (expiration_heap m)) > now_time then Unlock (Done (T_keys ks))
            else let expired_key = te_key (hd (expiration_heap m))
                 in callback_prog (cb expired_key)
                      (Step (\<lambda>m. m\<lparr>total_expired := total_expired m + 1\<rparr>)
                         (\<lambda>_. check_prog cb now_time n (ks @ [expired_key]))))"

fun ttl_prog_of :: "callback_calls \<Rightarrow> ttl_call \<Rightarrow> ttl_prog" where
  "ttl_prog_of cb (T_set now k s) = set_ttl_prog ns_per_s now k s"
| "ttl_prog_of cb (T_set_ms now k ms) = set_ttl_prog ns_per_ms now k ms"
| "ttl_prog_of cb (T_remove k) = remove_ttl_prog k (\<lambda>b. Done (T_bool b))"
| "ttl_prog_of cb (T_check now) = Lock (Step id (\<lambda>m. check_prog cb now (Suc (length (expiration_heap m))) []))"
| "ttl_prog_of cb q = Lock (Step (\<lambda>m. fst (ttl_body None q m)) (\<lambda>m. Unlock (Done (snd (ttl_body None q m)))))"

section \<open>A method that runs alone\<close>

text \<open>\<open>held\<close> says whether the thread holds the mutex. Locking it then never ends.\<close>

primrec exec_prog :: "ttl_prog \<Rightarrow> bool \<Rightarrow> ttl_manager \<Rightarrow> (ttl_manager \<times> ttl_result) outcome" where
  "exec_prog (Lock p) = (\<lambda>held m. if held then Deadlock else exec_prog p True m)"
| "exec_prog (Unlock p) = (\<lambda>held m. exec_prog p False m)"
| "exec_prog (Step f g) = (\<lambda>held m. exec_prog (g m) held (f m))"
| "exec_prog (Done r) = (\<lambda>held m. Returned (m, r))"

text \<open>The calls that lock the mutex again.\<close>

fun self_locks :: "callback_calls \<Rightarrow> ttl_manager \<Rightarrow> ttl_call \<Rightarrow> bool" where
  "self_locks cb m (T_set now k s) = (s \<le> 0)"
| "self_locks cb m (T_set_ms now k ms) = (ms \<le> 0)"
| "self_locks cb m (T_check now) = (\<exists>k \<in> set (snd (expire_loop now m)). cb k \<noteq> [])"
| "self_locks cb m q = False"

definition callback_of :: "callback_calls \<Rightarrow> ttl_callback" where
  "callback_of cb = Some (\<lambda>k. cb k \<noteq> [])"

lemma callback_prog_held: "exec_prog (callback_prog cs p) True m = (if cs = [] then exec_prog p True m else Deadlock)"
  by (cases cs) simp_all

lemma exec_check_prog:
  "length (expiration_heap m) < n \<Longrightarrow>
   exec_prog (check_prog cb now_time n ks) True m =
     (if \<exists>k \<in> set (snd (expire_loop now_time m)). cb k \<noteq> [] then Deadlock
      else Returned (fst (expire_loop now_time m), T_keys (ks @ snd (expire_loop now_time m))))"
proof (induction n arbitrary: m ks)
  case (Suc n)
  show ?case
  proof (cases "expiration_heap m = [] \<or> expire_time (hd (expiration_heap m)) > now_time")
    case True
    then show ?thesis by (auto simp: expire_loop.simps[of now_time m] Let_def)
  next
    case False
    let ?m1 = "remove_from_heap m 0" and ?k = "te_key (hd (expiration_heap m))"
    let ?m2 = "?m1\<lparr>total_expired := total_expired ?m1 + 1\<rparr>"
    have "length (expiration_heap ?m2) < n" using Suc.prems False
      by (cases "expiration_heap m") (auto simp: length_remove_from_heap)
    from Suc.IH[OF this, of "ks @ [?k]"] show ?thesis using False
      by (auto simp: expire_loop.simps[of now_time m] Let_def case_prod_beta callback_prog_held)
  qed
qed simp

text \<open>
  The programs are the methods: a method that runs alone deadlocks exactly when it locks the mutex again, and the model of the method
  says so; otherwise it has the result that the model gives it.
\<close>

theorem method_programs_alone:
  assumes "fits_clock q"
  shows "exec_prog (ttl_prog_of cb q) False m =
      (if self_locks cb m q then Deadlock else Returned (ttl_body (callback_of cb) q m)) \<and>
    (ttl_returns (callback_of cb) q m \<longleftrightarrow> \<not> self_locks cb m q)"
proof (cases q)
  case (T_check now)
  then show ?thesis
    by (cases "expire_loop now m") (auto simp: exec_check_prog callback_of_def callback_deadlocks_iff_relocks simp del: check_prog.simps)
qed (use assms in \<open>auto simp: set_ttl_prog_def remove_ttl_prog_def set_ttl_def set_ttl_ms_def calculate_expire_time_def case_prod_beta Let_def\<close>)

section \<open>Threads\<close>

record mx_state =
  mx_data :: ttl_manager
  mx_owner :: "nat option"
  mx_prog :: "nat \<Rightarrow> (ttl_call \<times> ttl_prog) option"
  mx_log :: "(nat \<times> ttl_call \<times> ttl_result) list"

definition mx_new :: "ttl_manager \<Rightarrow> mx_state" where
  "mx_new m = \<lparr>mx_data = m, mx_owner = None, mx_prog = Map.empty, mx_log = []\<rparr>"

inductive mx_step :: "callback_calls \<Rightarrow> mx_state \<Rightarrow> mx_state \<Rightarrow> bool" for cb where
  call: "mx_prog c i = None \<Longrightarrow> fits_clock q \<Longrightarrow> mx_step cb c (c\<lparr>mx_prog := (mx_prog c)(i \<mapsto> (q, ttl_prog_of cb q))\<rparr>)"
| lock: "mx_prog c i = Some (q, Lock p) \<Longrightarrow> mx_owner c = None \<Longrightarrow>
    mx_step cb c (c\<lparr>mx_owner := Some i, mx_prog := (mx_prog c)(i \<mapsto> (q, p))\<rparr>)"
| unlock: "mx_prog c i = Some (q, Unlock p) \<Longrightarrow>
    mx_step cb c (c\<lparr>mx_owner := None, mx_prog := (mx_prog c)(i \<mapsto> (q, p))\<rparr>)"
| step: "mx_prog c i = Some (q, Step f g) \<Longrightarrow>
    mx_step cb c (c\<lparr>mx_data := f (mx_data c), mx_prog := (mx_prog c)(i \<mapsto> (q, g (mx_data c)))\<rparr>)"
| return: "mx_prog c i = Some (q, Done r) \<Longrightarrow>
    mx_step cb c (c\<lparr>mx_prog := (mx_prog c)(i := None), mx_log := mx_log c @ [(i, q, r)]\<rparr>)"

definition mx_steps :: "callback_calls \<Rightarrow> mx_state \<Rightarrow> mx_state \<Rightarrow> bool" where
  "mx_steps cb = (mx_step cb)\<^sup>*\<^sup>*"

text \<open>A program works on the manager and unlocks the mutex only while it holds it, and does not return with it.\<close>

primrec guarded :: "ttl_prog \<Rightarrow> bool \<Rightarrow> bool" where
  "guarded (Lock p) = (\<lambda>held. held \<or> guarded p True)"
| "guarded (Unlock p) = (\<lambda>held. held \<and> guarded p False)"
| "guarded (Step f g) = (\<lambda>held. held \<and> (\<forall>m. guarded (g m) True))"
| "guarded (Done r) = (\<lambda>held. \<not> held)"

lemma callback_guarded: "guarded p True \<Longrightarrow> guarded (callback_prog cs p) True"
  by (cases cs) simp_all

lemma check_guarded: "guarded (check_prog cb now_time n ks) True"
  by (induction n arbitrary: ks) (auto simp: Let_def intro!: callback_guarded)

lemma ttl_prog_guarded: "guarded (ttl_prog_of cb q) False"
  by (cases q) (auto simp: set_ttl_prog_def remove_ttl_prog_def check_guarded simp del: check_prog.simps)

definition mx_inv :: "mx_state \<Rightarrow> bool" where
  "mx_inv c = (\<forall>i. case mx_prog c i of None \<Rightarrow> mx_owner c \<noteq> Some i | Some (q, p) \<Rightarrow> guarded p (mx_owner c = Some i))"

lemma mx_invD: "mx_inv c \<Longrightarrow> mx_prog c i = Some (q, p) \<Longrightarrow> guarded p (mx_owner c = Some i)"
  unfolding mx_inv_def by (drule spec[of _ i]) simp

lemma mx_inv_idle: "mx_inv c \<Longrightarrow> mx_prog c i = None \<Longrightarrow> mx_owner c \<noteq> Some i"
  unfolding mx_inv_def by (drule spec[of _ i]) simp

lemma mx_inv_new: "mx_inv (mx_new m)"
  by (simp add: mx_inv_def mx_new_def)

text \<open>A thread that goes on to \<open>p\<close>, and the owner that is then, keep the invariant if they do for this thread and no other becomes or was the owner.\<close>

lemma mx_inv_upd:
  assumes "mx_inv c" "case tp of None \<Rightarrow> w \<noteq> Some i | Some (q, p) \<Rightarrow> guarded p (w = Some i)"
    and "\<And>j. j \<noteq> i \<Longrightarrow> (w = Some j) = (mx_owner c = Some j)"
  shows "mx_inv (c\<lparr>mx_owner := w, mx_data := m, mx_prog := (mx_prog c)(i := tp), mx_log := lg\<rparr>)"
  unfolding mx_inv_def
proof
  fix j
  have "case mx_prog c j of None \<Rightarrow> mx_owner c \<noteq> Some j | Some (q, p) \<Rightarrow> guarded p (mx_owner c = Some j)"
    using assms(1) by (simp add: mx_inv_def)
  then show "case mx_prog (c\<lparr>mx_owner := w, mx_data := m, mx_prog := (mx_prog c)(i := tp), mx_log := lg\<rparr>) j of
      None \<Rightarrow> mx_owner (c\<lparr>mx_owner := w, mx_data := m, mx_prog := (mx_prog c)(i := tp), mx_log := lg\<rparr>) \<noteq> Some j
    | Some (q, p) \<Rightarrow> guarded p (mx_owner (c\<lparr>mx_owner := w, mx_data := m, mx_prog := (mx_prog c)(i := tp), mx_log := lg\<rparr>) = Some j)"
    using assms(2) assms(3)[of j] by (cases "j = i") (auto split: option.splits)
qed

lemma mx_inv_step: "mx_step cb c c' \<Longrightarrow> mx_inv c \<Longrightarrow> mx_inv c'"
proof (induction rule: mx_step.induct)
  case (call c i q)
  then show ?case using mx_inv_upd[where c = c and i = i and tp = "Some (q, ttl_prog_of cb q)" and w = "mx_owner c" and m = "mx_data c" and lg = "mx_log c"]
    ttl_prog_guarded[of cb q] mx_inv_idle[of c i] by simp
next
  case (lock c i q p)
  then show ?case using mx_inv_upd[where c = c and i = i and tp = "Some (q, p)" and w = "Some i" and m = "mx_data c" and lg = "mx_log c"] mx_invD[of c i q "Lock p"] by simp
next
  case (unlock c i q p)
  then show ?case using mx_inv_upd[where c = c and i = i and tp = "Some (q, p)" and w = None and m = "mx_data c" and lg = "mx_log c"] mx_invD[of c i q "Unlock p"] by simp
next
  case (step c i q f g)
  then show ?case
    using mx_inv_upd[where c = c and i = i and tp = "Some (q, g (mx_data c))" and w = "mx_owner c" and m = "f (mx_data c)" and lg = "mx_log c"] mx_invD[of c i q "Step f g"] by simp
next
  case (return c i q r)
  then show ?case
    using mx_inv_upd[where c = c and i = i and tp = None and w = "mx_owner c" and m = "mx_data c" and lg = "mx_log c @ [(i, q, r)]"] mx_invD[of c i q "Done r"] by simp
qed

lemma mx_inv_steps: "mx_steps cb c c' \<Longrightarrow> mx_inv c \<Longrightarrow> mx_inv c'"
  unfolding mx_steps_def by (induction rule: rtranclp_induct) (auto dest: mx_inv_step)

section \<open>A thread that waits for itself\<close>

text \<open>Going on with the mutex, the program comes to lock it.\<close>

primrec hangs :: "ttl_prog \<Rightarrow> ttl_manager \<Rightarrow> bool" where
  "hangs (Lock p) = (\<lambda>m. True)"
| "hangs (Unlock p) = (\<lambda>m. False)"
| "hangs (Step f g) = (\<lambda>m. hangs (g m) (f m))"
| "hangs (Done r) = (\<lambda>m. False)"

lemma hangs_callback: "hangs (callback_prog cs p) m \<longleftrightarrow> cs \<noteq> [] \<or> hangs p m"
  by (cases cs) simp_all

lemma hangs_check:
  "length (expiration_heap m) < n \<Longrightarrow> hangs (check_prog cb now_time n ks) m \<longleftrightarrow> (\<exists>k \<in> set (snd (expire_loop now_time m)). cb k \<noteq> [])"
proof (induction n arbitrary: m ks)
  case (Suc n)
  show ?case
  proof (cases "expiration_heap m = [] \<or> expire_time (hd (expiration_heap m)) > now_time")
    case True
    then show ?thesis by (auto simp: expire_loop.simps[of now_time m] Let_def)
  next
    case False
    let ?m1 = "remove_from_heap m 0" and ?k = "te_key (hd (expiration_heap m))"
    let ?m2 = "?m1\<lparr>total_expired := total_expired ?m1 + 1\<rparr>"
    have "length (expiration_heap ?m2) < n" using Suc.prems False
      by (cases "expiration_heap m") (auto simp: length_remove_from_heap)
    from Suc.IH[OF this, of "ks @ [?k]"] show ?thesis using False
      by (auto simp: expire_loop.simps[of now_time m] Let_def case_prod_beta hangs_callback)
  qed
qed simp

lemma hangs_iff_self_locks: "ttl_prog_of cb q = Lock p \<Longrightarrow> hangs p m \<longleftrightarrow> self_locks cb m q"
  by (cases q) (auto simp: set_ttl_prog_def remove_ttl_prog_def hangs_check simp del: check_prog.simps split: if_splits)

lemma hanging_step:
  assumes "mx_step cb c c'" "mx_inv c" "mx_owner c = Some i" "mx_prog c i = Some (q, p)" "hangs p (mx_data c)"
  shows "mx_owner c' = Some i \<and> (\<exists>p'. mx_prog c' i = Some (q, p') \<and> hangs p' (mx_data c'))"
  using assms(1)
proof cases
  case (call j q')
  then show ?thesis using assms(3-5) by auto
next
  case (lock j q' p')
  then show ?thesis using assms(3) by simp
next
  case (unlock j q' p')
  then have "j = i" using mx_invD[OF assms(2) unlock(2)] assms(3) by simp
  then show ?thesis using unlock assms(4,5) by simp
next
  case (step j q' f g)
  then have "j = i" using mx_invD[OF assms(2) step(2)] assms(3) by simp
  then show ?thesis using step assms(3-5) by simp
next
  case (return j q' r)
  then have "j \<noteq> i" using mx_invD[OF assms(2) return(2)] assms(3) by auto
  then show ?thesis using return assms(3-5) by simp
qed

lemma waiting_step:
  assumes "mx_step cb c c'" "mx_owner c = Some i" "mx_prog c j = Some (q, Lock p)"
  shows "mx_prog c' j = Some (q, Lock p)"
  using assms by cases auto

lemma hanging_steps:
  assumes "mx_steps cb c c'" "mx_inv c" "mx_owner c = Some i" "mx_prog c i = Some (q, p)" "hangs p (mx_data c)"
  shows "mx_owner c' = Some i \<and> (\<exists>p'. mx_prog c' i = Some (q, p') \<and> hangs p' (mx_data c')) \<and>
    (\<forall>j q' p'. mx_prog c j = Some (q', Lock p') \<longrightarrow> mx_prog c' j = Some (q', Lock p'))"
  using assms(1) unfolding mx_steps_def
proof (induction rule: rtranclp_induct)
  case base
  then show ?case using assms(3-5) by blast
next
  case (step c1 c2)
  have inv: "mx_inv c1" using mx_inv_steps[OF _ assms(2)] step.hyps(1) by (simp add: mx_steps_def)
  obtain p1 where "mx_owner c1 = Some i" "mx_prog c1 i = Some (q, p1)" "hangs p1 (mx_data c1)" using step.IH by blast
  then show ?case using hanging_step[OF step.hyps(2) inv] waiting_step[OF step.hyps(2)] step.IH by blast
qed

section \<open>Properties\<close>

text \<open>
  C40: One call that locks the mutex again locks out everybody. When a thread has taken the mutex in a call of \<^verbatim>\<open>set_ttl\<close> or \<^verbatim>\<open>set_ttl_ms\<close>
  with an amount that is not positive, or in a check that expires a key for which the callback calls the manager, then whatever the
  threads do, its call never returns and it holds the mutex for ever; every thread that waits for the mutex waits for ever. In any
  other call a thread that has the mutex is not in the way: alone, it returns with the result of the model of the method.
\<close>

theorem stuck_caller_locks_manager:
  assumes "mx_steps cb (mx_new m0) c" "mx_owner c = Some i" "mx_prog c i = Some (q, p)" "ttl_prog_of cb q = Lock p" "fits_clock q"
  shows "(self_locks cb (mx_data c) q \<longrightarrow>
      (\<forall>c'. mx_steps cb c c' \<longrightarrow> mx_owner c' = Some i \<and> (\<exists>p'. mx_prog c' i = Some (q, p')) \<and>
         (\<forall>j q' p'. mx_prog c j = Some (q', Lock p') \<longrightarrow> mx_prog c' j = Some (q', Lock p')))) \<and>
    (\<not> self_locks cb (mx_data c) q \<longrightarrow> exec_prog p True (mx_data c) = Returned (ttl_body (callback_of cb) q (mx_data c)))"
proof (intro conjI impI allI)
  have inv: "mx_inv c" by (rule mx_inv_steps[OF assms(1) mx_inv_new])
  fix c' assume "self_locks cb (mx_data c) q" "mx_steps cb c c'"
  then have "hangs p (mx_data c)" "mx_steps cb c c'" using hangs_iff_self_locks[OF assms(4)] by simp_all
  from hanging_steps[OF this(2) inv assms(2,3) this(1)]
  show "mx_owner c' = Some i" "\<exists>p'. mx_prog c' i = Some (q, p')"
    "\<And>j q' p'. mx_prog c j = Some (q', Lock p') \<Longrightarrow> mx_prog c' j = Some (q', Lock p')" by blast+
next
  assume "\<not> self_locks cb (mx_data c) q"
  then show "exec_prog p True (mx_data c) = Returned (ttl_body (callback_of cb) q (mx_data c))"
    using method_programs_alone[OF assms(5), of cb "mx_data c"] assms(4) by simp
qed

text \<open>A thread sets a deadline of zero seconds while another waits to remove one.\<close>

theorem stuck_caller_locks_manager_witness:
  "\<exists>c. mx_steps (\<lambda>_. []) (mx_new ttl_new) c \<and> mx_owner c = Some 0 \<and>
     {c'. mx_steps (\<lambda>_. []) c c'} \<subseteq> {c'. mx_owner c' = Some 0 \<and> mx_prog c' 0 \<noteq> None \<and> mx_prog c' 1 = Some (T_remove ''a'', remove_ttl_prog ''a'' (\<lambda>b. Done (T_bool b)))}"
proof -
  let ?cb = "(\<lambda>_. []) :: callback_calls" and ?q = "T_set 0 ''a'' 0" and ?r = "T_remove ''a''"
  let ?p = "remove_ttl_prog ''a'' (\<lambda>b. Unlock (Done (T_bool b)))"
  let ?c0 = "mx_new ttl_new"
  let ?c1 = "?c0\<lparr>mx_prog := (mx_prog ?c0)(0 \<mapsto> (?q, ttl_prog_of ?cb ?q))\<rparr>"
  let ?c2 = "?c1\<lparr>mx_prog := (mx_prog ?c1)(1 \<mapsto> (?r, ttl_prog_of ?cb ?r))\<rparr>"
  let ?c3 = "?c2\<lparr>mx_owner := Some 0, mx_prog := (mx_prog ?c2)(0 \<mapsto> (?q, ?p))\<rparr>"
  have "mx_step ?cb ?c0 ?c1" by (rule mx_step.call) (simp_all add: mx_new_def in_int64_def ns_per_s_def)
  moreover have "mx_step ?cb ?c1 ?c2" by (rule mx_step.call) (simp_all add: mx_new_def)
  moreover have "mx_step ?cb ?c2 ?c3" by (rule mx_step.lock) (simp_all add: mx_new_def set_ttl_prog_def)
  ultimately have r: "mx_steps ?cb ?c0 ?c3" unfolding mx_steps_def by (rule three_steps)
  have p: "mx_owner ?c3 = Some 0" "mx_prog ?c3 0 = Some (?q, ?p)" "ttl_prog_of ?cb ?q = Lock ?p" "fits_clock ?q"
    "mx_prog ?c3 1 = Some (?r, remove_ttl_prog ''a'' (\<lambda>b. Done (T_bool b)))"
    by (simp_all add: set_ttl_prog_def in_int64_def ns_per_s_def)
  have "mx_owner c' = Some 0 \<and> mx_prog c' 0 \<noteq> None \<and> mx_prog c' 1 = Some (?r, remove_ttl_prog ''a'' (\<lambda>b. Done (T_bool b)))"
    if "mx_steps ?cb ?c3 c'" for c'
    using stuck_caller_locks_manager[OF r p(1-4)] p(5) that unfolding remove_ttl_prog_def by force
  then show ?thesis using r p(1) by blast
qed

end
