(* ===== verification/Message_Types.thy ===== *)
theory Message_Types
  imports Kv_Store
begin

text \<open>
  The type discipline of \<^verbatim>\<open>protocol::Message\<close>: a message has a type tag and a
  \<^verbatim>\<open>std::variant\<close> with its value, which the class does not tie together. A message is well typed
  when the value is of the kind the tag announces; then the accessors return the value and not
  their defaults. Every message the parser makes and every reply of the store is well typed.
\<close>

section \<open>Well-typed messages\<close>

inductive well_typed :: "message \<Rightarrow> bool" where
  simple_string: "well_typed (Message SIMPLE_STRING (Str s))"
| error_text: "well_typed (Message ERROR_MSG (Str s))"
| bulk_string: "well_typed (Message BULK_STRING (Str s))"
| integer: "well_typed (Message INTEGER (I64 v))"
| array: "\<forall>e \<in> set es. \<exists>m. e = Some m \<and> well_typed m \<Longrightarrow> well_typed (Message ARRAY (Arr es))"
| null_value: "well_typed (Message NULL_VALUE Monostate)"

declare well_typed.intros [intro!]

inductive_cases well_typed_stringE: "well_typed (Message SIMPLE_STRING v)" "well_typed (Message BULK_STRING v)"
  "well_typed (Message ERROR_MSG v)"
inductive_cases well_typed_integerE: "well_typed (Message INTEGER v)"
inductive_cases well_typed_arrayE: "well_typed (Message ARRAY v)"
inductive_cases well_typed_nullE: "well_typed (Message NULL_VALUE v)"

lemmas well_typed_elims = well_typed_stringE well_typed_integerE well_typed_arrayE well_typed_nullE

lemma well_typed_make [intro!]:
  "well_typed (make_simple_string s)" "well_typed (make_error s)" "well_typed (make_bulk_string s)"
  "well_typed (make_integer v)" "well_typed make_null"
  "\<forall>e \<in> set es. \<exists>m. e = Some m \<and> well_typed m \<Longrightarrow> well_typed (make_array es)"
  by (auto simp: make_simple_string_def make_error_def make_bulk_string_def make_integer_def make_null_def make_array_def)

text \<open>The accessors of a well-typed message return its value.\<close>

lemma well_typed_accessors:
  assumes "well_typed m"
  shows "(is_string m \<or> is_error m \<longrightarrow> get_value m = Str (as_string m)) \<and>
    (is_integer m \<longrightarrow> get_value m = I64 (as_integer m)) \<and>
    (is_array m \<longrightarrow> (\<exists>es. get_value m = Arr es \<and> as_array m = Some es \<and> None \<notin> set es)) \<and>
    (is_null m \<longrightarrow> get_value m = Monostate)"
  using assms
  by cases (auto simp: is_string_def is_error_def is_integer_def is_array_def is_null_def as_string_def as_integer_def as_array_def)

section \<open>The parser\<close>

lemma parse_text_well_typed:
  "parse_text mk len b = (Parsed m, b') \<Longrightarrow> (\<And>s. well_typed (mk s)) \<Longrightarrow> well_typed m"
  by (auto simp: parse_text_def split: if_splits)

lemma parse_well_typed:
  "parse_message b = (Parsed m, b') \<Longrightarrow> well_typed m"
  "parse_elems n array b = (Parsed m, b') \<Longrightarrow> \<forall>e \<in> set array. \<exists>m. e = Some m \<and> well_typed m \<Longrightarrow> well_typed m"
proof (induction b and n array b arbitrary: m b' and m b' rule: parse_message_parse_elems.induct)
  case (1 b)
  show ?case
  proof (cases "read_header b")
    case None
    then show ?thesis using "1.prems" by (simp add: parse_message.simps[of b])
  next
    case (Some h)
    obtain t len where h: "h = (t, len)" by force
    show ?thesis
      using "1.prems" "1.IH"[OF Some h[symmetric]] Some h parse_text_well_typed[of _ len b m b']
      by (auto simp: parse_message.simps[of b] parse_simple_string_def parse_error_def parse_bulk_string_def
          parse_integer_def split: if_splits)
  qed
next
  case (2 n array b)
  show ?case
  proof (cases "n = 0")
    case True
    then show ?thesis using "2.prems" by (auto simp: parse_elems.simps[of 0])
  next
    case False
    then obtain e b1 where e: "parse_message b = (Parsed e, b1)" "parse_elems (n - 1) (array @ [Some e]) b1 = (Parsed m, b')"
      using "2.prems"(1) by (auto simp: parse_elems.simps[of n] split: prod.splits parse_result.splits)
    have "well_typed e" using "2.IH"(1)[OF False e(1)] .
    then show ?thesis using "2.IH"(2)[OF False e(1)[symmetric] refl e(2)] "2.prems"(2) by auto
  qed
qed

section \<open>The store\<close>

lemma redis_step_well_typed: "redis_step m args m' r \<Longrightarrow> well_typed r"
  by (induction rule: redis_step.induct) auto

lemma reply_well_typed:
  assumes "kv_wf s"
  shows "well_typed (snd (execute_command s request))"
  using execute_command_step[OF assms, of request] redis_step_well_typed
  by (auto simp: execute_command_def error_response_def Let_def)

text \<open>
  C18: Messages are well typed throughout the server: every message the parser makes of any bytes, and every
  reply of the store to any request, also one that is null or no array of strings, carries a value of the kind its tag announces.
  So the accessor that belongs to the tag returns the value that is held, never its default, for strings, errors, integers and arrays, and
  arrays have no null elements.
\<close>

theorem messages_well_typed:
  assumes "kv_wf s" "parse_message b = (Parsed m, b') \<or> m = snd (execute_command s request)"
  shows "well_typed m \<and> (is_string m \<or> is_error m \<longrightarrow> get_value m = Str (as_string m)) \<and>
    (is_integer m \<longrightarrow> get_value m = I64 (as_integer m)) \<and>
    (is_array m \<longrightarrow> (\<exists>es. get_value m = Arr es \<and> as_array m = Some es \<and> None \<notin> set es)) \<and>
    (is_null m \<longrightarrow> get_value m = Monostate)"
proof -
  have "well_typed m" using assms parse_well_typed(1) reply_well_typed by blast
  then show ?thesis using well_typed_accessors by blast
qed

text \<open>The reply to a command and to a request that is no command.\<close>

theorem messages_well_typed_witness:
  "well_typed (snd (execute_command (kv_new default_table) None)) \<and>
   get_value (snd (execute_command (kv_new default_table) (Some (make_command [''ECHO'', ''k''])))) = Str ''k''"
proof -
  let ?m = "snd (execute_command (kv_new default_table) (Some (make_command [''ECHO'', ''k''])))"
  have "is_string ?m" "as_string ?m = ''k''" by code_simp+
  then show ?thesis
    using messages_well_typed[OF default_kv_wf, of "[]" ?m "[]" "Some (make_command [''ECHO'', ''k''])"]
      messages_well_typed[OF default_kv_wf, of "[]" "snd (execute_command (kv_new default_table) None)" "[]" None] by simp
qed

text \<open>A well-typed message that fits a buffer keeps the limits of the protocol.\<close>

lemma length_serialize_elem: "Some m \<in> set es \<Longrightarrow> length (serialize m) \<le> length (serialize_elems es)"
  by (induction es) (auto split: option.splits)

lemma elems_length: "length es \<le> length (serialize_elems es)"
proof (induction es)
  case (Cons e es)
  moreover have "0 < length (serialize m)" for m by (simp add: serialize_nonempty)
  ultimately show ?case by (cases e) (simp_all add: Suc_le_eq add_strict_increasing)
qed simp

lemma elems_ok_iff: "elems_ok es \<longleftrightarrow> (\<forall>e \<in> set es. \<exists>m. e = Some m \<and> msg_ok m)"
  by (induction es) (auto split: option.splits)

lemma well_typed_msg_ok: "well_typed m \<Longrightarrow> length (serialize m) < 2 ^ 32 \<Longrightarrow> msg_ok m"
proof (induction rule: well_typed.induct)
  case (array es)
  have len: "length (serialize_elems es) < 2 ^ 32" using array.prems by simp
  have "\<exists>m. e = Some m \<and> msg_ok m" if e: "e \<in> set es" for e
  proof -
    obtain m where m: "e = Some m" "length (serialize m) < 2 ^ 32 \<longrightarrow> msg_ok m" using bspec[OF array.IH e] by (elim exE conjE) (rule that)
    then have "length (serialize m) < 2 ^ 32" using length_serialize_elem[of m es] e len by (meson le_less_trans)
    then show ?thesis using m by blast
  qed
  then show ?case using len elems_length[of es] by (simp add: elems_ok_iff)
qed (simp_all add: as_string_def)

end
