(* ===== verification/Socket.thy ===== *)
theory Socket
  imports Prelude
begin

text \<open>
  \<^verbatim>\<open>Socket\<close> of \<^verbatim>\<open>src/src/network/socket.{hpp,cpp}\<close>, which passes calls on to the operating
  system. For sending and receiving, what the system will answer is part of the state: \<open>sock_in\<close>
  is what the next calls of \<^verbatim>\<open>recv\<close> find (nothing left means that the peer has closed),
  \<open>sock_plan\<close> is how many bytes the next calls of \<^verbatim>\<open>send\<close> take (nothing left means that
  they take all), and \<open>sock_out\<close> is what was sent. For the other calls the answers are
  arguments. The Windows branches are not modelled, nor are the texts of error messages. The last part is
  about the objects of the class as owners of descriptors.
\<close>

section \<open>Sockets\<close>

datatype recv_event = Data bytes | Recv_error
datatype send_event = Sent nat | Send_error

record socket =
  sock_fd :: int
  sock_in :: "recv_event list"
  sock_plan :: "send_event list"
  sock_out :: bytes

abbreviation (input) INVALID_SOCKET_FD :: int where "INVALID_SOCKET_FD \<equiv> -1"

definition sock_valid :: "socket \<Rightarrow> bool" where
  "sock_valid s = (sock_fd s \<noteq> INVALID_SOCKET_FD)"

lemma sock_valid_update [simp]:
  "sock_valid (s\<lparr>sock_fd := fd\<rparr>) = (fd \<noteq> -1)" "sock_valid (s\<lparr>sock_in := i\<rparr>) = sock_valid s"
  "sock_valid (s\<lparr>sock_plan := p\<rparr>) = sock_valid s" "sock_valid (s\<lparr>sock_out := out\<rparr>) = sock_valid s"
  "sock_valid \<lparr>sock_fd = fd, sock_in = i, sock_plan = p, sock_out = out\<rparr> = (fd \<noteq> -1)"
  by (simp_all add: sock_valid_def)

definition socket_close :: "socket \<Rightarrow> socket" where
  "socket_close s = (if sock_valid s then s\<lparr>sock_fd := INVALID_SOCKET_FD\<rparr> else s)"

text \<open>
  \<^verbatim>\<open>Socket::recv\<close>: the socket, the return value and the bytes stored. A segment that does not
  fit is delivered in several calls.
\<close>

definition socket_recv :: "socket \<Rightarrow> nat \<Rightarrow> socket \<times> int \<times> bytes" where
  "socket_recv s cap =
     (if \<not> sock_valid s then (s, -1, [])
      else case sock_in s of
             [] \<Rightarrow> (s, 0, [])
           | Recv_error # later \<Rightarrow> (s\<lparr>sock_in := later\<rparr>, -1, [])
           | Data bs # later \<Rightarrow>
               (if length bs \<le> cap then (s\<lparr>sock_in := later\<rparr>, int (length bs), bs)
                else (s\<lparr>sock_in := Data (drop cap bs) # later\<rparr>, int cap, take cap bs)))"

text \<open>\<^verbatim>\<open>Socket::send\<close>: the socket and the return value.\<close>

definition socket_send :: "socket \<Rightarrow> bytes \<Rightarrow> socket \<times> int" where
  "socket_send s bs =
     (if \<not> sock_valid s then (s, -1)
      else case sock_plan s of
             [] \<Rightarrow> (s\<lparr>sock_out := sock_out s @ bs\<rparr>, int (length bs))
           | Send_error # later \<Rightarrow> (s\<lparr>sock_plan := later\<rparr>, -1)
           | Sent n # later \<Rightarrow>
               (s\<lparr>sock_plan := later, sock_out := sock_out s @ take n bs\<rparr>, int (min n (length bs))))"

text \<open>A bound on the number of calls of \<^verbatim>\<open>recv\<close> that return data.\<close>

definition pending :: "socket \<Rightarrow> nat" where
  "pending s = sum_list (map (\<lambda>e. case e of Data bs \<Rightarrow> Suc (length bs) | Recv_error \<Rightarrow> 1) (sock_in s))"

section \<open>Setting up\<close>

text \<open>
  The remaining operations of \<^verbatim>\<open>Socket\<close>; what the system calls return are arguments:
  \<open>pton\<close> of \<^verbatim>\<open>inet_pton\<close> and \<open>rc\<close> of the call itself.
\<close>

definition socket_new :: socket where
  "socket_new = \<lparr>sock_fd = INVALID_SOCKET_FD, sock_in = [], sock_plan = [], sock_out = []\<rparr>"

text \<open>\<open>fresh\<close> is the socket the system makes, or an invalid one.\<close>

definition create_tcp :: "socket \<Rightarrow> socket \<Rightarrow> socket \<times> bool" where
  "create_tcp s fresh =
     (let s1 = socket_close s
      in if \<not> sock_valid fresh then (s1\<lparr>sock_fd := INVALID_SOCKET_FD\<rparr>, False) else (fresh, True))"

definition socket_bind :: "socket \<Rightarrow> int \<Rightarrow> int \<Rightarrow> bool" where
  "socket_bind s pton rc = (if \<not> sock_valid s then False else if pton \<le> 0 then False else \<not> rc < 0)"

definition socket_listen :: "socket \<Rightarrow> int \<Rightarrow> bool" where
  "socket_listen s rc = (if \<not> sock_valid s then False else \<not> rc < 0)"

text \<open>\<^verbatim>\<open>accept\<close>; \<open>peer\<close> is the socket as the system hands it over, or an invalid one.\<close>

definition socket_accept :: "socket \<Rightarrow> socket \<Rightarrow> socket" where
  "socket_accept s peer = (if \<not> sock_valid s then socket_new else if \<not> sock_valid peer then socket_new else peer)"

definition socket_connect :: "socket \<Rightarrow> int \<Rightarrow> int \<Rightarrow> bool" where
  "socket_connect s pton rc = (if \<not> sock_valid s then False else if pton \<le> 0 then False else \<not> rc < 0)"

definition O_NONBLOCK :: u32 where "O_NONBLOCK = 0x800"

definition nonblocking_flags :: "u32 \<Rightarrow> bool \<Rightarrow> u32" where
  "nonblocking_flags flags enable = (if enable then flags OR O_NONBLOCK else flags AND NOT O_NONBLOCK)"

text \<open>
  \<^verbatim>\<open>set_nonblocking\<close> on Unix: \<open>flags\<close> is the answer to \<^verbatim>\<open>F_GETFL\<close> (\<open>None\<close> on an error);
  the result has the flags handed to \<^verbatim>\<open>F_SETFL\<close>.
\<close>

definition set_nonblocking :: "socket \<Rightarrow> u32 option \<Rightarrow> int \<Rightarrow> bool \<Rightarrow> bool \<times> u32 option" where
  "set_nonblocking s flags rc enable =
     (if \<not> sock_valid s then (False, None)
      else case flags of
             None \<Rightarrow> (False, None)
           | Some f \<Rightarrow> (rc \<noteq> -1, Some (nonblocking_flags f enable)))"

definition set_nodelay :: "socket \<Rightarrow> int \<Rightarrow> bool" where
  "set_nodelay s rc = (if \<not> sock_valid s then False else \<not> rc < 0)"

definition set_reuseaddr :: "socket \<Rightarrow> int \<Rightarrow> bool" where
  "set_reuseaddr s rc = (if \<not> sock_valid s then False else \<not> rc < 0)"

lemma nonblocking_only_bit:
  "bit (nonblocking_flags f enable) n = (if n = 11 then enable else bit f n)"
proof -
  have exp: "O_NONBLOCK = 2 ^ 11" by (simp add: O_NONBLOCK_def)
  have "bit O_NONBLOCK n \<longleftrightarrow> n = 11" unfolding exp bit_exp_iff possible_bit_word by auto
  moreover have "bit f n \<Longrightarrow> n < 32" using bit_imp_le_length[of f n] by simp
  ultimately show ?thesis by (auto simp: nonblocking_flags_def bit_simps)
qed

text \<open>
  \<^verbatim>\<open>set_nonblocking\<close> changes one flag only: switching the non-blocking mode on and off again leaves
  the flags of a blocking socket as they were, and all other flags are kept either way.
\<close>

theorem nonblocking_changes_one_flag:
  assumes "sock_valid s" "set_nonblocking s (Some f) rc enable = (ok, Some f')"
  shows "(\<forall>n. n \<noteq> 11 \<longrightarrow> bit f' n = bit f n) \<and> bit f' 11 = enable \<and>
    (\<not> bit f 11 \<longrightarrow> nonblocking_flags (nonblocking_flags f True) False = f)"
proof -
  have "f' = nonblocking_flags f enable" using assms by (simp add: set_nonblocking_def)
  moreover have "nonblocking_flags (nonblocking_flags f True) False = f" if "\<not> bit f 11"
    by (rule bit_word_eqI) (use that in \<open>simp add: nonblocking_only_bit\<close>)
  ultimately show ?thesis by (simp add: nonblocking_only_bit)
qed

section \<open>Ownership of descriptors\<close>

text \<open>
  The objects of class \<^verbatim>\<open>Socket\<close> in a running program and the descriptors the system has open, among them those in \<open>unowned\<close> that
  the program has got from the system itself and not given to an object:
  constructors, moves, \<^verbatim>\<open>create_tcp\<close>, \<^verbatim>\<open>accept\<close>, \<^verbatim>\<open>close\<close> and destructors. A call of
  \<^verbatim>\<open>::close\<close> on a descriptor that is not open is counted: by then another part of the program may
  have been given the same number.
\<close>

record descriptors =
  objects :: "nat \<Rightarrow> int option"
  opened :: "int set"
  unowned :: "int set"
  bad_closes :: nat

definition os_close :: "descriptors \<Rightarrow> int \<Rightarrow> descriptors" where
  "os_close d fd = (if fd \<in> opened d then d\<lparr>opened := opened d - {fd}\<rparr> else d\<lparr>bad_closes := bad_closes d + 1\<rparr>)"

definition obj_close :: "descriptors \<Rightarrow> nat \<Rightarrow> descriptors" where
  "obj_close d i =
     (case objects d i of
        None \<Rightarrow> d
      | Some fd \<Rightarrow>
          if fd \<noteq> INVALID_SOCKET_FD
          then (os_close d fd)\<lparr>objects := (objects d)(i \<mapsto> INVALID_SOCKET_FD)\<rparr> else d)"

definition obj_construct :: "descriptors \<Rightarrow> nat \<Rightarrow> descriptors" where
  "obj_construct d i = d\<lparr>objects := (objects d)(i \<mapsto> INVALID_SOCKET_FD)\<rparr>"

text \<open>\<^verbatim>\<open>explicit Socket(socket_t fd)\<close>: the object takes the descriptor as its own, whoever else has it.\<close>

definition obj_from_fd :: "descriptors \<Rightarrow> nat \<Rightarrow> int \<Rightarrow> descriptors" where
  "obj_from_fd d i fd = d\<lparr>objects := (objects d)(i \<mapsto> fd), unowned := unowned d - {fd}\<rparr>"

definition obj_move :: "descriptors \<Rightarrow> nat \<Rightarrow> nat \<Rightarrow> descriptors" where
  "obj_move d i other =
     d\<lparr>objects := (objects d)(i := objects d other, other \<mapsto> INVALID_SOCKET_FD)\<rparr>"

definition obj_assign :: "descriptors \<Rightarrow> nat \<Rightarrow> nat \<Rightarrow> descriptors" where
  "obj_assign d i other = (if i \<noteq> other then obj_move (obj_close d i) i other else d)"

text \<open>\<open>fd\<close> is what \<^verbatim>\<open>::socket\<close> and \<^verbatim>\<open>::accept\<close> return.\<close>

definition obj_create :: "descriptors \<Rightarrow> nat \<Rightarrow> int \<Rightarrow> descriptors" where
  "obj_create d i fd =
     (let d1 = obj_close d i
      in d1\<lparr>objects := (objects d1)(i \<mapsto> fd),
            opened := (if fd = INVALID_SOCKET_FD then opened d1 else insert fd (opened d1))\<rparr>)"

definition obj_accept :: "descriptors \<Rightarrow> nat \<Rightarrow> nat \<Rightarrow> int \<Rightarrow> descriptors" where
  "obj_accept d listener i fd =
     (if objects d listener = Some INVALID_SOCKET_FD \<or> fd = INVALID_SOCKET_FD then obj_construct d i
      else obj_from_fd (d\<lparr>opened := insert fd (opened d)\<rparr>) i fd)"

definition obj_destroy :: "descriptors \<Rightarrow> nat \<Rightarrow> descriptors" where
  "obj_destroy d i = (let d1 = obj_close d i in d1\<lparr>objects := (objects d1)(i := None)\<rparr>)"

text \<open>
  What a program can do with sockets. The system only hands out descriptors that are not open,
  and a program only constructs objects that do not live and uses objects that do. It gives the explicit constructor a descriptor that it has
  got from the system and that no object has, or the invalid one.
\<close>

inductive obj_reachable :: "descriptors \<Rightarrow> bool" where
  start: "obj_reachable \<lparr>objects = Map.empty, opened = {}, unowned = {}, bad_closes = 0\<rparr>"
| construct: "obj_reachable d \<Longrightarrow> objects d i = None \<Longrightarrow> obj_reachable (obj_construct d i)"
| system: "obj_reachable d \<Longrightarrow> fd \<notin> opened d \<Longrightarrow> fd \<noteq> -1 \<Longrightarrow>
    obj_reachable (d\<lparr>opened := insert fd (opened d), unowned := insert fd (unowned d)\<rparr>)"
| from_fd: "obj_reachable d \<Longrightarrow> objects d i = None \<Longrightarrow> fd = -1 \<or> fd \<in> unowned d \<Longrightarrow> obj_reachable (obj_from_fd d i fd)"
| move: "obj_reachable d \<Longrightarrow> objects d i = None \<Longrightarrow> objects d other \<noteq> None \<Longrightarrow> obj_reachable (obj_move d i other)"
| assign: "obj_reachable d \<Longrightarrow> objects d i \<noteq> None \<Longrightarrow> objects d other \<noteq> None \<Longrightarrow> obj_reachable (obj_assign d i other)"
| create: "obj_reachable d \<Longrightarrow> objects d i \<noteq> None \<Longrightarrow> fd \<notin> opened (obj_close d i) \<Longrightarrow> obj_reachable (obj_create d i fd)"
| accept: "obj_reachable d \<Longrightarrow> objects d listener \<noteq> None \<Longrightarrow> objects d i = None \<Longrightarrow> fd \<notin> opened d \<Longrightarrow>
    obj_reachable (obj_accept d listener i fd)"
| closing: "obj_reachable d \<Longrightarrow> objects d i \<noteq> None \<Longrightarrow> obj_reachable (obj_close d i)"
| destroy: "obj_reachable d \<Longrightarrow> objects d i \<noteq> None \<Longrightarrow> obj_reachable (obj_destroy d i)"

text \<open>Every open descriptor that is not in \<open>unowned\<close> has an owner, and no other object has it.\<close>

definition owned :: "descriptors \<Rightarrow> bool" where
  "owned d = (bad_closes d = 0 \<and> -1 \<notin> opened d \<and> unowned d \<subseteq> opened d \<and>
     (\<exists>owner. \<forall>i fd. fd \<noteq> -1 \<longrightarrow> (objects d i = Some fd \<longleftrightarrow> fd \<in> opened d - unowned d \<and> owner fd = i)))"

lemma ownedI:
  "bad_closes d = 0 \<Longrightarrow> -1 \<notin> opened d \<Longrightarrow> unowned d \<subseteq> opened d \<Longrightarrow>
   (\<And>i fd. fd \<noteq> -1 \<Longrightarrow> objects d i = Some fd \<longleftrightarrow> fd \<in> opened d - unowned d \<and> owner fd = i) \<Longrightarrow> owned d"
  unfolding owned_def by blast

lemma ownedE:
  assumes "owned d"
  obtains owner where "bad_closes d = 0" "-1 \<notin> opened d" "unowned d \<subseteq> opened d"
    "\<And>i fd. fd \<noteq> -1 \<Longrightarrow> objects d i = Some fd \<longleftrightarrow> fd \<in> opened d - unowned d \<and> owner fd = i"
  using assms unfolding owned_def by blast

lemma owned_start: "owned \<lparr>objects = Map.empty, opened = {}, unowned = {}, bad_closes = 0\<rparr>"
  by (rule ownedI) simp_all

lemma owned_close [wf_intros]: "owned d \<Longrightarrow> owned (obj_close d i)"
proof (erule ownedE)
  fix owner
  assume d: "bad_closes d = 0" "-1 \<notin> opened d" "unowned d \<subseteq> opened d"
    and own: "\<And>i fd. fd \<noteq> -1 \<Longrightarrow> objects d i = Some fd \<longleftrightarrow> fd \<in> opened d - unowned d \<and> owner fd = i"
  show "owned (obj_close d i)"
  proof (cases "objects d i = None \<or> objects d i = Some (-1)")
    case True
    then show ?thesis using d own by (intro ownedI[of _ owner]) (auto simp: obj_close_def)
  next
    case False
    then obtain fd where fd: "objects d i = Some fd" "fd \<noteq> -1" by auto
    then have "fd \<in> opened d" "fd \<notin> unowned d" "owner fd = i" using own by auto
    moreover from this have close: "obj_close d i = d\<lparr>opened := opened d - {fd}, objects := (objects d)(i \<mapsto> -1)\<rparr>"
      using fd by (simp add: obj_close_def os_close_def)
    moreover have only: "x = fd" if "x \<in> opened d - unowned d" "owner x = i" "x \<noteq> -1" for x
      using own[OF that(3), of i] that fd(1) by simp
    show ?thesis
    proof (rule ownedI[of _ owner])
      fix k x
      assume x: "x \<noteq> (-1 :: int)"
      show "objects (obj_close d i) k = Some x \<longleftrightarrow> x \<in> opened (obj_close d i) - unowned (obj_close d i) \<and> owner x = k"
        using own[OF x, of k] only[OF _ _ x] x \<open>owner fd = i\<close> by (auto simp: close)
    qed (use d \<open>fd \<notin> unowned d\<close> in \<open>auto simp: close\<close>)
  qed
qed

lemma close_invalid: "objects d i \<noteq> None \<Longrightarrow> objects (obj_close d i) i = Some (-1)"
  by (auto simp: obj_close_def os_close_def)

lemma close_other: "j \<noteq> i \<Longrightarrow> objects (obj_close d i) j = objects d j"
  by (auto simp: obj_close_def os_close_def split: option.split)

lemma owned_construct [wf_intros]:
  assumes "owned d" "objects d i \<in> {None, Some (-1)}"
  shows "owned (obj_construct d i)" "owned (d\<lparr>objects := (objects d)(i := None)\<rparr>)"
proof -
  from assms(1) obtain owner where "bad_closes d = 0" "-1 \<notin> opened d" "unowned d \<subseteq> opened d"
    "\<And>i fd. fd \<noteq> -1 \<Longrightarrow> objects d i = Some fd \<longleftrightarrow> fd \<in> opened d - unowned d \<and> owner fd = i" by (rule ownedE) blast
  then show "owned (obj_construct d i)" "owned (d\<lparr>objects := (objects d)(i := None)\<rparr>)"
    using assms(2) by (intro ownedI[of _ owner]; force simp: obj_construct_def)+
qed

lemma owned_move [wf_intros]:
  assumes "owned d" "i \<noteq> other" "objects d i \<in> {None, Some (-1)}" "objects d other = Some fd"
  shows "owned (obj_move d i other)"
proof -
  from assms(1) obtain owner where d: "bad_closes d = 0" "-1 \<notin> opened d" "unowned d \<subseteq> opened d"
    and own: "\<And>i fd. fd \<noteq> -1 \<Longrightarrow> objects d i = Some fd \<longleftrightarrow> fd \<in> opened d - unowned d \<and> owner fd = i" by (rule ownedE) blast
  have i: "owner x \<noteq> i" if "x \<in> opened d - unowned d" for x using own[of x i] that assms(3) d(2) by force
  have other: "x \<in> opened d - unowned d \<and> owner x = other \<longleftrightarrow> x = fd" if "x \<noteq> -1" for x using own[OF that, of other] assms(4) by auto
  show ?thesis
  proof (rule ownedI[of _ "owner(fd := i)"])
    fix k x
    assume x: "x \<noteq> (-1 :: int)"
    show "objects (obj_move d i other) k = Some x \<longleftrightarrow> x \<in> opened (obj_move d i other) - unowned (obj_move d i other) \<and> (owner(fd := i)) x = k"
      using own[OF x, of k] other[OF x] i[of x] assms(2,4) x by (auto simp: obj_move_def)
  qed (use d in \<open>simp_all add: obj_move_def\<close>)
qed

lemma owned_fresh [wf_intros]:
  assumes "owned d" "objects d i \<in> {None, Some (-1)}" "fd \<notin> opened d" "fd \<noteq> -1"
  shows "owned (d\<lparr>objects := (objects d)(i \<mapsto> fd), opened := insert fd (opened d)\<rparr>)"
proof -
  from assms(1) obtain owner where d: "bad_closes d = 0" "-1 \<notin> opened d" "unowned d \<subseteq> opened d"
    and own: "\<And>i fd. fd \<noteq> -1 \<Longrightarrow> objects d i = Some fd \<longleftrightarrow> fd \<in> opened d - unowned d \<and> owner fd = i" by (rule ownedE) blast
  have "owner x \<noteq> i" if "x \<in> opened d - unowned d" for x using own[of x i] that assms(2) d(2) by force
  then show ?thesis using assms(2-4) d own by (intro ownedI[of _ "owner(fd := i)"]) auto
qed

lemma owned_from_fd [wf_intros]:
  assumes "owned d" "objects d i = None" "fd = -1 \<or> fd \<in> unowned d"
  shows "owned (obj_from_fd d i fd)"
proof -
  from assms(1) obtain owner where d: "bad_closes d = 0" "-1 \<notin> opened d" "unowned d \<subseteq> opened d"
    and own: "\<And>i fd. fd \<noteq> -1 \<Longrightarrow> objects d i = Some fd \<longleftrightarrow> fd \<in> opened d - unowned d \<and> owner fd = i" by (rule ownedE) blast
  have "owner x \<noteq> i" if "x \<in> opened d - unowned d" for x using own[of x i] that assms(2) d(2) by force
  then show ?thesis using d own assms(3)
    by (intro ownedI[of _ "if fd = -1 then owner else owner(fd := i)"]) (auto simp: obj_from_fd_def)
qed

lemma owned_system [wf_intros]:
  assumes "owned d" "fd \<notin> opened d" "fd \<noteq> -1"
  shows "owned (d\<lparr>opened := insert fd (opened d), unowned := insert fd (unowned d)\<rparr>)"
proof -
  from assms(1) obtain owner where "bad_closes d = 0" "-1 \<notin> opened d" "unowned d \<subseteq> opened d"
    "\<And>i fd. fd \<noteq> -1 \<Longrightarrow> objects d i = Some fd \<longleftrightarrow> fd \<in> opened d - unowned d \<and> owner fd = i" by (rule ownedE) blast
  then show ?thesis using assms(2,3) by (intro ownedI[of _ owner]) auto
qed

lemma owned_create [wf_intros]:
  assumes "owned d" "objects d i \<noteq> None" "fd \<notin> opened (obj_close d i)"
  shows "owned (obj_create d i fd)"
proof -
  have "owned (obj_close d i)" "objects (obj_close d i) i = Some (-1)"
    using assms by (simp_all add: owned_close close_invalid)
  then show ?thesis using owned_fresh[of "obj_close d i" i fd] owned_construct[of "obj_close d i" i] assms(3)
    by (auto simp: obj_create_def obj_construct_def Let_def)
qed

lemma owned_destroy [wf_intros]: 
  assumes "owned d" "objects d i \<noteq> None"
  shows "owned (obj_destroy d i)"
  using owned_construct(2)[OF owned_close[OF assms(1)], of i i] close_invalid[OF assms(2)]
  by (simp add: obj_destroy_def Let_def)

lemma reachable_owned: "obj_reachable d \<Longrightarrow> owned d"
proof (induction rule: obj_reachable.induct)
  case (move d i other)
  then obtain fd where "objects d other = Some fd" by auto
  moreover from this have "i \<noteq> other" using move by auto
  ultimately show ?case using owned_move[of d i other fd] move by simp
next
  case (assign d i other)
  then show ?case
    using owned_move[of "obj_close d i" i other "the (objects d other)"] owned_close[of d i] close_invalid[of d i]
      close_other[of other i d]
    by (auto simp: obj_assign_def)
next
  case (accept d listener i fd)
  then have "unowned d - {fd} = unowned d" by (auto simp: owned_def)
  then have "obj_from_fd (d\<lparr>opened := insert fd (opened d)\<rparr>) i fd =
      d\<lparr>objects := (objects d)(i \<mapsto> fd), opened := insert fd (opened d)\<rparr>" by (simp add: obj_from_fd_def)
  then show ?case using accept owned_fresh[of d i fd] by (simp add: obj_accept_def owned_construct)
qed (simp_all add: owned_start owned_construct owned_create owned_close owned_destroy owned_from_fd owned_system)

text \<open>
  C19: Descriptors are owned: whatever a program does with \<^verbatim>\<open>Socket\<close> objects, provided that it gives the constructor from a
  descriptor only descriptors that no object has, as \<^verbatim>\<open>accept\<close> does, every open descriptor that it has not got from the system
  itself belongs to exactly one live object, the others belong to none, no descriptor is ever closed twice, and when no object is left, none
  is open but those.
\<close>

theorem descriptors_owned_once:
  assumes "obj_reachable d"
  shows "bad_closes d = 0 \<and> (\<forall>fd \<in> opened d - unowned d. \<exists>!i. objects d i = Some fd) \<and>
    (\<forall>i fd. objects d i = Some fd \<and> fd \<noteq> -1 \<longrightarrow> fd \<in> opened d - unowned d) \<and> (objects d = Map.empty \<longrightarrow> opened d = unowned d)"
proof -
  from reachable_owned[OF assms] obtain owner where d: "bad_closes d = 0" "-1 \<notin> opened d" "unowned d \<subseteq> opened d"
    and own: "\<And>i fd. fd \<noteq> -1 \<Longrightarrow> objects d i = Some fd \<longleftrightarrow> fd \<in> opened d - unowned d \<and> owner fd = i" by (rule ownedE) blast
  have valid: "fd \<noteq> -1" if "fd \<in> opened d" for fd using that d(2) by auto
  have "\<exists>!i. objects d i = Some fd" if "fd \<in> opened d - unowned d" for fd using own[OF valid] that by auto
  moreover have "opened d = unowned d" if "objects d = Map.empty"
  proof -
    have "fd \<in> unowned d" if "fd \<in> opened d" for fd using own[OF valid[OF that]] that \<open>objects d = Map.empty\<close> by auto
    then show ?thesis using d(3) by blast
  qed
  ultimately show ?thesis using d own by auto
qed

text \<open>
  The proviso is needed: an object constructed from the descriptor of another closes it in its destructor, and the destructor of
  the other closes it again.
\<close>

theorem shared_descriptor_closed_twice:
  assumes "obj_reachable d" "objects d i = Some fd" "fd \<noteq> -1" "objects d j = None"
  shows "bad_closes (obj_destroy (obj_destroy (obj_from_fd d j fd) j) i) = 1"
proof -
  have "bad_closes d = 0" "fd \<in> opened d" using reachable_owned[OF assms(1)] assms(2,3) by (auto simp: owned_def)
  moreover have "i \<noteq> j" using assms(2,4) by auto
  ultimately show ?thesis using assms(2-4)
    by (simp add: obj_destroy_def obj_close_def obj_from_fd_def os_close_def Let_def)
qed

text \<open>An object takes a descriptor of the system, another is made by \<^verbatim>\<open>create_tcp\<close>; both are destroyed.\<close>

theorem descriptors_owned_once_witness:
  "\<exists>d. obj_reachable d \<and> objects d 0 = Some 4 \<and> objects d 2 = Some 5 \<and> opened d = {4, 5} \<and>
     bad_closes (obj_destroy (obj_destroy d 2) 0) = 0 \<and> opened (obj_destroy (obj_destroy d 2) 0) = {}"
proof -
  let ?d0 = "\<lparr>objects = Map.empty, opened = {4}, unowned = {4}, bad_closes = 0\<rparr>"
  have "obj_reachable ?d0" using system[OF start, of 4] by simp
  then have "obj_reachable (obj_from_fd ?d0 0 4)" by (rule from_fd) simp_all
  then have "obj_reachable (obj_construct (obj_from_fd ?d0 0 4) 2)" by (rule construct) (simp add: obj_from_fd_def)
  then have r: "obj_reachable (obj_create (obj_construct (obj_from_fd ?d0 0 4) 2) 2 5)" (is "obj_reachable ?d")
    by (rule create) (simp_all add: obj_construct_def obj_close_def obj_from_fd_def)
  have d: "objects ?d = [0 \<mapsto> 4, 2 \<mapsto> 5]" "opened ?d = {4, 5}" "unowned ?d = {}"
    by (auto simp: obj_create_def obj_construct_def obj_close_def obj_from_fd_def Let_def)
  have "obj_reachable (obj_destroy ?d 2)" by (rule destroy[OF r]) (simp add: d)
  then have r2: "obj_reachable (obj_destroy (obj_destroy ?d 2) 0)"
    by (rule destroy) (simp add: obj_destroy_def obj_close_def os_close_def d Let_def)
  moreover have "objects (obj_destroy (obj_destroy ?d 2) 0) = Map.empty" "unowned (obj_destroy (obj_destroy ?d 2) 0) = {}"
    by (auto simp: obj_destroy_def obj_close_def os_close_def d Let_def)
  ultimately show ?thesis using descriptors_owned_once[OF r2] r d by (intro exI[of _ ?d]) simp
qed

theorem shared_descriptor_closed_twice_witness:
  "bad_closes (obj_destroy (obj_destroy (obj_from_fd (obj_from_fd \<lparr>objects = Map.empty, opened = {4}, unowned = {4}, bad_closes = 0\<rparr> 0 4) 1 4) 1) 0) = 1"
proof -
  have "obj_reachable \<lparr>objects = Map.empty, opened = {4}, unowned = {4}, bad_closes = 0\<rparr>" using system[OF start, of 4] by simp
  then have r: "obj_reachable (obj_from_fd \<lparr>objects = Map.empty, opened = {4}, unowned = {4}, bad_closes = 0\<rparr> 0 4)" by (rule from_fd) simp_all
  show ?thesis by (rule shared_descriptor_closed_twice[OF r]) (simp_all add: obj_from_fd_def)
qed

theorem nonblocking_changes_one_flag_witness:
  "set_nonblocking (socket_new\<lparr>sock_fd := 4\<rparr>) (Some 2) 0 True = (True, Some 0x802) \<and> bit (0x802 :: u32) 11"
proof -
  have "set_nonblocking (socket_new\<lparr>sock_fd := 4\<rparr>) (Some 2) 0 True = (True, Some 0x802)"
    by (simp add: set_nonblocking_def nonblocking_flags_def O_NONBLOCK_def)
  from nonblocking_changes_one_flag[OF _ this] this show ?thesis by simp
qed

end
