(* ===== verification/Connection.thy ===== *)
theory Connection
  imports Socket
begin

text \<open>
  \<^verbatim>\<open>ClientConnection\<close> of \<^verbatim>\<open>src/src/network/tcp_server.{hpp,cpp}\<close>: reading into a buffer of
  limited size, writing with partial sends, consuming and closing. The end of the theory states
  what a writer promises, as a locale.
\<close>

section \<open>Connections\<close>

record connection =
  conn_socket :: socket
  read_buffer :: bytes
  write_buffer :: bytes
  conn_closed :: bool

definition READ_BUFFER_SIZE :: nat where "READ_BUFFER_SIZE = 4096"
definition MAX_BUFFER_SIZE :: nat where "MAX_BUFFER_SIZE = 1024 * 1024"

definition conn_new :: "socket \<Rightarrow> connection" where
  "conn_new s = \<lparr>conn_socket = s, read_buffer = [], write_buffer = [], conn_closed = False\<rparr>"

definition is_connected :: "connection \<Rightarrow> bool" where
  "is_connected c = (sock_valid (conn_socket c) \<and> \<not> conn_closed c)"

definition conn_close :: "connection \<Rightarrow> connection" where
  "conn_close c =
     (if \<not> conn_closed c
      then c\<lparr>conn_socket := socket_close (conn_socket c), conn_closed := True, read_buffer := [],
             write_buffer := []\<rparr>
      else c)"

text \<open>The destructor closes.\<close>

definition conn_destroy :: "connection \<Rightarrow> connection" where
  "conn_destroy c = conn_close c"

definition conn_read :: "connection \<Rightarrow> connection \<times> int" where
  "conn_read c =
     (if \<not> is_connected c then (c, -1)
      else let (s, bytes_read, bs) = socket_recv (conn_socket c) READ_BUFFER_SIZE;
               c1 = c\<lparr>conn_socket := s\<rparr>
           in if bytes_read > 0 then
                if length (read_buffer c1) + length bs > MAX_BUFFER_SIZE
                then (conn_close c1, -1)
                else (c1\<lparr>read_buffer := read_buffer c1 @ bs\<rparr>, bytes_read)
              else if bytes_read = 0 then (conn_close c1, bytes_read)
              else (c1, bytes_read))"

text \<open>
  The loop of \<^verbatim>\<open>ClientConnection::write\<close> with what is still to be sent. Each round takes an
  event of the plan or, when there is none left, sends everything, so the loop ends.
\<close>

function write_loop :: "connection \<Rightarrow> bytes \<Rightarrow> connection \<times> bool" where
  "write_loop c rest =
     (if rest = [] then (c, True)
      else let (s, sent) = socket_send (conn_socket c) rest;
               c1 = c\<lparr>conn_socket := s\<rparr>
           in if sent < 0 then (conn_close c1, False)
              else write_loop c1 (drop (nat sent) rest))"
  by pat_completeness auto
termination
  by (relation "measures [\<lambda>(c, _). length (sock_plan (conn_socket c)), \<lambda>(_, rest). length rest]")
     (auto simp: socket_send_def split: if_splits list.splits send_event.splits)

declare write_loop.simps [simp del]

definition conn_write :: "connection \<Rightarrow> bytes \<Rightarrow> connection \<times> bool" where
  "conn_write c bs = (if \<not> is_connected c \<or> bs = [] then (c, False) else write_loop c bs)"

definition conn_write_string :: "connection \<Rightarrow> string \<Rightarrow> connection \<times> bool" where
  "conn_write_string c str = conn_write c (bytes_of_string str)"

definition conn_consume :: "connection \<Rightarrow> nat \<Rightarrow> connection" where
  "conn_consume c n =
     (if n \<ge> length (read_buffer c) then c\<lparr>read_buffer := []\<rparr>
      else c\<lparr>read_buffer := drop n (read_buffer c)\<rparr>)"

section \<open>Lemmas\<close>

lemma write_loop_facts:
  "is_connected c \<Longrightarrow> write_loop c rest = (c', ok) \<Longrightarrow>
   sock_in (conn_socket c') = sock_in (conn_socket c) \<and>
   (\<exists>n \<le> length rest. sock_out (conn_socket c') = sock_out (conn_socket c) @ take n rest \<and> (ok \<longrightarrow> n = length rest)) \<and>
   (if ok then is_connected c' \<and> read_buffer c' = read_buffer c else \<not> is_connected c' \<and> read_buffer c' = [])"
proof (induction c rest arbitrary: c' ok rule: write_loop.induct)
  case (1 c rest)
  show ?case
  proof (cases "rest = []")
    case True
    then show ?thesis using "1.prems" by (auto simp: write_loop.simps[of c "[]"])
  next
    case False
    obtain s sent where send: "socket_send (conn_socket c) rest = (s, sent)" by force
    have valid: "sock_valid (conn_socket c)" "\<not> conn_closed c" using "1.prems"(1) by (auto simp: is_connected_def)
    show ?thesis
    proof (cases "sent < 0")
      case True
      then have "s = (conn_socket c)\<lparr>sock_plan := tl (sock_plan (conn_socket c))\<rparr>"
        using send valid by (auto simp: socket_send_def split: list.splits send_event.splits)
      then show ?thesis using True False send "1.prems" valid
        by (auto simp: write_loop.simps[of c rest] conn_close_def socket_close_def is_connected_def intro: exI[of _ 0])
    next
      case nonneg: False
      define n where "n = nat sent"
      have n: "sock_in s = sock_in (conn_socket c)" "sock_valid s" "n \<le> length rest"
          "sock_out s = sock_out (conn_socket c) @ take n rest"
        using send valid nonneg by (auto simp: socket_send_def n_def min_def split: list.splits send_event.splits)
      let ?c1 = "c\<lparr>conn_socket := s\<rparr>"
      have con: "is_connected ?c1" using n(2) valid by (simp add: is_connected_def)
      have loop: "write_loop ?c1 (drop n rest) = (c', ok)"
        using "1.prems"(2) False nonneg send by (simp add: write_loop.simps[of c rest] n_def)
      note IH = "1.IH"[OF False send[symmetric] refl refl nonneg con[unfolded n_def] loop[unfolded n_def], folded n_def]
      then obtain k where k: "k \<le> length (drop n rest)"
          "sock_out (conn_socket c') = sock_out (conn_socket ?c1) @ take k (drop n rest)" "ok \<longrightarrow> k = length (drop n rest)"
        by auto
      have "sock_out (conn_socket c') = sock_out (conn_socket c) @ take (n + k) rest"
        using k(2) n(4) by (simp add: take_add)
      moreover have "n + k \<le> length rest" "ok \<longrightarrow> n + k = length rest" using k n(3) by auto
      ultimately show ?thesis using IH n(1) by (auto intro!: exI[of _ "n + k"])
    qed
  qed
qed

lemma write_loop_no_plan:
  "is_connected c \<Longrightarrow> sock_plan (conn_socket c) = [] \<Longrightarrow>
   write_loop c rest = (c\<lparr>conn_socket := (conn_socket c)\<lparr>sock_out := sock_out (conn_socket c) @ rest\<rparr>\<rparr>, True)"
  by (cases "rest = []")
     (simp_all add: write_loop.simps[of c rest] write_loop.simps[of _ "[]"] socket_send_def is_connected_def)

section \<open>Writers\<close>

text \<open>
  What the two users of a socket, \<^verbatim>\<open>ClientConnection\<close> and \<^verbatim>\<open>TcpClient\<close>, promise of their
  write operation: it sends everything and stays connected, or it sends a prefix and
  disconnects. A sequence of writes that ends at the first failure then sends a prefix of all
  the data, without gaps.
\<close>

fun write_all :: "('c \<Rightarrow> bytes \<Rightarrow> 'c \<times> bool) \<Rightarrow> 'c \<Rightarrow> bytes list \<Rightarrow> 'c \<times> bool" where
  "write_all w c [] = (c, True)"
| "write_all w c (bs # bss) = (let (c1, ok) = w c bs in if ok then write_all w c1 bss else (c1, False))"

locale byte_sink =
  fixes sent :: "'c \<Rightarrow> bytes"
    and connected :: "'c \<Rightarrow> bool"
    and put :: "'c \<Rightarrow> bytes \<Rightarrow> 'c \<times> bool"
  assumes complete: "connected c \<Longrightarrow> put c bs = (c', True) \<Longrightarrow> connected c' \<and> sent c' = sent c @ bs"
    and broken: "connected c \<Longrightarrow> bs \<noteq> [] \<Longrightarrow> put c bs = (c', False) \<Longrightarrow>
      \<not> connected c' \<and> (\<exists>n \<le> length bs. sent c' = sent c @ take n bs)"
    and unconnected: "\<not> connected c \<Longrightarrow> put c bs = (c, False)"
begin

lemma write_all_prefix:
  "connected c \<Longrightarrow> \<forall>bs \<in> set bss. bs \<noteq> [] \<Longrightarrow> write_all put c bss = (c', ok) \<Longrightarrow>
   connected c' = ok \<and>
   (\<exists>n \<le> length (concat bss). sent c' = sent c @ take n (concat bss) \<and> (ok \<longrightarrow> n = length (concat bss)))"
proof (induction bss arbitrary: c)
  case (Cons bs bss)
  obtain c1 ok1 where w: "put c bs = (c1, ok1)" by force
  show ?case
  proof (cases ok1)
    case True
    then have c1: "connected c1" "sent c1 = sent c @ bs" using complete Cons.prems(1) w by auto
    obtain n where n: "n \<le> length (concat bss)" "sent c' = sent c1 @ take n (concat bss)" "ok \<longrightarrow> n = length (concat bss)"
      and ok: "connected c' = ok"
      using Cons.IH[OF c1(1)] Cons.prems True w by auto
    have "sent c' = sent c @ take (length bs + n) (concat (bs # bss))" using n(2) c1(2) by simp
    then show ?thesis using n ok by (intro conjI exI[of _ "length bs + n"]) auto
  next
    case False
    then have fail: "put c bs = (c1, False)" and ne: "bs \<noteq> []" using w Cons.prems(2) by simp_all
    obtain n where "n \<le> length bs" "sent c1 = sent c @ take n bs" "\<not> connected c1"
      using broken[OF Cons.prems(1) ne fail] by blast
    then show ?thesis using False Cons.prems(3) w by (intro conjI exI[of _ n]) auto
  qed
qed simp

lemma write_all_stops: "\<not> connected c \<Longrightarrow> bss \<noteq> [] \<Longrightarrow> write_all put c bss = (c, False)"
  by (cases bss) (simp_all add: unconnected)

end

interpretation conn_sink: byte_sink "\<lambda>c. sock_out (conn_socket c)" is_connected conn_write
proof unfold_locales
  fix c c' bs
  show "is_connected c' \<and> sock_out (conn_socket c') = sock_out (conn_socket c) @ bs"
    if "is_connected c" "conn_write c bs = (c', True)"
    using write_loop_facts[OF that(1), of bs c' True] that by (auto simp: conn_write_def split: if_splits)
  show "\<not> is_connected c' \<and> (\<exists>n \<le> length bs. sock_out (conn_socket c') = sock_out (conn_socket c) @ take n bs)"
    if "is_connected c" "bs \<noteq> []" "conn_write c bs = (c', False)"
    using write_loop_facts[OF that(1), of bs c' False] that by (auto simp: conn_write_def)
  show "conn_write c bs = (c, False)" if "\<not> is_connected c" using that by (simp add: conn_write_def)
qed

section \<open>Properties\<close>

text \<open>
  \<^verbatim>\<open>ClientConnection::write\<close> sends all of the data, however the system splits it, and
  returns true, or it sent a prefix, closed the connection and returns false; it never touches
  what is still to be read from the peer.
\<close>

theorem write_all_or_close:
  assumes "is_connected c" "bs \<noteq> []" "conn_write c bs = (c', ok)"
  shows "if ok
    then is_connected c' \<and> sock_out (conn_socket c') = sock_out (conn_socket c) @ bs \<and>
      read_buffer c' = read_buffer c \<and> sock_in (conn_socket c') = sock_in (conn_socket c)
    else \<not> is_connected c' \<and> (\<exists>n \<le> length bs. sock_out (conn_socket c') = sock_out (conn_socket c) @ take n bs)"
  using write_loop_facts[OF assms(1), of bs c' ok] assms by (auto simp: conn_write_def split: if_splits)

definition test_connection :: connection where
  "test_connection = conn_new \<lparr>sock_fd = 4, sock_in = [Data [1, 2]], sock_plan = [Sent 1, Sent 0], sock_out = []\<rparr>"

lemma test_connection_connected: "is_connected test_connection"
  by (simp add: test_connection_def conn_new_def is_connected_def)

theorem write_all_or_close_witness:
  "sock_out (conn_socket (fst (conn_write test_connection [7, 8]))) = [7, 8]"
proof -
  have "snd (conn_write test_connection [7, 8])" by code_simp
  moreover have "sock_out (conn_socket test_connection) = []" by (simp add: test_connection_def conn_new_def)
  ultimately show ?thesis
    using write_all_or_close[OF test_connection_connected _ surjective_pairing, of "[7, 8]"] by simp
qed

text \<open>
  The read buffer of a connection never exceeds 1 MiB: a read either appends what arrived, at
  most 4096 bytes, or, when that would exceed the limit or the peer has closed, closes the
  connection and empties the buffer.
\<close>

theorem read_buffer_bounded:
  assumes "length (read_buffer c) \<le> MAX_BUFFER_SIZE" "conn_read c = (c', n)"
  shows "length (read_buffer c') \<le> MAX_BUFFER_SIZE \<and>
    (0 < n \<longrightarrow> (\<exists>bs. read_buffer c' = read_buffer c @ bs \<and> n = int (length bs) \<and> length bs \<le> READ_BUFFER_SIZE)) \<and>
    (n = 0 \<longrightarrow> \<not> is_connected c')"
  using assms
  by (auto simp: conn_read_def conn_close_def socket_close_def socket_recv_def is_connected_def Let_def
      split: if_splits prod.splits list.splits recv_event.splits)

theorem read_buffer_bounded_witness:
  "length (read_buffer (fst (conn_read test_connection))) \<le> MAX_BUFFER_SIZE"
  using read_buffer_bounded[OF _ surjective_pairing, of test_connection]
  by (simp add: test_connection_def conn_new_def)

end
