(* ===== verification/Command_Handler.thy ===== *)
theory Command_Handler
  imports Kv_Store Connection
begin

text \<open>
  \<^verbatim>\<open>CommandHandler\<close> of \<^verbatim>\<open>src/src/server/command_handler.{hpp,cpp}\<close> and the serving loops
  of \<^verbatim>\<open>TcpServer\<close> (\<^verbatim>\<open>src/src/network/tcp_server.cpp\<close>): bytes of a client are fed to the
  parser, every message is executed against the store and its reply written back. The server
  makes one handler, with one parser, for all connections
  (\<^verbatim>\<open>make_command_handler\<close>). The loops are partial functions: \<open>None\<close> would be a loop that
  does not return, and \<open>Crashed\<close> is an out-of-bounds read in the parser. Exceptions of
  the store and log messages are not modelled.
\<close>

section \<open>The handler\<close>

record handler =
  h_store :: kv_store
  h_parser :: bytes
  connections_handled :: nat
  requests_processed :: nat
  errors_encountered :: nat

definition handler_new :: "kv_store \<Rightarrow> handler" where
  "handler_new s = \<lparr>h_store = s, h_parser = [], connections_handled = 0, requests_processed = 0,
                    errors_encountered = 0\<rparr>"

datatype 'a run = Finished 'a | Crashed

definition send_response :: "handler \<Rightarrow> connection \<Rightarrow> message \<Rightarrow> handler \<times> connection \<times> bool" where
  "send_response h c response =
     (let (con1, success) = conn_write c (serialize response)
      in (if success then h else h\<lparr>errors_encountered := errors_encountered h + 1\<rparr>, con1, success))"

definition process_request :: "handler \<Rightarrow> connection \<Rightarrow> message \<Rightarrow> handler \<times> connection \<times> bool" where
  "process_request h c request =
     (let h1 = h\<lparr>requests_processed := requests_processed h + 1\<rparr>;
          (s, response) = execute_command (h_store h1) (Some request)
      in send_response (h1\<lparr>h_store := s\<rparr>) c response)"

text \<open>
  The loop over the messages of the parser: the handler, the connection, whether the connection
  is still good and the number of messages processed.
\<close>

partial_function (option) message_loop ::
  "handler \<Rightarrow> connection \<Rightarrow> nat \<Rightarrow> (handler \<times> connection \<times> bool \<times> nat) run option" where
  "message_loop h c processed =
     (if has_message (h_parser h) then
        case parse_message (h_parser h) of
          (Crash, buffer) \<Rightarrow> Some Crashed
        | (Nullptr, buffer) \<Rightarrow>
            Some (Finished (h\<lparr>h_parser := buffer, errors_encountered := errors_encountered h + 1\<rparr>, c, True, processed))
        | (Parsed request, buffer) \<Rightarrow>
            (let (h1, con1, ok) = process_request (h\<lparr>h_parser := buffer\<rparr>) c request
             in if \<not> ok then Some (Finished (h1, con1, False, processed))
                else message_loop h1 con1 (processed + 1))
      else Some (Finished (h, c, True, processed)))"

definition handle_client :: "handler \<Rightarrow> connection \<Rightarrow> (handler \<times> connection \<times> bool) run option" where
  "handle_client h0 c =
     (let h = h0\<lparr>connections_handled := connections_handled h0 + 1\<rparr>
      in if read_buffer c = [] then Some (Finished (h, c, True))
         else case message_loop (h\<lparr>h_parser := feed (h_parser h) (read_buffer c)\<rparr>) c 0 of
                None \<Rightarrow> None
              | Some Crashed \<Rightarrow> Some Crashed
              | Some (Finished (h1, con1, ok, processed)) \<Rightarrow>
                  Some (Finished (h1, if processed > 0 then conn_consume con1 (length (read_buffer con1)) else con1, ok)))"

record handler_stats =
  stat_connections :: nat
  stat_requests :: nat
  stat_errors :: nat

definition handler_get_stats :: "handler \<Rightarrow> handler_stats" where
  "handler_get_stats h = \<lparr>stat_connections = connections_handled h, stat_requests = requests_processed h,
     stat_errors = errors_encountered h\<rparr>"

section \<open>The serving loops\<close>

text \<open>What \<^verbatim>\<open>make_command_handler\<close> gives the server: the same handler for every connection.\<close>

definition make_command_handler :: "handler \<Rightarrow> connection \<Rightarrow> (handler \<times> connection \<times> bool) run option" where
  "make_command_handler h client = handle_client h client"

text \<open>\<^verbatim>\<open>TcpServer::handle_client\<close>: read and handle until the connection ends.\<close>

partial_function (option) serve_loop :: "handler \<Rightarrow> connection \<Rightarrow> (handler \<times> connection) run option" where
  "serve_loop h c =
     (if is_connected c then
        let (con1, bytes_read) = conn_read c
        in if bytes_read \<le> 0 then Some (Finished (h, conn_close con1))
           else case handle_client h con1 of
                  None \<Rightarrow> None
                | Some Crashed \<Rightarrow> Some Crashed
                | Some (Finished (h1, con2, keep)) \<Rightarrow>
                    if \<not> keep then Some (Finished (h1, conn_close con2)) else serve_loop h1 con2
      else Some (Finished (h, conn_close c)))"

text \<open>
  The connections of several clients served one after the other; the result has what was sent to each. That the accept
  loop of \<^verbatim>\<open>TcpServer::run_blocking\<close> does this with the clients that connect is shown where it is modelled.
\<close>

fun serve_clients :: "handler \<Rightarrow> socket list \<Rightarrow> (handler \<times> bytes list) run option" where
  "serve_clients h [] = Some (Finished (h, []))"
| "serve_clients h (s # ss) =
     (case serve_loop h (conn_new s) of
        None \<Rightarrow> None
      | Some Crashed \<Rightarrow> Some Crashed
      | Some (Finished (h1, c)) \<Rightarrow>
          (case serve_clients h1 ss of
             Some (Finished (h2, outs)) \<Rightarrow> Some (Finished (h2, sock_out (conn_socket c) # outs))
           | r \<Rightarrow> r))"

declare message_loop.simps [code] serve_loop.simps [code]

section \<open>The message loop returns\<close>

lemma process_request_parser [simp]: "h_parser (fst (process_request h c m)) = h_parser h"
  by (simp add: process_request_def send_response_def Let_def case_prod_beta)

lemma message_loop_returns_helper:
  "length (h_parser h) < 2 ^ 32 \<Longrightarrow> \<exists>r. message_loop h c n = Some r"
proof (induction "length (h_parser h)" arbitrary: h c n rule: less_induct)
  case less
  show ?case
  proof (cases "has_message (h_parser h)")
    case False
    then show ?thesis by (simp add: message_loop.simps[of h])
  next
    case True
    obtain r b where p: "parse_message (h_parser h) = (r, b)" by force
    show ?thesis
    proof (cases r)
      case (Parsed m)
      obtain h1 con1 ok where pr: "process_request (h\<lparr>h_parser := b\<rparr>) c m = (h1, con1, ok)" by (metis prod_cases3)
      have "h_parser h1 = b" using process_request_parser[of "h\<lparr>h_parser := b\<rparr>" c m] pr by simp
      moreover have "length b + 5 \<le> length (h_parser h)"
        using parse_message_progress[OF less.prems] p Parsed by simp
      ultimately have "\<exists>r. message_loop h1 con1 (n + 1) = Some r" using less by simp
      then show ?thesis using True p Parsed pr by (simp add: message_loop.simps[of h])
    qed (use True p in \<open>auto simp: message_loop.simps[of h]\<close>)
  qed
qed

section \<open>Pipelined requests\<close>

fun run_requests :: "kv_store \<Rightarrow> message list \<Rightarrow> kv_store \<times> message list" where
  "run_requests s [] = (s, [])"
| "run_requests s (m # ms) =
     (let (s1, reply) = execute_command s (Some m); (s2, replies) = run_requests s1 ms in (s2, reply # replies))"

text \<open>Sending on a socket that takes everything.\<close>

definition sent_more :: "connection \<Rightarrow> bytes \<Rightarrow> connection" where
  "sent_more c bs = c\<lparr>conn_socket := (conn_socket c)\<lparr>sock_out := sock_out (conn_socket c) @ bs\<rparr>\<rparr>"

lemma sent_more_simps [simp]:
  "is_connected (sent_more c bs) = is_connected c" "read_buffer (sent_more c bs) = read_buffer c"
  "sock_plan (conn_socket (sent_more c bs)) = sock_plan (conn_socket c)"
  "sock_in (conn_socket (sent_more c bs)) = sock_in (conn_socket c)"
  "sock_out (conn_socket (sent_more c bs)) = sock_out (conn_socket c) @ bs"
  "sent_more (sent_more c bs) bs' = sent_more c (bs @ bs')"
  by (simp_all add: sent_more_def is_connected_def)

lemma process_request_sends:
  assumes "is_connected c" "sock_plan (conn_socket c) = []" "execute_command (h_store h) (Some m) = (s, reply)"
  shows "process_request h c m =
    (h\<lparr>requests_processed := requests_processed h + 1, h_store := s\<rparr>, sent_more c (serialize reply), True)"
  using assms by (simp add: process_request_def send_response_def conn_write_def write_loop_no_plan sent_more_def)

lemma message_loop_pipeline:
  assumes "is_connected c" "sock_plan (conn_socket c) = []"
  shows "h_parser h = concat (map serialize ms) \<Longrightarrow> \<forall>m \<in> set ms. msg_ok m \<Longrightarrow>
    message_loop h c n = Some (Finished
      (h\<lparr>h_store := fst (run_requests (h_store h) ms), h_parser := [],
         requests_processed := requests_processed h + length ms\<rparr>,
       sent_more c (concat (map serialize (snd (run_requests (h_store h) ms)))), True, n + length ms))"
  using assms
proof (induction ms arbitrary: h c n)
  case Nil
  then show ?case by (simp add: message_loop.simps[of h] has_message_def sent_more_def)
next
  case (Cons m ms)
  obtain s reply where ex: "execute_command (h_store h) (Some m) = (s, reply)" by force
  have buf: "h_parser h = serialize m @ concat (map serialize ms)" using Cons.prems(1) by simp
  have has: "has_message (h_parser h)" using has_message_serialize Cons.prems(2) buf by simp
  have parse: "parse_message (h_parser h) = (Parsed m, concat (map serialize ms))"
    using parse_serialize(1)[of m] Cons.prems(2) buf by simp
  let ?h1 = "h\<lparr>h_parser := concat (map serialize ms), requests_processed := requests_processed h + 1, h_store := s\<rparr>"
  have "process_request (h\<lparr>h_parser := concat (map serialize ms)\<rparr>) c m = (?h1, sent_more c (serialize reply), True)"
    using process_request_sends[OF Cons.prems(3,4), of "h\<lparr>h_parser := concat (map serialize ms)\<rparr>" m s reply] ex by simp
  then have "message_loop h c n = message_loop ?h1 (sent_more c (serialize reply)) (n + 1)"
    using has parse by (simp add: message_loop.simps[of h])
  then show ?case using Cons.IH[of ?h1 "sent_more c (serialize reply)" "n + 1"] Cons.prems ex
    by (simp add: case_prod_beta)
qed

lemma handle_client_pipeline:
  assumes "is_connected c" "sock_plan (conn_socket c) = []" "h_parser h = []"
    and "read_buffer c = concat (map serialize ms)" "\<forall>m \<in> set ms. msg_ok m"
  shows "handle_client h c = Some (Finished
      (h\<lparr>connections_handled := connections_handled h + 1, h_store := fst (run_requests (h_store h) ms),
         requests_processed := requests_processed h + length ms\<rparr>,
       (sent_more c (concat (map serialize (snd (run_requests (h_store h) ms)))))\<lparr>read_buffer := []\<rparr>, True))"
proof (cases ms)
  case Nil
  then show ?thesis using assms by (simp add: handle_client_def Let_def sent_more_def)
next
  case (Cons m ms')
  then have ne: "read_buffer c \<noteq> []" using assms(4) by simp
  let ?h = "h\<lparr>connections_handled := connections_handled h + 1\<rparr>"
  have "message_loop (?h\<lparr>h_parser := feed (h_parser ?h) (read_buffer c)\<rparr>) c 0 = Some (Finished
      (?h\<lparr>h_store := fst (run_requests (h_store h) ms), h_parser := [],
          requests_processed := requests_processed h + length ms\<rparr>,
       sent_more c (concat (map serialize (snd (run_requests (h_store h) ms)))), True, length ms))"
    using message_loop_pipeline[OF assms(1,2), of "?h\<lparr>h_parser := feed (h_parser ?h) (read_buffer c)\<rparr>" ms 0] assms
    by (simp add: feed_def)
  then show ?thesis using ne Cons assms(3) by (simp add: handle_client_def Let_def conn_consume_def)
qed

lemma process_request_writes:
  assumes "execute_command (h_store h) (Some m) = (s, reply)" "process_request h c m = (h1, con1, ok)"
  shows "conn_write c (serialize reply) = (con1, ok)" "h_store h1 = s" "h_parser h1 = h_parser h"
  using assms by (auto simp: process_request_def send_response_def Let_def split: prod.splits if_splits)

lemma message_loop_writes:
  assumes "is_connected c"
  shows "h_parser h = concat (map serialize ms) \<Longrightarrow> \<forall>m \<in> set ms. msg_ok m \<Longrightarrow>
    \<exists>h' c' ok k. message_loop h c n = Some (Finished (h', c', ok, k)) \<and>
      write_all conn_write c (map serialize (snd (run_requests (h_store h) ms))) = (c', ok) \<and>
      (ok \<longrightarrow> h_store h' = fst (run_requests (h_store h) ms))"
  using assms
proof (induction ms arbitrary: h c n)
  case Nil
  then show ?case by (auto simp: message_loop.simps[of h] has_message_def)
next
  case (Cons m ms)
  obtain s reply where ex: "execute_command (h_store h) (Some m) = (s, reply)" by force
  have buf: "h_parser h = serialize m @ concat (map serialize ms)" using Cons.prems(1) by simp
  have has: "has_message (h_parser h)" using has_message_serialize Cons.prems(2) buf by simp
  have parse: "parse_message (h_parser h) = (Parsed m, concat (map serialize ms))"
    using parse_serialize(1)[of m] Cons.prems(2) buf by simp
  obtain h1 con1 ok where pr: "process_request (h\<lparr>h_parser := concat (map serialize ms)\<rparr>) c m = (h1, con1, ok)"
    by (metis prod_cases3)
  have w: "conn_write c (serialize reply) = (con1, ok)" "h_store h1 = s" "h_parser h1 = concat (map serialize ms)"
    using process_request_writes[OF _ pr] ex by auto
  show ?case
  proof (cases ok)
    case True
    then have "is_connected con1" using conn_sink.complete[OF Cons.prems(3), of "serialize reply" con1] w(1) by simp
    with Cons.IH[OF w(3) _ this] Cons.prems(2) show ?thesis
      using has parse pr True w ex by (fastforce simp: message_loop.simps[of h] case_prod_beta)
  next
    case False
    then show ?thesis using has parse pr w ex by (auto simp: message_loop.simps[of h] case_prod_beta)
  qed
qed

section \<open>A parser that is blocked\<close>

definition blocked :: "bytes \<Rightarrow> bool" where
  "blocked b = (\<exists>len rest. len \<noteq> 8 \<and> b = type_byte INTEGER # le_bytes32 len @ rest)"

lemma blocked_feed: "blocked b \<Longrightarrow> blocked (feed b bs)"
  by (auto simp: blocked_def feed_def)

lemma blocked_parse: "blocked b \<Longrightarrow> parse_message b = (Nullptr, b)"
  by (auto simp: blocked_def parse_steps parse_integer_def)

lemma message_loop_blocked:
  "blocked (h_parser h) \<Longrightarrow> \<exists>e. message_loop h c n = Some (Finished (h\<lparr>errors_encountered := e\<rparr>, c, True, n))"
  by (auto simp: message_loop.simps[of h] blocked_parse intro: exI[of _ "errors_encountered h"])

lemma handle_client_blocked:
  assumes "blocked (h_parser h)"
  shows "\<exists>h'. handle_client h c = Some (Finished (h', c, True)) \<and> blocked (h_parser h') \<and> h_store h' = h_store h"
proof (cases "read_buffer c = []")
  case True
  then show ?thesis using assms by (simp add: handle_client_def Let_def)
next
  case False
  let ?h = "h\<lparr>connections_handled := connections_handled h + 1, h_parser := feed (h_parser h) (read_buffer c)\<rparr>"
  have "blocked (h_parser ?h)" using blocked_feed[OF assms] by simp
  then show ?thesis using False message_loop_blocked[of ?h c 0] by (auto simp: handle_client_def Let_def)
qed

lemma conn_read_pending:
  "conn_read c = (con1, n) \<Longrightarrow> 0 < n \<Longrightarrow>
   pending (conn_socket con1) < pending (conn_socket c) \<and> sock_out (conn_socket con1) = sock_out (conn_socket c)"
  by (auto simp: conn_read_def conn_close_def socket_recv_def pending_def READ_BUFFER_SIZE_def Let_def
      split: if_splits prod.splits list.splits recv_event.splits)

lemma conn_close_out [simp]: "sock_out (conn_socket (conn_close c)) = sock_out (conn_socket c)"
  by (simp add: conn_close_def socket_close_def)

lemma conn_read_out: "conn_read c = (con1, n) \<Longrightarrow> sock_out (conn_socket con1) = sock_out (conn_socket c)"
  by (auto simp: conn_read_def socket_recv_def Let_def
      split: if_splits prod.splits list.splits recv_event.splits)

lemma serve_loop_blocked:
  "blocked (h_parser h) \<Longrightarrow> \<exists>h' c'. serve_loop h c = Some (Finished (h', c')) \<and> blocked (h_parser h') \<and>
     h_store h' = h_store h \<and> sock_out (conn_socket c') = sock_out (conn_socket c)"
proof (induction "pending (conn_socket c)" arbitrary: h c rule: less_induct)
  case less
  obtain con1 n where read: "conn_read c = (con1, n)" by force
  show ?case
  proof (cases "is_connected c \<and> 0 < n")
    case True
    obtain h1 where h1: "handle_client h con1 = Some (Finished (h1, con1, True))" "blocked (h_parser h1)"
        "h_store h1 = h_store h"
      using handle_client_blocked[OF less.prems] by blast
    have "\<exists>h' c'. serve_loop h1 con1 = Some (Finished (h', c')) \<and> blocked (h_parser h') \<and>
        h_store h' = h_store h1 \<and> sock_out (conn_socket c') = sock_out (conn_socket con1)"
      using less.hyps[OF _ h1(2)] conn_read_pending[OF read] True by blast
    then show ?thesis using True read h1 conn_read_out[OF read] by (simp add: serve_loop.simps[of h])
  next
    case False
    then show ?thesis using read conn_read_out[OF read] less.prems
      by (auto simp: serve_loop.simps[of h])
  qed
qed

section \<open>Properties\<close>

text \<open>
  C35: \<^verbatim>\<open>CommandHandler::handle_client\<close> returns, or crashes, for every content of the buffers
  below 4 GiB: the loop over messages ends.
\<close>

theorem handle_client_returns:
  assumes "length (h_parser h) + length (read_buffer c) < 2 ^ 32"
  shows "\<exists>r. handle_client h c = Some r"
proof -
  obtain r where "message_loop (h\<lparr>connections_handled := connections_handled h + 1,
      h_parser := feed (h_parser h) (read_buffer c)\<rparr>) c 0 = Some r"
    using message_loop_returns_helper[of "h\<lparr>connections_handled := connections_handled h + 1,
        h_parser := feed (h_parser h) (read_buffer c)\<rparr>" c 0] assms by (auto simp: feed_def)
  then show ?thesis by (cases r) (auto simp: handle_client_def Let_def)
qed

text \<open>
  Requests that arrive complete are all answered, in order: when the parser is empty and the
  client's buffer holds any number of well-formed request messages, one call executes them one
  after the other, sends exactly the serialised replies, and leaves both buffers empty.
\<close>

theorem pipelined_requests_answered:
  assumes "is_connected c" "sock_plan (conn_socket c) = []" "h_parser h = []"
    and "read_buffer c = serialize_messages (map Some ms)" "\<forall>m \<in> set ms. msg_ok m"
    and "run_requests (h_store h) ms = (s', replies)"
  shows "\<exists>h' c'. handle_client h c = Some (Finished (h', c', True)) \<and>
    h_store h' = s' \<and> h_parser h' = [] \<and> requests_processed h' = requests_processed h + length ms \<and>
    errors_encountered h' = errors_encountered h \<and> read_buffer c' = [] \<and> is_connected c' \<and>
    sock_out (conn_socket c') = sock_out (conn_socket c) @ serialize_messages (map Some replies)"
proof -
  have ser: "serialize_messages (map Some xs) = concat (map serialize xs)" for xs by (induction xs) auto
  show ?thesis
    using handle_client_pipeline[OF assms(1-3) assms(4)[unfolded ser] assms(5)] assms(1,3,6)
    by (auto simp: ser is_connected_def sent_more_def)
qed

text \<open>
  C38: One malformed message disables the server for everybody: once the parser that all
  connections share holds an integer message whose length field is not 8, no later client, whatever
  it sends, receives a single byte, and the store never changes again.
\<close>

theorem blocked_parser_silences_server:
  assumes "blocked (h_parser h)"
  shows "\<exists>h'. serve_clients h clients = Some (Finished (h', map sock_out clients)) \<and>
    blocked (h_parser h') \<and> h_store h' = h_store h"
  using assms
proof (induction clients arbitrary: h)
  case Nil
  then show ?case by simp
next
  case (Cons s ss)
  obtain h1 c1' where h1: "serve_loop h (conn_new s) = Some (Finished (h1, c1'))" "blocked (h_parser h1)"
      "h_store h1 = h_store h" "sock_out (conn_socket c1') = sock_out s"
    using serve_loop_blocked[OF Cons.prems, of "conn_new s"] by (auto simp: conn_new_def)
  then show ?case using Cons.IH[OF h1(2)] by auto
qed

text \<open>Sockets on which the client sends the given segments and then closes.\<close>

definition client_socket :: "bytes list \<Rightarrow> socket" where
  "client_socket segments = \<lparr>sock_fd = 4, sock_in = map Data segments, sock_plan = [], sock_out = []\<rparr>"

definition fresh_handler :: handler where
  "fresh_handler = handler_new (kv_new default_table)"

lemma read_segment:
  assumes "is_connected c" "sock_in (conn_socket c) = Data bs # later" "bs \<noteq> []" "length bs \<le> 4096"
    and "length (read_buffer c) + length bs \<le> MAX_BUFFER_SIZE"
  shows "conn_read c = (c\<lparr>conn_socket := (conn_socket c)\<lparr>sock_in := later\<rparr>, read_buffer := read_buffer c @ bs\<rparr>,
    int (length bs))"
  using assms by (simp add: conn_read_def socket_recv_def is_connected_def READ_BUFFER_SIZE_def Let_def)

lemma read_end:
  "is_connected c \<Longrightarrow> sock_in (conn_socket c) = [] \<Longrightarrow> conn_read c = (conn_close c, 0)"
  by (simp add: conn_read_def socket_recv_def is_connected_def Let_def)

lemma serve_loop_step:
  "is_connected c \<Longrightarrow> conn_read c = (con1, n) \<Longrightarrow> 0 < n \<Longrightarrow> handle_client h con1 = Some (Finished (h1, con2, True)) \<Longrightarrow>
   serve_loop h c = serve_loop h1 con2"
  by (simp add: serve_loop.simps[of h c])

lemma serve_loop_end:
  "is_connected c \<Longrightarrow> sock_in (conn_socket c) = [] \<Longrightarrow> serve_loop h c = Some (Finished (h, conn_close c))"
  by (simp add: serve_loop.simps[of h c] read_end) (simp add: conn_close_def)

lemma run_requests_append:
  "run_requests s (ms @ ns) =
     (let (s1, rs) = run_requests s ms; (s2, rs2) = run_requests s1 ns in (s2, rs @ rs2))"
  by (induction ms arbitrary: s) (simp_all add: case_prod_beta)

text \<open>A client that sends complete requests, several to a segment, and closes.\<close>

lemma serve_segments:
  assumes "\<forall>ms \<in> set mss. ms \<noteq> [] \<and> (\<forall>m \<in> set ms. msg_ok m) \<and> length (concat (map serialize ms)) \<le> 4096"
  shows "h_parser h = [] \<Longrightarrow> is_connected c \<Longrightarrow> read_buffer c = [] \<Longrightarrow> sock_plan (conn_socket c) = [] \<Longrightarrow>
    sock_in (conn_socket c) = map (\<lambda>ms. Data (concat (map serialize ms))) mss \<Longrightarrow>
    \<exists>h' c'. serve_loop h c = Some (Finished (h', c')) \<and> h_parser h' = [] \<and>
      h_store h' = fst (run_requests (h_store h) (concat mss)) \<and>
      sock_out (conn_socket c') = sock_out (conn_socket c) @ concat (map serialize (snd (run_requests (h_store h) (concat mss)))) \<and>
      connections_handled h' = connections_handled h + length mss \<and> errors_encountered h' = errors_encountered h \<and>
      requests_processed h' = requests_processed h + length (concat mss)"
  using assms
proof (induction mss arbitrary: h c)
  case Nil
  then show ?case by (simp add: serve_loop_end conn_close_def socket_close_def)
next
  case (Cons ms mss)
  let ?bs = "concat (map serialize ms)"
  let ?later = "map (\<lambda>ms. Data (concat (map serialize ms))) mss"
  let ?con1 = "c\<lparr>conn_socket := (conn_socket c)\<lparr>sock_in := ?later\<rparr>, read_buffer := ?bs\<rparr>"
  obtain s1 rs where run: "run_requests (h_store h) ms = (s1, rs)" by force
  have ok: "ms \<noteq> []" "\<forall>m \<in> set ms. msg_ok m" "length ?bs \<le> 4096" "?bs \<noteq> []" using Cons.prems(6) by (auto split: list.splits)
  have read: "conn_read c = (?con1, int (length ?bs))"
    using read_segment[OF Cons.prems(2), of ?bs ?later] Cons.prems(3,5) ok by (simp add: MAX_BUFFER_SIZE_def)
  let ?h1 = "h\<lparr>connections_handled := connections_handled h + 1, h_store := s1,
      requests_processed := requests_processed h + length ms\<rparr>"
  let ?con2 = "(sent_more ?con1 (concat (map serialize rs)))\<lparr>read_buffer := []\<rparr>"
  have con1: "is_connected ?con1" using Cons.prems(2) by (simp add: is_connected_def)
  have "handle_client h ?con1 = Some (Finished (?h1, ?con2, True))"
    using handle_client_pipeline[OF con1 _ Cons.prems(1), of ms] Cons.prems(4) ok(2) run by simp
  moreover have "0 < int (length ?bs)" using ok(4) by (simp only: of_nat_0_less_iff length_greater_0_conv simp_thms)
  ultimately have "serve_loop h c = serve_loop ?h1 ?con2" using serve_loop_step[OF Cons.prems(2) read] by blast
  moreover have "is_connected ?con2" using Cons.prems(2) by (simp add: is_connected_def sent_more_def)
  ultimately show ?case using Cons.IH[of ?h1 ?con2] Cons.prems run
    by (simp add: run_requests_append case_prod_beta sent_more_def add.assoc)
qed

lemma serve_one_segment:
  assumes "h_parser h = []" "\<forall>m \<in> set ms. msg_ok m" "length (concat (map serialize ms)) \<le> 4096" "ms \<noteq> []"
  defines "c \<equiv> conn_new (client_socket [concat (map serialize ms)])"
  shows "\<exists>h' c'. serve_loop h c = Some (Finished (h', c')) \<and> h_parser h' = [] \<and>
    h_store h' = fst (run_requests (h_store h) ms) \<and>
    sock_out (conn_socket c') = concat (map serialize (snd (run_requests (h_store h) ms)))"
  using serve_segments[of "[ms]" h c] assms by (auto simp: c_def conn_new_def client_socket_def is_connected_def)

text \<open>Several such clients, one after the other.\<close>

fun run_clients :: "kv_store \<Rightarrow> message list list list \<Rightarrow> kv_store \<times> message list list" where
  "run_clients s [] = (s, [])"
| "run_clients s (mss # clients) =
     (let (s1, rs) = run_requests s (concat mss); (s2, rss) = run_clients s1 clients in (s2, rs # rss))"

lemma serve_clients_pipelined:
  "\<forall>mss \<in> set clients. \<forall>ms \<in> set mss. ms \<noteq> [] \<and> (\<forall>m \<in> set ms. msg_ok m) \<and> length (concat (map serialize ms)) \<le> 4096 \<Longrightarrow>
   h_parser h = [] \<Longrightarrow>
   \<exists>h'. serve_clients h (map (\<lambda>mss. client_socket (map (\<lambda>ms. concat (map serialize ms)) mss)) clients) =
       Some (Finished (h', map (\<lambda>rs. concat (map serialize rs)) (snd (run_clients (h_store h) clients)))) \<and>
     h_parser h' = [] \<and> h_store h' = fst (run_clients (h_store h) clients) \<and>
     connections_handled h' = connections_handled h + length (concat clients) \<and> errors_encountered h' = errors_encountered h \<and>
     requests_processed h' = requests_processed h + length (concat (concat clients))"
proof (induction clients arbitrary: h)
  case (Cons mss clients)
  let ?c = "conn_new (client_socket (map (\<lambda>ms. concat (map serialize ms)) mss))"
  obtain h1 c1 where h1: "serve_loop h ?c = Some (Finished (h1, c1))" "h_parser h1 = []"
    "h_store h1 = fst (run_requests (h_store h) (concat mss))"
    "sock_out (conn_socket c1) = concat (map serialize (snd (run_requests (h_store h) (concat mss))))"
    "connections_handled h1 = connections_handled h + length mss" "errors_encountered h1 = errors_encountered h"
    "requests_processed h1 = requests_processed h + length (concat mss)"
    using serve_segments[of mss h ?c] Cons.prems
    by (auto simp: conn_new_def client_socket_def is_connected_def comp_def)
  then show ?case using Cons.IH[of h1] Cons.prems by (auto simp: case_prod_beta)
qed simp

definition ping_bytes :: bytes where
  "ping_bytes = [5, 1, 0, 0, 0, 4, 4, 0, 0, 0, 80, 73, 78, 71]"

lemma ping_bytes: "serialize (make_command [''PING'']) = ping_bytes"
  by code_simp

lemma ping_answered:
  "\<exists>h'. serve_clients fresh_handler [client_socket [serialize (make_command [''PING''])]] =
     Some (Finished (h', [serialize pong_response]))"
proof -
  have ok: "msg_ok (make_command [''PING''])" by (rule make_command_ok) simp_all
  have reply: "snd (run_requests (kv_new default_table) [make_command [''PING'']]) = [pong_response]"
    by code_simp
  have len: "length (concat (map serialize [make_command [''PING'']])) \<le> 4096"
    by (simp add: ping_bytes) (simp add: ping_bytes_def)
  show ?thesis
    using serve_one_segment[of fresh_handler "[make_command [''PING'']]"] ok reply len
    by (auto simp: fresh_handler_def handler_new_def simp del: serialize.simps)
qed

lemma split_ping_unanswered:
  "\<exists>h'. serve_clients fresh_handler [client_socket [take 1 (serialize (make_command [''PING''])),
     drop 1 (serialize (make_command [''PING'']))]] = Some (Finished (h', [[]]))"
proof -
  let ?c0 = "conn_new (client_socket [take 1 ping_bytes, drop 1 ping_bytes])"
  let ?c1 = "?c0\<lparr>conn_socket := client_socket [drop 1 ping_bytes], read_buffer := take 1 ping_bytes\<rparr>"
  let ?c2 = "?c0\<lparr>conn_socket := client_socket [], read_buffer := ping_bytes\<rparr>"
  let ?h1 = "fresh_handler\<lparr>connections_handled := 1, h_parser := take 1 ping_bytes\<rparr>"
  let ?h2 = "fresh_handler\<lparr>connections_handled := 2, h_parser := [], errors_encountered := 1\<rparr>"
  have garbled: "parse_message (take 1 ping_bytes @ ping_bytes) = (Nullptr, [])"
    by (simp add: ping_bytes_def parse_message.simps parse_elems.simps read_header_def has_bytes_def
        read_length_def consume_bytes_def)
  have r1: "conn_read ?c0 = (?c1, 1)" and r2: "conn_read ?c1 = (?c2, 13)"
    by (simp_all add: conn_read_def socket_recv_def is_connected_def conn_new_def client_socket_def
        READ_BUFFER_SIZE_def MAX_BUFFER_SIZE_def ping_bytes_def)
  have h1: "handle_client fresh_handler ?c1 = Some (Finished (?h1, ?c1, True))"
    by (simp add: handle_client_def Let_def message_loop.simps fresh_handler_def handler_new_def
        has_message_def feed_def ping_bytes_def)
  have has: "has_message (take 1 ping_bytes @ ping_bytes)" by (simp add: has_message_def ping_bytes_def)
  have h2: "handle_client ?h1 ?c2 = Some (Finished (?h2, ?c2, True))"
    using garbled has by (simp add: handle_client_def Let_def message_loop.simps feed_def fresh_handler_def
        handler_new_def) (simp add: ping_bytes_def)
  have con: "is_connected ?c0" "is_connected ?c1" "is_connected ?c2"
    by (simp_all add: conn_new_def client_socket_def is_connected_def)
  have "serve_loop fresh_handler ?c0 = Some (Finished (?h2, conn_close ?c2))"
    using serve_loop_step[OF con(1) r1 _ h1] serve_loop_step[OF con(2) r2 _ h2] serve_loop_end[OF con(3), of ?h2]
    by (simp add: client_socket_def)
  then show ?thesis unfolding ping_bytes by (simp add: client_socket_def)
qed

text \<open>
  A command that arrives in two segments is not answered: on the first call the parser keeps
  the bytes, but they also stay in the connection's buffer, so that the second call feeds them
  again and the parser sees a garbled stream. The same command in one segment is answered with
  \<^verbatim>\<open>PONG\<close>.
\<close>

theorem split_command_unanswered:
  "let ping = serialize (make_command [''PING''])
   in (\<exists>h'. serve_clients fresh_handler [client_socket [ping]] = Some (Finished (h', [serialize pong_response]))) \<and>
      (\<exists>h'. serve_clients fresh_handler [client_socket [take 1 ping, drop 1 ping]] = Some (Finished (h', [[]])))"
  using ping_answered split_ping_unanswered by (simp add: Let_def del: serialize.simps)

section \<open>Witnesses\<close>

definition ready_connection :: "bytes \<Rightarrow> connection" where
  "ready_connection b = (conn_new (client_socket []))\<lparr>read_buffer := b\<rparr>"

theorem handle_client_returns_witness: "\<exists>r. handle_client fresh_handler (ready_connection [1, 2]) = Some r"
  by (rule handle_client_returns) (simp add: fresh_handler_def handler_new_def ready_connection_def)

theorem pipelined_requests_answered_witness:
  "\<exists>h' c'. handle_client fresh_handler (ready_connection (serialize_messages (map Some [make_command [''PING'']]))) =
      Some (Finished (h', c', True)) \<and> read_buffer c' = []"
proof -
  have "msg_ok (make_command [''PING''])" by (rule make_command_ok) simp_all
  then show ?thesis
    using pipelined_requests_answered[OF _ _ _ _ _ surjective_pairing,
        of "ready_connection (serialize_messages (map Some [make_command [''PING'']]))" fresh_handler "[make_command [''PING'']]"]
    by (auto simp: ready_connection_def client_socket_def conn_new_def is_connected_def fresh_handler_def handler_new_def)
qed

theorem blocked_parser_silences_server_witness:
  "\<exists>h'. serve_clients (fresh_handler\<lparr>h_parser := [3, 0, 0, 0, 0]\<rparr>)
      [client_socket [serialize (make_command [''PING''])]] = Some (Finished (h', [[]]))"
proof -
  have "blocked (h_parser (fresh_handler\<lparr>h_parser := [3, 0, 0, 0, 0]\<rparr>))"
    by (auto simp: blocked_def le_bytes32_def intro!: exI[of _ 0])
  then show ?thesis
    using blocked_parser_silences_server[of "fresh_handler\<lparr>h_parser := [3, 0, 0, 0, 0]\<rparr>"
        "[client_socket [serialize (make_command [''PING''])]]"] by (auto simp: client_socket_def)
qed

text \<open>
  C31: Whatever the network does with the replies, the client sees no gap and no other bytes: the
  bytes sent for requests that arrived complete are a prefix of the serialised replies in order;
  all of them when the connection stays good, and otherwise the connection is closed.
\<close>

theorem replies_sent_without_gap:
  assumes "is_connected c" "h_parser h = []" "read_buffer c = serialize_messages (map Some ms)"
    and "\<forall>m \<in> set ms. msg_ok m" "run_requests (h_store h) ms = (s', replies)"
  shows "\<exists>h' c' ok n. handle_client h c = Some (Finished (h', c', ok)) \<and> is_connected c' = ok \<and>
    sock_out (conn_socket c') = sock_out (conn_socket c) @ take n (serialize_messages (map Some replies)) \<and>
    (ok \<longrightarrow> h_store h' = s' \<and> n = length (serialize_messages (map Some replies)))"
proof (cases ms)
  case Nil
  then show ?thesis using assms by (auto simp: handle_client_def Let_def)
next
  case (Cons m ms')
  let ?h = "h\<lparr>connections_handled := connections_handled h + 1, h_parser := feed (h_parser h) (read_buffer c)\<rparr>"
  have ser: "serialize_messages (map Some xs) = concat (map serialize xs)" for xs by (induction xs) auto
  have ne: "read_buffer c \<noteq> []" using Cons assms(3) by (simp add: ser)
  obtain h1 con1 ok k where loop: "message_loop ?h c 0 = Some (Finished (h1, con1, ok, k))"
    "write_all conn_write c (map serialize replies) = (con1, ok)" "ok \<longrightarrow> h_store h1 = s'"
    using message_loop_writes[OF assms(1), of ?h ms 0] assms by (auto simp: feed_def ser)
  obtain n where "is_connected con1 = ok" "sock_out (conn_socket con1) = sock_out (conn_socket c) @ take n (concat (map serialize replies))"
    "ok \<longrightarrow> n = length (concat (map serialize replies))"
    using conn_sink.write_all_prefix[OF assms(1) _ loop(2)] by auto
  then show ?thesis using loop ne
    by (auto simp: handle_client_def Let_def conn_consume_def is_connected_def ser intro!: exI[of _ n])
qed

theorem replies_sent_without_gap_witness:
  "\<exists>h' c' ok n. handle_client fresh_handler (ready_connection (serialize (make_command [''PING'']))) =
      Some (Finished (h', c', ok)) \<and> is_connected c' = ok \<and>
    sock_out (conn_socket c') = take n (serialize_messages (map Some (snd (run_requests (h_store fresh_handler) [make_command [''PING'']]))))"
proof -
  have "msg_ok (make_command [''PING''])" by (rule make_command_ok) simp_all
  then have ok: "\<forall>m \<in> set [make_command [''PING'']]. msg_ok m" by simp
  let ?c = "ready_connection (serialize (make_command [''PING'']))"
  have c: "is_connected ?c" "h_parser fresh_handler = []" "sock_out (conn_socket ?c) = []"
    "read_buffer ?c = serialize_messages (map Some [make_command [''PING'']])"
    by (simp_all add: ready_connection_def fresh_handler_def handler_new_def client_socket_def conn_new_def is_connected_def)
  from replies_sent_without_gap[OF c(1,2,4) ok surjective_pairing] show ?thesis unfolding c(3) append_Nil by blast
qed

text \<open>
  What the statistics of the handler count: after a handler has served any number of clients that sent
  complete requests, the number of requests is right and there are no errors, but the number of
  connections is the number of segments in which the requests arrived.
\<close>

theorem statistics_count_segments:
  assumes "\<forall>mss \<in> set clients. \<forall>ms \<in> set mss. ms \<noteq> [] \<and> (\<forall>m \<in> set ms. msg_ok m) \<and> length (concat (map serialize ms)) \<le> 4096"
    and "serve_clients (handler_new s) (map (\<lambda>mss. client_socket (map (\<lambda>ms. concat (map serialize ms)) mss)) clients) = Some (Finished (h, outs))"
  shows "handler_get_stats h =
    \<lparr>stat_connections = length (concat clients), stat_requests = length (concat (concat clients)), stat_errors = 0\<rparr>"
  using serve_clients_pipelined[OF assms(1), of "handler_new s"] assms(2) by (auto simp: handler_new_def handler_get_stats_def)

theorem statistics_count_segments_witness:
  "\<exists>h outs. serve_clients fresh_handler [client_socket [ping_bytes, ping_bytes]] = Some (Finished (h, outs)) \<and>
     handler_get_stats h = \<lparr>stat_connections = 2, stat_requests = 2, stat_errors = 0\<rparr>"
proof -
  let ?m = "make_command [''PING'']"
  have ok: "\<forall>mss \<in> set [[[?m], [?m]]]. \<forall>ms \<in> set mss. ms \<noteq> [] \<and> (\<forall>m \<in> set ms. msg_ok m) \<and> length (concat (map serialize ms)) \<le> 4096"
    using make_command_ok[of "[''PING'']"] by (simp add: ping_bytes del: serialize.simps) (simp add: ping_bytes_def)
  obtain h outs where "serve_clients (handler_new (kv_new default_table))
      (map (\<lambda>mss. client_socket (map (\<lambda>ms. concat (map serialize ms)) mss)) [[[?m], [?m]]]) = Some (Finished (h, outs))"
    using serve_clients_pipelined[OF ok, of "handler_new (kv_new default_table)"] by (auto simp: handler_new_def)
  with statistics_count_segments[OF ok this] show ?thesis
    by (intro exI[of _ h] exI[of _ outs]) (simp add: fresh_handler_def ping_bytes del: serialize.simps serve_clients.simps)
qed

end
