(* ===== verification/Tcp_Server.thy ===== *)
theory Tcp_Server
  imports Command_Handler
begin

text \<open>
  The life cycle of \<^verbatim>\<open>TcpServer\<close> (\<^verbatim>\<open>src/src/network/tcp_server.{hpp,cpp}\<close>): \<^verbatim>\<open>init\<close>, the
  accept loop of \<^verbatim>\<open>run_blocking\<close> with its two flags, \<^verbatim>\<open>run_async\<close> and \<^verbatim>\<open>stop\<close>. What \<^verbatim>\<open>accept\<close>
  finds, and calls of \<^verbatim>\<open>stop\<close> by another thread or a signal handler, are a list of events; each
  client is served by \<open>serve_loop\<close>. Messages to the terminal are not modelled.
\<close>

section \<open>State and operations\<close>

record tcp_server =
  listen_socket :: socket
  srv_connections :: "connection option list"
  srv_running :: bool
  srv_stop :: bool
  srv_thread :: bool
  bind_address :: string
  srv_port :: "16 word"

definition server_new :: tcp_server where
  "server_new = \<lparr>listen_socket = socket_new, srv_connections = [], srv_running = False, srv_stop = False,
     srv_thread = False, bind_address = [], srv_port = 0\<rparr>"

text \<open>
  \<^verbatim>\<open>init\<close>: \<open>fresh\<close> is what \<^verbatim>\<open>::socket\<close> gives, \<open>pton\<close>, \<open>bind_rc\<close> and \<open>listen_rc\<close> are the
  answers of \<^verbatim>\<open>inet_pton\<close>, \<^verbatim>\<open>::bind\<close> and \<^verbatim>\<open>::listen\<close>. The result of \<^verbatim>\<open>set_reuseaddr\<close> is not
  looked at, and initialising sockets succeeds on Unix.
\<close>

definition server_init ::
  "tcp_server \<Rightarrow> string \<Rightarrow> 16 word \<Rightarrow> socket \<Rightarrow> int \<Rightarrow> int \<Rightarrow> int \<Rightarrow> tcp_server \<times> bool" where
  "server_init s address port fresh pton bind_rc listen_rc =
     (let (ls, created) = create_tcp (listen_socket s) fresh;
          s1 = s\<lparr>listen_socket := ls\<rparr>
      in if \<not> created then (s1, False)
         else if \<not> socket_bind ls pton bind_rc then (s1, False)
         else if \<not> socket_listen ls listen_rc then (s1, False)
         else (s1\<lparr>bind_address := address, srv_port := port\<rparr>, True))"

definition cleanup_connections :: "tcp_server \<Rightarrow> tcp_server" where
  "cleanup_connections s =
     s\<lparr>srv_connections := filter (\<lambda>c. case c of None \<Rightarrow> False | Some con1 \<Rightarrow> is_connected con1) (srv_connections s)\<rparr>"

text \<open>The part of \<^verbatim>\<open>stop\<close> before it waits for the thread of the server, and the part after.\<close>

definition stop_request :: "tcp_server \<Rightarrow> tcp_server" where
  "stop_request s = s\<lparr>srv_stop := True, listen_socket := socket_close (listen_socket s)\<rparr>"

definition stop_finish :: "tcp_server \<Rightarrow> tcp_server" where
  "stop_finish s = s\<lparr>srv_thread := False, srv_connections := [], srv_running := False\<rparr>"

text \<open>
  What happens to the loop, in order: a client connects; \<^verbatim>\<open>accept\<close> fails; \<^verbatim>\<open>stop\<close> is called where the loop sees it at once
  (\<open>Stop_called\<close>), by the signal handler, which interrupts an \<^verbatim>\<open>accept\<close> that then fails because the descriptor is closed, or by another
  thread while a client is served; or \<^verbatim>\<open>stop\<close> is called by another thread while the loop waits in \<^verbatim>\<open>accept\<close>
  (\<open>Stop_while_accepting\<close>). On Linux closing the descriptor does not end an \<^verbatim>\<open>accept\<close> of another thread: it goes
  on waiting and returns the next client that connects.
\<close>

datatype accept_event = Client socket | Accept_failed | Stop_called | Stop_while_accepting

text \<open>
  The accept loop at its head, and waiting in \<^verbatim>\<open>accept\<close> on the socket \<open>ls\<close> that was the listening one when the call began: the server and
  the handler, what was sent to each client, and whether the loop has ended. On an invalid socket \<^verbatim>\<open>Socket::accept\<close> returns at once.
\<close>

function (sequential) accept_loop :: "tcp_server \<Rightarrow> handler \<Rightarrow> accept_event list \<Rightarrow> (tcp_server \<times> handler \<times> bytes list \<times> bool) run option" and accept_wait :: "socket \<Rightarrow> tcp_server \<Rightarrow> handler \<Rightarrow> accept_event list \<Rightarrow> (tcp_server \<times> handler \<times> bytes list \<times> bool) run option" where
  "accept_loop s h es =
     (if \<not> (srv_running s \<and> \<not> srv_stop s) then Some (Finished (s, h, [], True))
      else accept_wait (listen_socket s) s h es)"
| "accept_wait ls s h [] = Some (Finished (s, h, [], False))"
| "accept_wait ls s h (e # es) =
     (case e of
        Stop_while_accepting \<Rightarrow>
          if sock_valid ls then accept_wait ls (stop_request s) h es else accept_loop (stop_request s) h es
      | Stop_called \<Rightarrow> accept_loop (stop_request s) h es
      | Accept_failed \<Rightarrow> accept_loop s h es
      | Client peer \<Rightarrow>
          let client_socket = socket_accept ls peer
          in if \<not> sock_valid client_socket then accept_loop s h es
             else case serve_loop h (conn_new client_socket) of
                    None \<Rightarrow> None
                  | Some Crashed \<Rightarrow> Some Crashed
                  | Some (Finished (h1, c)) \<Rightarrow>
                      (case accept_loop (cleanup_connections s) h1 es of
                         Some (Finished (s2, h2, outs, ended)) \<Rightarrow>
                           Some (Finished (s2, h2, sock_out (conn_socket c) # outs, ended))
                       | r \<Rightarrow> r))"
  by pat_completeness auto
termination
  by (relation "measure (\<lambda>x. case x of Inl (s, h, es) \<Rightarrow> 2 * length es + 1 | Inr (ls, s, h, es) \<Rightarrow> 2 * length es)") auto

text \<open>
  \<^verbatim>\<open>run_blocking\<close>; \<open>early\<close> says that another thread calls \<^verbatim>\<open>stop\<close> between the check of the listening
  socket and the assignments to the flags.
\<close>

definition server_run ::
  "tcp_server \<Rightarrow> bool \<Rightarrow> handler \<Rightarrow> accept_event list \<Rightarrow> (tcp_server \<times> handler \<times> bytes list \<times> bool) run option" where
  "server_run s early h es =
     (if \<not> sock_valid (listen_socket s) then Some (Finished (s, h, [], True))
      else let s0 = (if early then stop_request s else s)
           in case accept_loop (s0\<lparr>srv_running := True, srv_stop := False\<rparr>) h es of
                Some (Finished (s1, h1, outs, ended)) \<Rightarrow>
                  Some (Finished (if ended then s1\<lparr>srv_running := False\<rparr> else s1, h1, outs, ended))
              | r \<Rightarrow> r)"

text \<open>\<^verbatim>\<open>run_async\<close> starts a thread that does \<open>server_run\<close>.\<close>

definition run_async :: "tcp_server \<Rightarrow> tcp_server" where
  "run_async s = (if \<not> sock_valid (listen_socket s) then s else s\<lparr>srv_thread := True\<rparr>)"

text \<open>
  \<^verbatim>\<open>stop\<close>: when the server runs in a thread it waits for the end of \<open>server_run\<close>, whose result is
  the argument; \<open>None\<close> is a call that does not return.
\<close>

definition server_stop :: "tcp_server \<Rightarrow> (tcp_server \<Rightarrow> (tcp_server \<times> bool)) \<Rightarrow> tcp_server option" where
  "server_stop s thread_run =
     (let s1 = stop_request s
      in if srv_thread s1
         then (let (s2, ended) = thread_run s1 in if ended then Some (stop_finish s2) else None)
         else Some (stop_finish s1))"

text \<open>The destructor stops the server, so it waits for the thread of the server as \<^verbatim>\<open>stop\<close> does.\<close>

definition server_destroy :: "tcp_server \<Rightarrow> (tcp_server \<Rightarrow> (tcp_server \<times> bool)) \<Rightarrow> tcp_server option" where
  "server_destroy s thread_run = server_stop s thread_run"

definition get_server_info :: "tcp_server \<Rightarrow> string" where
  "get_server_info s = bind_address s @ '':'' @ show_nat (unat (srv_port s))"

definition get_connection_count :: "tcp_server \<Rightarrow> nat" where
  "get_connection_count s = length (srv_connections s)"

section \<open>The accept loop\<close>

declare accept_loop.simps [simp del]

lemma accept_loop_on: "srv_running s \<Longrightarrow> \<not> srv_stop s \<Longrightarrow> accept_loop s h es = accept_wait (listen_socket s) s h es"
  by (simp add: accept_loop.simps)

lemma stopped_loop: "srv_stop s \<Longrightarrow> accept_loop s h es = Some (Finished (s, h, [], True))"
  by (simp add: accept_loop.simps)

lemma stop_called_loop:
  "srv_running s \<Longrightarrow> \<not> srv_stop s \<Longrightarrow> accept_loop s h (Stop_called # es) = Some (Finished (stop_request s, h, [], True))"
  by (simp add: accept_loop_on stopped_loop stop_request_def)

lemma cleanup_simps [simp]:
  "srv_running (cleanup_connections s) = srv_running s" "srv_stop (cleanup_connections s) = srv_stop s"
  "listen_socket (cleanup_connections s) = listen_socket s"
  by (simp_all add: cleanup_connections_def)

lemma cleanup_none: "srv_connections s = [] \<Longrightarrow> cleanup_connections s = s"
  by (simp add: cleanup_connections_def)

lemma accept_clients:
  assumes "srv_running s" "\<not> srv_stop s" "sock_valid (listen_socket s)" "srv_connections s = []"
  shows "\<forall>p \<in> set peers. sock_valid p \<Longrightarrow>
    accept_loop s h (map Client peers @ es) =
      (case serve_clients h peers of
         Some (Finished (h', outs)) \<Rightarrow>
           (case accept_wait (listen_socket s) s h' es of
              Some (Finished (s2, h2, outs2, ended)) \<Rightarrow> Some (Finished (s2, h2, outs @ outs2, ended))
            | r \<Rightarrow> r)
       | Some Crashed \<Rightarrow> Some Crashed
       | None \<Rightarrow> None)"
proof (induction peers arbitrary: h)
  case Nil
  then show ?case using assms by (auto simp: accept_loop_on split: option.split run.split)
next
  case (Cons p peers)
  have "socket_accept (listen_socket s) p = p" using Cons.prems assms(3) by (simp add: socket_accept_def)
  then show ?case using Cons assms
    by (simp add: accept_loop_on cleanup_none Let_def split: option.split run.split prod.split)
qed

lemma init_ok_iff:
  "snd (server_init s address port fresh pton bind_rc listen_rc) \<longleftrightarrow>
     sock_valid fresh \<and> 0 < pton \<and> 0 \<le> bind_rc \<and> 0 \<le> listen_rc"
  by (auto simp: server_init_def create_tcp_def socket_bind_def socket_listen_def Let_def)

text \<open>A server after a successful \<^verbatim>\<open>init\<close>, and its loop on clients that connect one after the other.\<close>

lemma init_server:
  assumes "sock_valid fresh" "0 < pton" "0 \<le> bind_rc" "0 \<le> listen_rc"
  shows "server_init server_new address port fresh pton bind_rc listen_rc =
    (server_new\<lparr>listen_socket := fresh, bind_address := address, srv_port := port\<rparr>, True)"
  using assms by (simp add: server_init_def create_tcp_def socket_bind_def socket_listen_def Let_def)

lemma run_clients_then:
  assumes "sock_valid (listen_socket s)" "srv_connections s = []" "\<forall>p \<in> set peers. sock_valid p"
    and "serve_clients h peers = Some (Finished (h', outs))"
    and "accept_wait (listen_socket s) (s\<lparr>srv_running := True, srv_stop := False\<rparr>) h' es = Some (Finished (s2, h2, outs2, ended))"
  shows "server_run s False h (map Client peers @ es) =
    Some (Finished (if ended then s2\<lparr>srv_running := False\<rparr> else s2, h2, outs @ outs2, ended))"
  using accept_clients[of "s\<lparr>srv_running := True, srv_stop := False\<rparr>" peers h es] assms by (simp add: server_run_def Let_def)

lemma initialised_server_serves:
  assumes "sock_valid fresh" "0 < pton" "0 \<le> bind_rc" "0 \<le> listen_rc"
    and "\<forall>p \<in> set peers. sock_valid p" "serve_clients h peers = Some (Finished (h', outs))"
  shows "\<exists>s s'. server_init server_new address port fresh pton bind_rc listen_rc = (s, True) \<and>
    server_run s False h (map Client peers @ Stop_called # later) = Some (Finished (s', h', outs, True)) \<and>
    \<not> srv_running s' \<and> \<not> sock_valid (listen_socket s') \<and> get_server_info s' = address @ '':'' @ show_nat (unat port)"
proof -
  let ?s = "server_new\<lparr>listen_socket := fresh, bind_address := address, srv_port := port\<rparr>"
  have "server_run ?s False h (map Client peers @ Stop_called # later) =
      Some (Finished ((stop_request (?s\<lparr>srv_running := True, srv_stop := False\<rparr>))\<lparr>srv_running := False\<rparr>, h', outs, True))"
    using run_clients_then[of ?s peers h h' outs "Stop_called # later"] assms(1,5,6)
    by (simp add: server_new_def stopped_loop stop_request_def)
  then show ?thesis using init_server[OF assms(1-4), of address port]
    by (auto simp: stop_request_def socket_close_def get_server_info_def)
qed

section \<open>Properties\<close>

text \<open>
  C28: A server that was initialised serves the clients that connect, one after the other, each by \<^verbatim>\<open>handle_client\<close>, until it
  is stopped. A \<^verbatim>\<open>stop\<close> that the loop sees at once ends it: the clients before are served, those after are not. A \<^verbatim>\<open>stop\<close> that another
  thread calls while the loop waits in \<^verbatim>\<open>accept\<close> ends it only when one more client connects, which is served although the listening socket is
  closed; until then the server runs on, and the call of \<^verbatim>\<open>stop\<close>, which waits for the thread of the server, does not return.
\<close>

theorem server_serves_until_stopped:
  assumes "sock_valid fresh" "0 < pton" "0 \<le> bind_rc" "0 \<le> listen_rc"
    and "\<forall>p \<in> set peers. sock_valid p" "serve_clients h peers = Some (Finished (h1, outs))"
    and "sock_valid p" "serve_clients h1 [p] = Some (Finished (h2, [out]))"
  shows "\<exists>s. server_init server_new address port fresh pton bind_rc listen_rc = (s, True) \<and>
    get_server_info s = address @ '':'' @ show_nat (unat port) \<and>
    (\<exists>s'. server_run s False h (map Client peers @ Stop_called # later) = Some (Finished (s', h1, outs, True)) \<and>
       \<not> srv_running s' \<and> \<not> sock_valid (listen_socket s')) \<and>
    (\<exists>s'. server_run s False h (map Client peers @ [Stop_while_accepting]) = Some (Finished (s', h1, outs, False)) \<and>
       server_stop (run_async s) (\<lambda>_. (s', False)) = None) \<and>
    (\<exists>s'. server_run s False h (map Client peers @ Stop_while_accepting # Client p # later) =
         Some (Finished (s', h2, outs @ [out], True)) \<and> \<not> srv_running s')"
proof (intro exI conjI)
  let ?s = "server_new\<lparr>listen_socket := fresh, bind_address := address, srv_port := port\<rparr>"
  let ?on = "?s\<lparr>srv_running := True, srv_stop := False\<rparr>"
  have s: "sock_valid (listen_socket ?s)" "srv_connections ?s = []" using assms(1) by (simp_all add: server_new_def)
  note run = run_clients_then[OF s assms(5,6)]
  show "server_init server_new address port fresh pton bind_rc listen_rc = (?s, True)" by (rule init_server[OF assms(1-4)])
  show "get_server_info ?s = address @ '':'' @ show_nat (unat port)" by (simp add: get_server_info_def)
  show "server_run ?s False h (map Client peers @ Stop_called # later) =
      Some (Finished ((stop_request ?on)\<lparr>srv_running := False\<rparr>, h1, outs, True))"
    using run[of "Stop_called # later"] by (simp add: stopped_loop stop_request_def)
  show "\<not> srv_running ((stop_request ?on)\<lparr>srv_running := False\<rparr>)"
    "\<not> sock_valid (listen_socket ((stop_request ?on)\<lparr>srv_running := False\<rparr>))"
    by (simp_all add: stop_request_def socket_close_def)
  show "server_run ?s False h (map Client peers @ [Stop_while_accepting]) = Some (Finished (stop_request ?on, h1, outs, False))"
    using run[where es = "[Stop_while_accepting]" and ended = False] assms(1) by simp
  show "server_stop (run_async ?s) (\<lambda>_. (stop_request ?on, False)) = None"
    using assms(1) by (simp add: server_stop_def run_async_def stop_request_def Let_def)
  obtain c where "serve_loop h1 (conn_new p) = Some (Finished (h2, c))" "sock_out (conn_socket c) = out"
    using assms(8) by (auto split: option.splits run.splits)
  moreover have "socket_accept fresh p = p" using assms(1,7) by (simp add: socket_accept_def)
  ultimately show "server_run ?s False h (map Client peers @ Stop_while_accepting # Client p # later) =
      Some (Finished ((cleanup_connections (stop_request ?on))\<lparr>srv_running := False\<rparr>, h2, outs @ [out], True))"
    using run[of "Stop_while_accepting # Client p # later"] assms(1,7) by (simp add: stopped_loop stop_request_def)
  show "\<not> srv_running ((cleanup_connections (stop_request ?on))\<lparr>srv_running := False\<rparr>)" by simp
qed

text \<open>
  \<^verbatim>\<open>init\<close> succeeds exactly when every step does, and a server that was not initialised does nothing
  when it is run.
\<close>

theorem init_succeeds_iff:
  "(snd (server_init s address port fresh pton bind_rc listen_rc) \<longleftrightarrow>
      sock_valid fresh \<and> 0 < pton \<and> 0 \<le> bind_rc \<and> 0 \<le> listen_rc) \<and>
   server_run server_new early h es = Some (Finished (server_new, h, [], True))"
  by (simp add: init_ok_iff server_run_def server_new_def socket_new_def)

lemma spinning_loop:
  "srv_running s \<Longrightarrow> \<not> srv_stop s \<Longrightarrow> \<not> sock_valid (listen_socket s) \<Longrightarrow> set es \<subseteq> {Accept_failed} \<union> range Client \<Longrightarrow>
   accept_loop s h es = Some (Finished (s, h, [], False))"
  by (induction es) (auto simp: accept_loop_on socket_accept_def socket_new_def split: accept_event.split)

text \<open>
  A call of \<^verbatim>\<open>stop\<close> while the server starts is lost and never returns: \<^verbatim>\<open>run_blocking\<close> resets
  the request after the listening socket was closed, so the loop goes on for ever without serving anybody, and
  \<^verbatim>\<open>stop\<close> waits for it.
\<close>

theorem stop_while_server_starts_hangs:
  assumes "sock_valid (listen_socket s)" "set es \<subseteq> {Accept_failed} \<union> range Client"
  shows "\<exists>s'. server_run s True h es = Some (Finished (s', h, [], False)) \<and>
    server_stop (run_async s) (\<lambda>s1. case server_run s True h es of
       Some (Finished (s2, _, _, ended)) \<Rightarrow> (s2, ended) | _ \<Rightarrow> (s1, False)) = None"
proof -
  let ?s = "(stop_request s)\<lparr>srv_running := True, srv_stop := False\<rparr>"
  have "accept_loop ?s h es = Some (Finished (?s, h, [], False))"
    using spinning_loop[of ?s es h] assms(2) by (simp add: stop_request_def socket_close_def sock_valid_def)
  then have "server_run s True h es = Some (Finished (?s, h, [], False))" using assms(1) by (simp add: server_run_def Let_def)
  then show ?thesis using assms(1) by (simp add: server_stop_def run_async_def stop_request_def Let_def)
qed

lemma accept_loop_connections:
  "accept_loop s h es = Some (Finished (s', h', outs, b)) \<Longrightarrow> srv_connections s = [] \<Longrightarrow> srv_connections s' = []"
  "accept_wait ls s h es = Some (Finished (s', h', outs, b)) \<Longrightarrow> srv_connections s = [] \<Longrightarrow> srv_connections s' = []"
proof (induction s h es and ls s h es arbitrary: s' h' outs b and s' h' outs b rule: accept_loop_accept_wait.induct)
  case (1 s h es)
  then show ?case by (auto simp: accept_loop.simps[of s] split: if_splits)
next
  case (3 ls s h e es)
  then show ?case
    by (auto simp: Let_def stop_request_def cleanup_connections_def split: if_splits accept_event.splits option.splits run.splits)
qed simp

lemma server_run_connections:
  "server_run s early h es = Some (Finished (s', h', outs, b)) \<Longrightarrow> srv_connections s = [] \<Longrightarrow> srv_connections s' = []"
  by (auto simp: server_run_def Let_def stop_request_def dest: accept_loop_connections(1)
      split: if_splits option.splits run.splits)

inductive server_reachable :: "tcp_server \<Rightarrow> bool" where
  new: "server_reachable server_new"
| init: "server_reachable s \<Longrightarrow> server_reachable (fst (server_init s address port fresh pton bind_rc listen_rc))"
| ran: "server_reachable s \<Longrightarrow> server_run s early h es = Some (Finished (s', h', outs, ended)) \<Longrightarrow> server_reachable s'"
| async: "server_reachable s \<Longrightarrow> server_reachable (run_async s)"
| stopping: "server_reachable s \<Longrightarrow> server_reachable (stop_request s)"
| stopped: "server_reachable s \<Longrightarrow> server_reachable (stop_finish s)"

text \<open>
  The server's list of connections is never filled: from a new server, whatever is done with it,
  \<^verbatim>\<open>get_connection_count\<close> is zero, also after clients were served, and \<^verbatim>\<open>stop\<close> has no client to close.
\<close>

theorem connection_count_always_zero: 
  assumes "server_reachable s"
  shows "get_connection_count s = 0"
proof -
  have "srv_connections s = []"
    using assms
    by induction (auto simp: server_new_def server_init_def run_async_def stop_request_def stop_finish_def Let_def
        dest: server_run_connections split: prod.splits)
  then show ?thesis by (simp add: get_connection_count_def)
qed

section \<open>Witnesses\<close>

lemma two_pings_answered:
  "\<exists>h1 h2. serve_clients fresh_handler [client_socket [ping_bytes]] = Some (Finished (h1, [serialize pong_response])) \<and>
     serve_clients h1 [client_socket [ping_bytes]] = Some (Finished (h2, [serialize pong_response]))"
proof -
  let ?ms = "[[make_command [''PING'']]]"
  have "msg_ok (make_command [''PING''])" by (rule make_command_ok) simp_all
  then have ok: "\<forall>mss \<in> set [?ms, ?ms]. \<forall>ms \<in> set mss. ms \<noteq> [] \<and> (\<forall>m \<in> set ms. msg_ok m) \<and> length (concat (map serialize ms)) \<le> 4096"
    by (simp add: ping_bytes del: serialize.simps) (simp add: ping_bytes_def)
  have replies: "snd (run_clients (kv_new default_table) [?ms, ?ms]) = [[pong_response], [pong_response]]" by code_simp
  have fresh: "h_parser fresh_handler = []" "h_store fresh_handler = kv_new default_table"
    by (simp_all add: fresh_handler_def handler_new_def)
  obtain h2 where "serve_clients fresh_handler [client_socket [ping_bytes], client_socket [ping_bytes]] =
      Some (Finished (h2, [serialize pong_response, serialize pong_response]))"
    using serve_clients_pipelined[OF ok fresh(1)] unfolding fresh(2) replies
    by (auto simp: ping_bytes simp del: serialize.simps serve_clients.simps)
  then obtain h1 c1 c2 where "serve_loop fresh_handler (conn_new (client_socket [ping_bytes])) = Some (Finished (h1, c1))"
    "serve_loop h1 (conn_new (client_socket [ping_bytes])) = Some (Finished (h2, c2))"
    "sock_out (conn_socket c1) = serialize pong_response" "sock_out (conn_socket c2) = serialize pong_response"
    by (auto split: option.splits run.splits)
  then show ?thesis by (intro exI[of _ h1] exI[of _ h2]) simp
qed

text \<open>Two clients send \<^verbatim>\<open>PING\<close>; another thread stops the server after the first, and the second is still answered.\<close>

theorem server_serves_until_stopped_witness:
  "\<exists>s s' s'' h1 h2. server_init server_new ''0.0.0.0'' 6379 (socket_new\<lparr>sock_fd := 3\<rparr>) 1 0 0 = (s, True) \<and>
     server_run s False fresh_handler [Client (client_socket [ping_bytes]), Stop_while_accepting] =
       Some (Finished (s', h1, [serialize pong_response], False)) \<and>
     server_run s False fresh_handler [Client (client_socket [ping_bytes]), Stop_while_accepting, Client (client_socket [ping_bytes])] =
       Some (Finished (s'', h2, [serialize pong_response, serialize pong_response], True))"
proof -
  let ?p = "client_socket [ping_bytes]" and ?s = "server_new\<lparr>listen_socket := socket_new\<lparr>sock_fd := 3\<rparr>, bind_address := ''0.0.0.0'', srv_port := 6379\<rparr>"
  obtain h1 h2 where h: "serve_clients fresh_handler [?p] = Some (Finished (h1, [serialize pong_response]))"
    "serve_clients h1 [?p] = Some (Finished (h2, [serialize pong_response]))"
    using two_pings_answered by blast
  have v: "sock_valid (socket_new\<lparr>sock_fd := 3\<rparr>)" "\<forall>p \<in> set [?p]. sock_valid p" "sock_valid ?p" by (simp_all add: sock_valid_def client_socket_def)
  have init: "server_init server_new ''0.0.0.0'' 6379 (socket_new\<lparr>sock_fd := 3\<rparr>) 1 0 0 = (?s, True)"
    using init_server[OF v(1), of 1 0 0] by simp
  show ?thesis
    using server_serves_until_stopped[OF v(1) _ _ _ v(2) h(1) v(3) h(2), of 1 0 0 "''0.0.0.0''" 6379 "[]"] init
    by simp blast
qed

theorem stop_while_server_starts_hangs_witness:
  "\<exists>s'. server_run (server_new\<lparr>listen_socket := socket_new\<lparr>sock_fd := 3\<rparr>\<rparr>) True fresh_handler [Accept_failed] =
     Some (Finished (s', fresh_handler, [], False))"
  using stop_while_server_starts_hangs[of "server_new\<lparr>listen_socket := socket_new\<lparr>sock_fd := 3\<rparr>\<rparr>" "[Accept_failed]" fresh_handler]
  by auto

theorem connection_count_always_zero_witness: "get_connection_count (run_async server_new) = 0"
  by (rule connection_count_always_zero[OF server_reachable.async[OF server_reachable.new]])

end
