(* ===== verification/Tcp_Client.thy ===== *)
theory Tcp_Client
  imports Connection
begin

text \<open>
  \<^verbatim>\<open>TcpClient\<close> of \<^verbatim>\<open>src/src/network/tcp_client.{hpp,cpp}\<close>: connecting, sending, receiving with a
  timeout, and the line-based text protocol. Whether \<^verbatim>\<open>select\<close> reports the socket as readable before its
  timeout is part of the state (\<open>cl_ready\<close>, nothing left means that it does); \<open>cl_nonblocking\<close> is
  the mode the client last asked for. The answers of the other system calls and the readings of the
  clock are arguments. Messages to the terminal are not modelled.
\<close>

section \<open>State, sending and receiving\<close>

record tcp_client =
  cl_socket :: socket
  cl_connected :: bool
  server_info :: string
  cl_buffer :: bytes
  buffer_size :: nat
  cl_nonblocking :: bool
  cl_ready :: "bool list"

definition DEFAULT_BUFFER_SIZE :: nat where "DEFAULT_BUFFER_SIZE = 4096"
definition CLIENT_MAX_BUFFER :: nat where "CLIENT_MAX_BUFFER = 1024 * 1024"

text \<open>A new client; \<open>ready\<close> is what its calls of \<^verbatim>\<open>select\<close> will report.\<close>

definition tcp_client_new :: "bool list \<Rightarrow> tcp_client" where
  "tcp_client_new ready = \<lparr>cl_socket = socket_new, cl_connected = False, server_info = [], cl_buffer = [],
     buffer_size = DEFAULT_BUFFER_SIZE, cl_nonblocking = False, cl_ready = ready\<rparr>"

text \<open>A client that is connected over a socket.\<close>

definition client_on :: "socket \<Rightarrow> tcp_client" where
  "client_on s = (tcp_client_new [])\<lparr>cl_socket := s, cl_connected := True\<rparr>"

definition client_connected :: "tcp_client \<Rightarrow> bool" where
  "client_connected c = (sock_valid (cl_socket c) \<and> cl_connected c)"

definition disconnect :: "tcp_client \<Rightarrow> tcp_client" where
  "disconnect c =
     (if cl_connected c then c\<lparr>cl_socket := socket_close (cl_socket c), cl_connected := False, cl_buffer := []\<rparr> else c)"

function send_loop :: "tcp_client \<Rightarrow> bytes \<Rightarrow> tcp_client \<times> bool" where
  "send_loop c rest =
     (if rest = [] then (c, True)
      else let (s, sent) = socket_send (cl_socket c) rest;
               c1 = c\<lparr>cl_socket := s\<rparr>
           in if sent \<le> 0 then (disconnect c1, False)
              else send_loop c1 (drop (nat sent) rest))"
  by pat_completeness auto
termination
  by (relation "measure (\<lambda>(_, rest). length rest)") auto

declare send_loop.simps [simp del]

definition send_raw :: "tcp_client \<Rightarrow> bytes \<Rightarrow> tcp_client \<times> bool" where
  "send_raw c bs = (if \<not> client_connected c then (c, False) else send_loop c bs)"

definition receive_raw :: "tcp_client \<Rightarrow> nat \<Rightarrow> tcp_client \<times> int \<times> bytes" where
  "receive_raw c cap =
     (if \<not> client_connected c then (c, -1, [])
      else let (s, received, bs) = socket_recv (cl_socket c) cap;
               c1 = c\<lparr>cl_socket := s\<rparr>
           in (if received \<le> 0 then disconnect c1 else c1, received, bs))"

definition wait_for_data :: "tcp_client \<Rightarrow> tcp_client \<times> bool" where
  "wait_for_data c =
     (if \<not> sock_valid (cl_socket c) then (c, False)
      else case cl_ready c of [] \<Rightarrow> (c, True) | r # rs \<Rightarrow> (c\<lparr>cl_ready := rs\<rparr>, r))"

definition receive_with_timeout :: "tcp_client \<Rightarrow> nat \<Rightarrow> tcp_client \<times> int \<times> bytes" where
  "receive_with_timeout c cap =
     (if \<not> client_connected c then (c, -1, [])
      else let (c1, ready) = wait_for_data c
           in if \<not> ready then (c1, 0, []) else receive_raw c1 cap)"

section \<open>What they do\<close>

lemma client_on_simps [simp]:
  "cl_socket (client_on s) = s" "cl_connected (client_on s)" "cl_ready (client_on s) = []"
  "(client_on s)\<lparr>cl_socket := t\<rparr> = client_on t" "client_connected (client_on s) = sock_valid s"
  by (simp_all add: client_on_def tcp_client_new_def client_connected_def)

lemma receive_pending:
  "receive_with_timeout c cap = (c1, n, bs) \<Longrightarrow> 0 < n \<Longrightarrow> pending (cl_socket c1) < pending (cl_socket c)"
  by (auto simp: receive_with_timeout_def receive_raw_def wait_for_data_def socket_recv_def pending_def Let_def
      split: if_splits prod.splits list.splits recv_event.splits)

lemma send_loop_no_plan:
  "sock_valid (cl_socket c) \<Longrightarrow> sock_plan (cl_socket c) = [] \<Longrightarrow>
   send_loop c bs = (c\<lparr>cl_socket := (cl_socket c)\<lparr>sock_out := sock_out (cl_socket c) @ bs\<rparr>\<rparr>, True)"
  by (cases "bs = []") (simp_all add: send_loop.simps[of c bs] send_loop.simps[of _ "[]"] socket_send_def)

lemma send_loop_facts:
  "client_connected c \<Longrightarrow> send_loop c rest = (c', ok) \<Longrightarrow>
   client_connected c' = ok \<and>
   (\<exists>n \<le> length rest. sock_out (cl_socket c') = sock_out (cl_socket c) @ take n rest \<and> (ok \<longrightarrow> n = length rest))"
proof (induction c rest arbitrary: c' ok rule: send_loop.induct)
  case (1 c rest)
  show ?case
  proof (cases "rest = []")
    case True
    then show ?thesis using "1.prems" by (auto simp: send_loop.simps[of c "[]"])
  next
    case False
    obtain s sent where send: "socket_send (cl_socket c) rest = (s, sent)" by force
    have valid: "sock_valid (cl_socket c)" "cl_connected c" using "1.prems"(1) by (auto simp: client_connected_def)
    have out: "sock_out s = sock_out (cl_socket c) @ take (nat sent) rest" "sock_valid s" "nat sent \<le> length rest"
      using send valid by (auto simp: socket_send_def min_def split: list.splits send_event.splits)
    let ?c1 = "c\<lparr>cl_socket := s\<rparr>"
    show ?thesis
    proof (cases "sent \<le> 0")
      case True
      then show ?thesis using False send "1.prems" valid out
        by (auto simp: send_loop.simps[of c rest] disconnect_def socket_close_def client_connected_def intro: exI[of _ 0])
    next
      case pos: False
      have con: "client_connected ?c1" using out(2) valid by (simp add: client_connected_def)
      have loop: "send_loop ?c1 (drop (nat sent) rest) = (c', ok)"
        using "1.prems"(2) False pos send by (simp add: send_loop.simps[of c rest])
      from "1.IH"[OF False send[symmetric] refl refl pos con loop] obtain k where
        k: "client_connected c' = ok" "k \<le> length (drop (nat sent) rest)" "ok \<longrightarrow> k = length (drop (nat sent) rest)"
          "sock_out (cl_socket c') = sock_out (cl_socket ?c1) @ take k (drop (nat sent) rest)" by auto
      have "sock_out (cl_socket c') = sock_out (cl_socket c) @ take (nat sent + k) rest"
        using k(4) out(1) by (simp add: take_add)
      then show ?thesis using k out(3) by (intro conjI exI[of _ "nat sent + k"]) auto
    qed
  qed
qed

interpretation client_sink: byte_sink "\<lambda>c. sock_out (cl_socket c)" client_connected send_raw
proof unfold_locales
  fix c c' bs
  show "client_connected c' \<and> sock_out (cl_socket c') = sock_out (cl_socket c) @ bs"
    if "client_connected c" "send_raw c bs = (c', True)"
    using send_loop_facts[OF that(1), of bs c' True] that by (auto simp: send_raw_def)
  show "\<not> client_connected c' \<and> (\<exists>n \<le> length bs. sock_out (cl_socket c') = sock_out (cl_socket c) @ take n bs)"
    if "client_connected c" "bs \<noteq> []" "send_raw c bs = (c', False)"
    using send_loop_facts[OF that(1), of bs c' False] that by (auto simp: send_raw_def)
  show "send_raw c bs = (c, False)" if "\<not> client_connected c" using that by (simp add: send_raw_def)
qed

lemma receive_out:
  "receive_with_timeout c cap = (c1, n, bs) \<Longrightarrow> sock_out (cl_socket c1) = sock_out (cl_socket c)"
  by (auto simp: receive_with_timeout_def receive_raw_def wait_for_data_def socket_recv_def disconnect_def
      socket_close_def Let_def split: if_splits prod.splits list.splits recv_event.splits)

section \<open>Connecting\<close>

text \<open>
  \<^verbatim>\<open>connect\<close>: \<open>fresh\<close> is what \<^verbatim>\<open>::socket\<close> gives, \<open>pton\<close> and \<open>rc\<close> are the answers of
  \<^verbatim>\<open>inet_pton\<close> and \<^verbatim>\<open>::connect\<close> (for a non-blocking socket, \<open>rc\<close> is negative while the connection is
  being made).
\<close>

definition connect_client ::
  "tcp_client \<Rightarrow> string \<Rightarrow> 16 word \<Rightarrow> int \<Rightarrow> socket \<Rightarrow> int \<Rightarrow> int \<Rightarrow> tcp_client \<times> bool" where
  "connect_client c address port timeout_ms fresh pton rc =
     (let c0 = disconnect c;
          (s, created) = create_tcp (cl_socket c0) fresh;
          c1 = c0\<lparr>cl_socket := s\<rparr>
      in if \<not> created then (c1, False)
         else let c2 = c1\<lparr>server_info := address @ '':'' @ show_nat (unat port),
                          cl_nonblocking := (timeout_ms > 0)\<rparr>;
                  connect_result = socket_connect (cl_socket c2) pton rc;
                  (c3, connect_result) = (if \<not> connect_result \<and> timeout_ms > 0 then wait_for_data c2 else (c2, connect_result));
                  c4 = (if connect_result \<or> timeout_ms = 0
                        then let up = sock_valid (cl_socket c3)
                             in c3\<lparr>cl_connected := up, cl_nonblocking := (if up \<and> timeout_ms > 0 then False else cl_nonblocking c3)\<rparr>
                        else c3)
              in (c4, cl_connected c4))"

section \<open>The text protocol\<close>

definition send_string :: "tcp_client \<Rightarrow> string \<Rightarrow> tcp_client \<times> bool" where
  "send_string c str = send_raw c (bytes_of_string str)"

text \<open>\<^verbatim>\<open>TcpClient::send_command\<close>.\<close>

definition send_text_command :: "tcp_client \<Rightarrow> string \<Rightarrow> tcp_client \<times> bool" where
  "send_text_command c cmd =
     send_string c (if cmd \<noteq> [] \<and> last cmd \<noteq> CHR 0x0A then cmd @ [CHR 0x0D, CHR 0x0A] else cmd)"

definition newline_byte :: byte where "newline_byte = 0x0A"

text \<open>The time elapsed at a round of the loop; nothing left means that no more time passes.\<close>

definition elapsed_ms :: "int list \<Rightarrow> int" where
  "elapsed_ms clock = (case clock of [] \<Rightarrow> 0 | e # _ \<Rightarrow> e)"

function read_loop :: "tcp_client \<Rightarrow> int \<Rightarrow> int list \<Rightarrow> tcp_client \<times> bytes" where
  "read_loop c timeout_ms clock =
     (if timeout_ms > 0 \<and> elapsed_ms clock \<ge> timeout_ms then (c, cl_buffer c)
      else let (c1, received, bs) = receive_with_timeout c 256
           in if received > 0 then
                let c2 = c1\<lparr>cl_buffer := cl_buffer c1 @ bs\<rparr>
                in if newline_byte \<in> set (cl_buffer c2)
                   then (c2, takeWhile (\<lambda>b. b \<noteq> newline_byte) (cl_buffer c2) @ [newline_byte])
                   else if length (cl_buffer c2) > CLIENT_MAX_BUFFER then (c2, cl_buffer c2)
                   else read_loop c2 timeout_ms (tl clock)
              else (c1, cl_buffer c1))"
  by pat_completeness auto
termination
  by (relation "measure (\<lambda>(c, _). pending (cl_socket c))") (auto dest: receive_pending[OF sym])

declare read_loop.simps [simp del]

definition read_response :: "tcp_client \<Rightarrow> int \<Rightarrow> int list \<Rightarrow> tcp_client \<times> bytes" where
  "read_response c timeout_ms clock =
     (if \<not> client_connected c then (c, []) else read_loop (c\<lparr>cl_buffer := []\<rparr>) timeout_ms clock)"

definition send_and_receive :: "tcp_client \<Rightarrow> string \<Rightarrow> int \<Rightarrow> int list \<Rightarrow> tcp_client \<times> bytes" where
  "send_and_receive c cmd timeout_ms clock =
     (let (c1, ok) = send_text_command c cmd
      in if \<not> ok then (c1, []) else read_response c1 timeout_ms clock)"

definition set_buffer_size :: "tcp_client \<Rightarrow> nat \<Rightarrow> tcp_client" where
  "set_buffer_size c n = (if n > 0 \<and> n \<le> CLIENT_MAX_BUFFER then c\<lparr>buffer_size := n\<rparr> else c)"

section \<open>Properties\<close>

text \<open>
  Connecting in blocking mode with a timeout of 0 reports success whenever a socket could be made,
  even when the server refused; with a timeout and a connection that is not made at once, the result is
  whether the socket becomes readable, that is, whether the server speaks first or the attempt has failed.
\<close>

theorem connect_result_ignores_outcome:
  assumes "sock_valid fresh" "rc < 0" "\<not> client_connected c"
  shows "snd (connect_client c address port 0 fresh pton rc) \<and>
    (0 < t \<longrightarrow> \<not> cl_connected c \<longrightarrow> snd (connect_client c address port t fresh pton rc) = snd (wait_for_data (c\<lparr>cl_socket := fresh\<rparr>)))"
  using assms
  by (auto simp: connect_client_def create_tcp_def socket_connect_def wait_for_data_def disconnect_def Let_def
      split: list.split)

text \<open>
  Connecting works when the connection is made at once: the client is connected over the new
  socket, in blocking mode again, and remembers the address; what an earlier connection
  had in its buffer is gone.
\<close>

theorem connect_at_once:
  assumes "sock_valid fresh" "0 < pton" "0 \<le> rc" "connect_client c address port t fresh pton rc = (c', ok)"
  shows "ok \<and> client_connected c' \<and> cl_socket c' = fresh \<and> \<not> cl_nonblocking c' \<and>
    server_info c' = address @ '':'' @ show_nat (unat port) \<and> (cl_connected c \<longrightarrow> cl_buffer c' = [])"
  using assms
  by (cases "cl_connected c"; cases "0 < t")
     (auto simp: connect_client_def create_tcp_def socket_connect_def disconnect_def client_connected_def Let_def)

lemma receive_chunk:
  assumes "client_connected c" "cl_ready c = []" "sock_in (cl_socket c) = Data bs # later" "bs \<noteq> []" "length bs \<le> cap"
  shows "receive_with_timeout c cap = (c\<lparr>cl_socket := (cl_socket c)\<lparr>sock_in := later\<rparr>\<rparr>, int (length bs), bs)"
  using assms by (simp add: receive_with_timeout_def wait_for_data_def receive_raw_def socket_recv_def client_connected_def Let_def)

lemma read_loop_line:
  "client_connected c \<Longrightarrow> cl_ready c = [] \<Longrightarrow> sock_in (cl_socket c) = map Data segs \<Longrightarrow>
   \<forall>s \<in> set segs. s \<noteq> [] \<and> length s \<le> 256 \<Longrightarrow> newline_byte \<notin> set (cl_buffer c) \<Longrightarrow>
   newline_byte \<in> set (concat segs) \<Longrightarrow> length (cl_buffer c @ concat segs) \<le> CLIENT_MAX_BUFFER \<Longrightarrow>
   timeout_ms \<le> 0 \<or> (\<forall>e \<in> set clock. e < timeout_ms) \<Longrightarrow>
   snd (read_loop c timeout_ms clock) = takeWhile (\<lambda>b. b \<noteq> newline_byte) (cl_buffer c @ concat segs) @ [newline_byte]"
proof (induction segs arbitrary: c clock)
  case (Cons s segs)
  let ?c1 = "c\<lparr>cl_socket := (cl_socket c)\<lparr>sock_in := map Data segs\<rparr>\<rparr>"
  let ?c2 = "?c1\<lparr>cl_buffer := cl_buffer c @ s\<rparr>"
  have rec: "receive_with_timeout c 256 = (?c1, int (length s), s)"
    using receive_chunk[OF Cons.prems(1,2), of s "map Data segs" 256] Cons.prems(3,4) by simp
  have time: "\<not> (timeout_ms > 0 \<and> elapsed_ms clock \<ge> timeout_ms)"
    using Cons.prems(8) by (auto simp: elapsed_ms_def split: list.splits)
  show ?case
  proof (cases "newline_byte \<in> set s")
    case True
    have "takeWhile (\<lambda>b. b \<noteq> newline_byte) ((cl_buffer c @ s) @ concat segs) = takeWhile (\<lambda>b. b \<noteq> newline_byte) (cl_buffer c @ s)"
      using True by (intro takeWhile_append1[of newline_byte]) auto
    then show ?thesis using True rec time Cons.prems(4) by (auto simp: read_loop.simps[of c])
  next
    case False
    have "client_connected ?c2" using Cons.prems(1) by (simp add: client_connected_def)
    then have "snd (read_loop ?c2 timeout_ms (tl clock)) =
        takeWhile (\<lambda>b. b \<noteq> newline_byte) (cl_buffer ?c2 @ concat segs) @ [newline_byte]"
      by (intro Cons.IH) (use Cons.prems False in \<open>cases clock; auto\<close>)+
    moreover have "length (cl_buffer c @ s) \<le> CLIENT_MAX_BUFFER" using Cons.prems(7) by simp
    ultimately show ?thesis using False rec time Cons.prems(4,5) by (auto simp: read_loop.simps[of c])
  qed
qed simp

text \<open>
  \<^verbatim>\<open>read_response\<close> returns the first line the server sends, with its newline, however it is split into
  segments, as long as the time is not up and the response fits the buffer limit.
\<close>

theorem read_response_first_line:
  assumes "client_connected c" "cl_ready c = []" "sock_in (cl_socket c) = map Data segs"
    and "\<forall>s \<in> set segs. s \<noteq> [] \<and> length s \<le> 256" "length (concat segs) \<le> CLIENT_MAX_BUFFER"
    and "concat segs = line @ newline_byte # rest" "newline_byte \<notin> set line"
    and "timeout_ms \<le> 0 \<or> (\<forall>e \<in> set clock. e < timeout_ms)"
  shows "snd (read_response c timeout_ms clock) = line @ [newline_byte]"
proof -
  have "takeWhile (\<lambda>b. b \<noteq> newline_byte) (concat segs) = line"
    unfolding assms(6) by (rule takeWhile_until[OF assms(7)])
  moreover have "client_connected (c\<lparr>cl_buffer := []\<rparr>)" using assms(1) by (simp add: client_connected_def)
  ultimately show ?thesis
    using read_loop_line[of "c\<lparr>cl_buffer := []\<rparr>" segs timeout_ms clock] assms by (simp add: read_response_def)
qed

text \<open>
  What follows the newline in the same segment is lost: when two lines arrive together, the first
  call returns the first line and the second call, finding nothing more to read, returns nothing.
\<close>

theorem second_line_is_lost:
  assumes "newline_byte \<notin> set l1" "length l1 + length l2 + 2 \<le> 256"
    and "c = (client_on \<lparr>sock_fd = 4, sock_in = [Data (l1 @ newline_byte # l2 @ [newline_byte])], sock_plan = [], sock_out = []\<rparr>)"
    and "read_response c t1 [] = (c1, line)"
  shows "line = l1 @ [newline_byte] \<and> snd (read_response (c1\<lparr>cl_ready := [False]\<rparr>) t2 []) = []"
proof -
  let ?seg = "l1 @ newline_byte # l2 @ [newline_byte]"
  have rec: "receive_with_timeout (c\<lparr>cl_buffer := []\<rparr>) 256 =
      ((c\<lparr>cl_buffer := []\<rparr>)\<lparr>cl_socket := (cl_socket c)\<lparr>sock_in := []\<rparr>\<rparr>, int (length ?seg), ?seg)"
    using receive_chunk[of "c\<lparr>cl_buffer := []\<rparr>" ?seg "[]" 256] assms(2,3) by (simp add: client_connected_def)
  have line: "takeWhile (\<lambda>b. b \<noteq> newline_byte) ?seg = l1" by (rule takeWhile_until[OF assms(1)])
  have con: "client_connected c" "cl_connected c" using assms(3) by simp_all
  let ?c1 = "c\<lparr>cl_socket := (cl_socket c)\<lparr>sock_in := []\<rparr>, cl_buffer := ?seg\<rparr>"
  have "read_response c t1 [] = (?c1, l1 @ [newline_byte])"
    using con rec line by (auto simp: read_response_def read_loop.simps[of "c\<lparr>cl_buffer := []\<rparr>"] elapsed_ms_def)
  then have r: "line = l1 @ [newline_byte]" "client_connected c1"
    using assms(4) con by (auto simp: client_connected_def)
  then have "snd (read_response (c1\<lparr>cl_ready := [False]\<rparr>) t2 []) = []"
    by (simp add: read_response_def read_loop.simps[of _ t2] receive_with_timeout_def wait_for_data_def client_connected_def)
  then show ?thesis using r(1) by blast
qed

section \<open>Witnesses\<close>

theorem connect_result_ignores_outcome_witness:
  "snd (connect_client (tcp_client_new [False]) ''127.0.0.1'' 6379 0 (socket_new\<lparr>sock_fd := 4\<rparr>) 1 (-1)) \<and>
   \<not> snd (connect_client (tcp_client_new [False]) ''127.0.0.1'' 6379 5000 (socket_new\<lparr>sock_fd := 4\<rparr>) 1 (-1))"
  using connect_result_ignores_outcome[of "socket_new\<lparr>sock_fd := 4\<rparr>" "-1" "tcp_client_new [False]" "''127.0.0.1''" 6379 1 5000]
  by (simp add: tcp_client_new_def client_connected_def wait_for_data_def)

theorem connect_at_once_witness:
  "client_connected (fst (connect_client (tcp_client_new []) ''127.0.0.1'' 6379 5000 (socket_new\<lparr>sock_fd := 4\<rparr>) 1 0))"
  using connect_at_once[OF _ _ _ surjective_pairing, of "socket_new\<lparr>sock_fd := 4\<rparr>" 1 0] by simp

theorem read_response_first_line_witness:
  "snd (read_response (client_on \<lparr>sock_fd = 4, sock_in = map Data [[79], [75, 10, 33]], sock_plan = [], sock_out = []\<rparr>) 5000 [1, 2]) =
     [79, 75] @ [newline_byte]"
  by (rule read_response_first_line[where segs = "[[79], [75, 10, 33]]" and rest = "[33]"])
     (simp_all add: newline_byte_def CLIENT_MAX_BUFFER_def)

theorem second_line_is_lost_witness:
  "\<exists>c1 line. read_response (client_on \<lparr>sock_fd = 4, sock_in = [Data ([79] @ newline_byte # [75] @ [newline_byte])],
      sock_plan = [], sock_out = []\<rparr>) 100 [] = (c1, line) \<and> snd (read_response (c1\<lparr>cl_ready := [False]\<rparr>) 100 []) = []"
proof -
  have l1: "newline_byte \<notin> set [79]" "length ([79] :: bytes) + length ([75] :: bytes) + 2 \<le> 256"
    by (simp_all add: newline_byte_def)
  show ?thesis using second_line_is_lost[OF l1 refl surjective_pairing, of 100 100] surjective_pairing by blast
qed

end
