(* ===== verification/Redis_Client.thy ===== *)
theory Redis_Client
  imports Protocol Tcp_Client
begin

text \<open>
  The command-line client: \<^verbatim>\<open>RedisClient\<close> (\<^verbatim>\<open>src/src/client/redis_client.cpp\<close>) over the TCP
  client, and the interactive mode with \<^verbatim>\<open>trim\<close> (\<^verbatim>\<open>src/src/client/main.cpp\<close>).
\<close>

section \<open>The Redis client\<close>

record redis_client =
  rc_client :: tcp_client
  rc_parser :: bytes

text \<open>The constructor, \<^verbatim>\<open>connect\<close> and \<^verbatim>\<open>disconnect\<close>; \<open>ready\<close> and the last three arguments are answers of the system.\<close>

definition redis_client_new :: "bool list \<Rightarrow> redis_client" where
  "redis_client_new ready = \<lparr>rc_client = tcp_client_new ready, rc_parser = []\<rparr>"

definition redis_connect ::
  "redis_client \<Rightarrow> string \<Rightarrow> 16 word \<Rightarrow> int \<Rightarrow> socket \<Rightarrow> int \<Rightarrow> int \<Rightarrow> redis_client \<times> bool" where
  "redis_connect r host port timeout_ms fresh pton rc =
     (let (c, ok) = connect_client (rc_client r) host port timeout_ms fresh pton rc in (r\<lparr>rc_client := c\<rparr>, ok))"

definition redis_disconnect :: "redis_client \<Rightarrow> redis_client" where
  "redis_disconnect r = r\<lparr>rc_client := disconnect (rc_client r)\<rparr>"

definition redis_destroy :: "redis_client \<Rightarrow> redis_client" where
  "redis_destroy r = redis_disconnect r"

datatype 'a attempt = Completed 'a | Parser_crash

text \<open>Reading on until the parser has a message.\<close>

function receive_loop :: "redis_client \<Rightarrow> redis_client" where
  "receive_loop r =
     (if \<not> has_message (rc_parser r) \<and> client_connected (rc_client r) then
        let (c1, received, bs) = receive_with_timeout (rc_client r) 4096
        in if received > 0
           then receive_loop (r\<lparr>rc_client := c1, rc_parser := feed (rc_parser r) bs\<rparr>)
           else r\<lparr>rc_client := c1\<rparr>
      else r)"
  by pat_completeness auto
termination
  by (relation "measure (\<lambda>r. pending (cl_socket (rc_client r)))") (auto intro: receive_pending[OF sym])

declare receive_loop.simps [simp del]

definition send_command :: "redis_client \<Rightarrow> message \<Rightarrow> (redis_client \<times> message) attempt" where
  "send_command r cmd =
     (if \<not> client_connected (rc_client r) then Completed (r, error_response ''Not connected to server'')
      else let (c1, sent) = send_raw (rc_client r) (serialize cmd);
               r1 = r\<lparr>rc_client := c1\<rparr>
           in if \<not> sent then Completed (r1, error_response ''Failed to send command'')
              else let (c2, received, bs) = receive_with_timeout c1 4096;
                       r2 = r1\<lparr>rc_client := c2\<rparr>
                   in if received \<le> 0 then Completed (r2, error_response ''Failed to receive response'')
                      else let r3 = receive_loop (r2\<lparr>rc_parser := feed (rc_parser r2) bs\<rparr>)
                           in case parse_message (rc_parser r3) of
                                (Parsed response, b) \<Rightarrow> Completed (r3\<lparr>rc_parser := b\<rparr>, response)
                              | (Nullptr, b) \<Rightarrow>
                                  Completed (r3\<lparr>rc_parser := b\<rparr>, error_response ''Failed to parse response'')
                              | (Crash, b) \<Rightarrow> Parser_crash)"

definition client_execute :: "redis_client \<Rightarrow> string list \<Rightarrow> (redis_client \<times> message) attempt" where
  "client_execute r args =
     (if args = [] then Completed (r, error_response ''Empty command'') else send_command r (make_command args))"

text \<open>What the convenience methods make of a response.\<close>

definition reply_string :: "message \<Rightarrow> string option" where
  "reply_string m = (if is_string m then Some (as_string m) else None)"

definition reply_set :: "message \<Rightarrow> bool" where
  "reply_set m = (is_string m \<and> as_string m = ''OK'')"

definition reply_get :: "message \<Rightarrow> string option" where
  "reply_get m = (if is_null m then None else if is_string m then Some (as_string m) else None)"

definition reply_positive :: "message \<Rightarrow> bool" where
  "reply_positive m = (is_integer m \<and> sint (as_integer m) > 0)"

fun reply_keys_loop :: "message option list \<Rightarrow> string list" where
  "reply_keys_loop [] = []"
| "reply_keys_loop (e # es) =
     (case e of
        Some m \<Rightarrow> if is_string m then as_string m # reply_keys_loop es else reply_keys_loop es
      | None \<Rightarrow> reply_keys_loop es)"

definition reply_keys :: "message \<Rightarrow> string list" where
  "reply_keys m = (if is_array m then case as_array m of Some arr \<Rightarrow> reply_keys_loop arr | None \<Rightarrow> [] else [])"

definition reply_ping :: "message \<Rightarrow> bool" where
  "reply_ping m = (is_string m \<and> as_string m = ''PONG'')"

fun with_reply :: "('b \<Rightarrow> 'a) \<Rightarrow> (redis_client \<times> 'b) attempt \<Rightarrow> (redis_client \<times> 'a) attempt" where
  "with_reply f (Completed (r, m)) = Completed (r, f m)"
| "with_reply f Parser_crash = Parser_crash"

definition execute_string :: "redis_client \<Rightarrow> string list \<Rightarrow> (redis_client \<times> string option) attempt" where
  "execute_string r args = with_reply reply_string (client_execute r args)"

definition client_set :: "redis_client \<Rightarrow> string \<Rightarrow> string \<Rightarrow> (redis_client \<times> bool) attempt" where
  "client_set r key val = with_reply reply_set (client_execute r [''SET'', key, val])"

definition client_get :: "redis_client \<Rightarrow> string \<Rightarrow> (redis_client \<times> string option) attempt" where
  "client_get r key = with_reply reply_get (client_execute r [''GET'', key])"

definition client_del :: "redis_client \<Rightarrow> string \<Rightarrow> (redis_client \<times> bool) attempt" where
  "client_del r key = with_reply reply_positive (client_execute r [''DEL'', key])"

definition client_exists :: "redis_client \<Rightarrow> string \<Rightarrow> (redis_client \<times> bool) attempt" where
  "client_exists r key = with_reply reply_positive (client_execute r [''EXISTS'', key])"

definition client_keys :: "redis_client \<Rightarrow> string \<Rightarrow> (redis_client \<times> string list) attempt" where
  "client_keys r pattern = with_reply reply_keys (client_execute r [''KEYS'', pattern])"

definition client_ping :: "redis_client \<Rightarrow> (redis_client \<times> bool) attempt" where
  "client_ping r = with_reply reply_ping (client_execute r [''PING''])"

section \<open>Command lines\<close>

definition backslash :: char where "backslash = CHR 0x5C"
definition dquote :: char where "dquote = CHR 0x22"

record line_state =
  ls_args :: "string list"
  ls_current :: string
  ls_quotes :: bool
  ls_escape :: bool

definition unescape :: "char \<Rightarrow> char" where
  "unescape c =
     (if c = CHR ''n'' then CHR 0x0A else if c = CHR ''r'' then CHR 0x0D else if c = CHR ''t'' then CHR 0x09 else c)"

definition line_step :: "line_state \<Rightarrow> char \<Rightarrow> line_state" where
  "line_step s c =
     (if ls_escape s then s\<lparr>ls_current := ls_current s @ [unescape c], ls_escape := False\<rparr>
      else if c = backslash then s\<lparr>ls_escape := True\<rparr>
      else if c = dquote then s\<lparr>ls_quotes := \<not> ls_quotes s\<rparr>
      else if c = CHR '' '' \<and> \<not> ls_quotes s then
        (if ls_current s \<noteq> [] then s\<lparr>ls_args := ls_args s @ [ls_current s], ls_current := []\<rparr> else s)
      else s\<lparr>ls_current := ls_current s @ [c]\<rparr>)"

definition parse_command_line :: "string \<Rightarrow> string list" where
  "parse_command_line line =
     (let s = foldl line_step \<lparr>ls_args = [], ls_current = [], ls_quotes = False, ls_escape = False\<rparr> line
      in if ls_current s \<noteq> [] then ls_args s @ [ls_current s] else ls_args s)"

definition blanks :: "char set" where
  "blanks = {CHR '' '', CHR 0x09, CHR 0x0D, CHR 0x0A}"

definition trim :: "string \<Rightarrow> string" where
  "trim str = rev (dropWhile (\<lambda>c. c \<in> blanks) (rev (dropWhile (\<lambda>c. c \<in> blanks) str)))"

section \<open>Display of responses\<close>

fun format_response :: "message \<Rightarrow> string" and format_elems :: "nat \<Rightarrow> message option list \<Rightarrow> string" where
  "format_response (Message t v) =
     (case t of
        SIMPLE_STRING \<Rightarrow> as_string (Message t v)
      | ERROR_MSG \<Rightarrow> ''(error) '' @ as_string (Message t v)
      | INTEGER \<Rightarrow> ''(integer) '' @ show_int (sint (as_integer (Message t v)))
      | BULK_STRING \<Rightarrow> [dquote] @ as_string (Message t v) @ [dquote]
      | ARRAY \<Rightarrow>
          (case v of
             Arr arr \<Rightarrow> if arr = [] then ''(empty array)'' else format_elems 0 arr
           | _ \<Rightarrow> ''(empty array)'')
      | NULL_VALUE \<Rightarrow> ''(nil)'')"
| "format_elems i [] = []"
| "format_elems i (e # es) =
     show_nat (i + 1) @ '') '' @ (case e of Some m \<Rightarrow> format_response m | None \<Rightarrow> ''(nil)'') @
     (if es \<noteq> [] then [CHR 0x0A] else []) @ format_elems (i + 1) es"

section \<open>Quoting\<close>

definition escape_char :: "char \<Rightarrow> string" where
  "escape_char c = (if c = backslash \<or> c = dquote then [backslash, c] else [c])"

definition quote_arg :: "string \<Rightarrow> string" where
  "quote_arg a = [dquote] @ concat (map escape_char a) @ [dquote]"

fun quote_line :: "string list \<Rightarrow> string" where
  "quote_line [] = []"
| "quote_line [a] = quote_arg a"
| "quote_line (a # as) = quote_arg a @ '' '' @ quote_line as"

lemma unescape_special: "unescape backslash = backslash" "unescape dquote = dquote" "backslash \<noteq> dquote"
  by (simp_all add: unescape_def backslash_def dquote_def)

lemma line_escape_char:
  "ls_quotes s \<Longrightarrow> \<not> ls_escape s \<Longrightarrow>
   foldl line_step s (escape_char c) = s\<lparr>ls_current := ls_current s @ [c]\<rparr>"
  using unescape_special by (auto simp: escape_char_def line_step_def)

lemma line_escape:
  "ls_quotes s \<Longrightarrow> \<not> ls_escape s \<Longrightarrow>
   foldl line_step s (concat (map escape_char a)) = s\<lparr>ls_current := ls_current s @ a\<rparr>"
  by (induction a arbitrary: s) (simp_all add: line_escape_char)

lemma line_quote:
  "\<not> ls_quotes s \<Longrightarrow> \<not> ls_escape s \<Longrightarrow>
   foldl line_step s (quote_arg a) = s\<lparr>ls_current := ls_current s @ a\<rparr>"
  using unescape_special(3) by (simp add: quote_arg_def line_step_def[of _ dquote] line_escape)

definition finish_line :: "line_state \<Rightarrow> string list" where
  "finish_line s = (if ls_current s \<noteq> [] then ls_args s @ [ls_current s] else ls_args s)"

lemma line_quotes:
  "\<not> ls_quotes s \<Longrightarrow> \<not> ls_escape s \<Longrightarrow> ls_current s = [] \<Longrightarrow>
   finish_line (foldl line_step s (quote_line as)) = ls_args s @ filter (\<lambda>a. a \<noteq> []) as"
proof (induction "as" arbitrary: s rule: quote_line.induct)
  case (3 a b bs)
  let ?s1 = "s\<lparr>ls_args := ls_args s @ (if a = [] then [] else [a])\<rparr>"
  have "line_step (s\<lparr>ls_current := a\<rparr>) (CHR '' '') = ?s1"
    using "3.prems" by (auto simp: line_step_def backslash_def dquote_def)
  then have "foldl line_step s (quote_line (a # b # bs)) = foldl line_step ?s1 (quote_line (b # bs))"
    using "3.prems" by (simp add: line_quote)
  then show ?case using "3.IH"[of ?s1] "3.prems" by simp
qed (simp_all add: finish_line_def line_quote)

section \<open>Receiving a reply\<close>

lemma has_message_needs:
  assumes "5 \<le> n" "n < unat (5 + w)" "t \<noteq> type_byte ARRAY"
  shows "\<not> has_message (take n (t # le_bytes32 w @ body))"
  using assms by (auto simp: has_message_def take_header read_length_le)

lemma has_message_text:
  assumes "length s + 5 < 2 ^ 32" "5 \<le> n" "n < 5 + length s" "t \<noteq> type_byte ARRAY"
  shows "\<not> has_message (take n (t # le_bytes32 (word_of_nat (length s)) @ bytes_of_string s))"
  using has_message_needs[of n "word_of_nat (length s)" t] unat_header[OF assms(1)] assms(2-4) by simp

lemma has_message_prefix:
  assumes "msg_ok m" "get_type m \<noteq> ARRAY" "n < length (serialize m)"
  shows "\<not> has_message (take n (serialize m))"
proof (cases "n < 5")
  case True
  then show ?thesis using assms(3) by (simp add: has_message_def min_def)
next
  case False
  obtain t v where m: "m = Message t v" by (cases m)
  show ?thesis
  proof (cases t)
    case INTEGER
    then show ?thesis using False assms(3) m has_message_needs[of n 8 3 "le_bytes64 (as_integer m)"] by simp
  qed (use False assms m has_message_text in \<open>auto simp: as_string_def Let_def split: msg_value.splits\<close>)
qed

lemma receive_segment:
  assumes "client_connected c" "cl_ready c = []" "sock_in (cl_socket c) = Data bs # later" "bs \<noteq> []" "length bs \<le> 4096"
  shows "receive_with_timeout c 4096 = (c\<lparr>cl_socket := (cl_socket c)\<lparr>sock_in := later\<rparr>\<rparr>, int (length bs), bs)"
  using assms by (simp add: receive_with_timeout_def wait_for_data_def receive_raw_def socket_recv_def client_connected_def Let_def)

lemma receive_loop_idle: "has_message (rc_parser r) \<Longrightarrow> receive_loop r = r"
  by (simp add: receive_loop.simps[of r])

lemma receive_loop_out: "sock_out (cl_socket (rc_client (receive_loop r))) = sock_out (cl_socket (rc_client r))"
proof (induction r rule: receive_loop.induct)
  case (1 r)
  obtain c1 n bs where "receive_with_timeout (rc_client r) 4096 = (c1, n, bs)" by (metis prod_cases3)
  then show ?case using 1 by (simp add: receive_loop.simps[of r] receive_out)
qed

lemma receive_loop_segments:
  assumes "msg_ok m" "get_type m \<noteq> ARRAY"
  shows "rc_parser r @ concat segs = serialize m \<Longrightarrow> \<forall>s \<in> set segs. s \<noteq> [] \<and> length s \<le> 4096 \<Longrightarrow>
    sock_in (cl_socket (rc_client r)) = map Data segs \<Longrightarrow> client_connected (rc_client r) \<Longrightarrow>
    cl_ready (rc_client r) = [] \<Longrightarrow> has_message (serialize m) \<Longrightarrow> rc_parser (receive_loop r) = serialize m"
proof (induction segs arbitrary: r)
  case Nil
  then show ?case by (simp add: receive_loop.simps[of r])
next
  case (Cons s segs)
  have "rc_parser r = take (length (rc_parser r)) (serialize m)" "length (rc_parser r) < length (serialize m)"
    using Cons.prems(1,2) by (metis append_eq_conv_conj, metis Cons.prems(1,2) append_is_Nil_conv
        concat.simps(2) length_append less_add_same_cancel1 length_greater_0_conv list.set_intros(1))
  then have none: "\<not> has_message (rc_parser r)" using has_message_prefix[OF assms] by metis
  let ?c1 = "(rc_client r)\<lparr>cl_socket := (cl_socket (rc_client r))\<lparr>sock_in := map Data segs\<rparr>\<rparr>"
  let ?r1 = "r\<lparr>rc_client := ?c1, rc_parser := feed (rc_parser r) s\<rparr>"
  have rec: "receive_with_timeout (rc_client r) 4096 = (?c1, int (length s), s)"
    using receive_segment[OF Cons.prems(4,5), of s "map Data segs"] Cons.prems(2,3) by simp
  have "receive_loop r = receive_loop ?r1"
    using none rec Cons.prems(2,4) by (simp add: receive_loop.simps[of r])
  moreover have "client_connected ?c1" using Cons.prems(4) by (simp add: client_connected_def)
  ultimately show ?case using Cons.IH[of ?r1] Cons.prems by (simp add: feed_def)
qed

lemma parse_quote_line: "parse_command_line (quote_line args) = filter (\<lambda>a. a \<noteq> []) args"
  using line_quotes[of "\<lparr>ls_args = [], ls_current = [], ls_quotes = False, ls_escape = False\<rparr>" args]
  by (simp add: parse_command_line_def finish_line_def Let_def)

lemma send_command_reply:
  assumes "client_connected (rc_client r)" "rc_parser r = []" "cl_ready (rc_client r) = []"
    and "sock_plan (cl_socket (rc_client r)) = []" "sock_in (cl_socket (rc_client r)) = map Data segs"
    and "msg_ok reply" "concat segs = serialize reply" "\<forall>s \<in> set segs. s \<noteq> [] \<and> length s \<le> 4096"
    and "get_type reply \<noteq> ARRAY \<or> length segs = 1"
  shows "\<exists>r'. send_command r cmd = Completed (r', reply) \<and> rc_parser r' = [] \<and>
    sock_out (cl_socket (rc_client r')) = sock_out (cl_socket (rc_client r)) @ serialize cmd"
proof -
  have has: "has_message (serialize reply)" using has_message_serialize[OF assms(6), of "[]"] by simp
  have parse: "parse_message (serialize reply) = (Parsed reply, [])"
    using parse_serialize(1)[OF assms(6), of "[]"] by simp
  obtain s0 segs' where segs: "segs = s0 # segs'"
    using assms(7) serialize_nonempty[of reply] by (cases segs) auto
  let ?c1 = "(rc_client r)\<lparr>cl_socket := (cl_socket (rc_client r))\<lparr>sock_out :=
      sock_out (cl_socket (rc_client r)) @ serialize cmd\<rparr>\<rparr>"
  let ?c2 = "?c1\<lparr>cl_socket := (cl_socket ?c1)\<lparr>sock_in := map Data segs'\<rparr>\<rparr>"
  let ?r2 = "r\<lparr>rc_client := ?c2, rc_parser := s0\<rparr>"
  have send: "send_raw (rc_client r) (serialize cmd) = (?c1, True)"
    using assms(1,4) send_loop_no_plan by (simp add: send_raw_def client_connected_def)
  have con: "client_connected ?c1" "client_connected ?c2" using assms(1) by (simp_all add: client_connected_def)
  have rec: "receive_with_timeout ?c1 4096 = (?c2, int (length s0), s0)"
    using receive_segment[OF con(1), of s0 "map Data segs'"] assms(3,5,8) segs by simp
  have "rc_parser (receive_loop ?r2) = serialize reply"
  proof (cases "get_type reply = ARRAY")
    case True
    then have "s0 = serialize reply" using assms(7,9) segs by simp
    then show ?thesis using has by (simp add: receive_loop_idle)
  next
    case False
    then show ?thesis
      using receive_loop_segments[OF assms(6) False, of ?r2 segs'] assms(3,7,8) segs con(2) has by simp
  qed
  moreover have "0 < length s0" using assms(8) segs by simp
  ultimately show ?thesis
    using assms(1,2) send rec parse by (simp add: send_command_def feed_def receive_loop_out)
qed

section \<open>Properties\<close>

text \<open>
  C34: Every list of arguments can be written as a command line: quoted, with backslashes and
  quotes escaped, and separated by blanks, \<^verbatim>\<open>parse_command_line\<close> reads the arguments back,
  except that it drops empty ones.
\<close>

theorem command_line_round_trip: "parse_command_line (quote_line args) = filter (\<lambda>a. a \<noteq> []) args"
  by (rule parse_quote_line)

text \<open>
  On a working connection the client returns the reply the server sent and nothing stays in
  its parser: for a reply other than an array however the network splits it into segments, for
  an array when it arrives in one piece of at most 4096 bytes. The request goes out complete.
\<close>

theorem client_receives_reply:
  assumes "client_connected (rc_client r)" "rc_parser r = []" "cl_ready (rc_client r) = []"
    and "sock_plan (cl_socket (rc_client r)) = []" "sock_in (cl_socket (rc_client r)) = map Data segs"
    and "msg_ok reply" "concat segs = serialize reply" "\<forall>s \<in> set segs. s \<noteq> [] \<and> length s \<le> 4096"
    and "get_type reply \<noteq> ARRAY \<or> length segs = 1"
  shows "\<exists>r'. send_command r cmd = Completed (r', reply) \<and> rc_parser r' = [] \<and>
    sock_out (cl_socket (rc_client r')) = sock_out (cl_socket (rc_client r)) @ serialize cmd"
  by (rule send_command_reply[OF assms])

definition split_array_client :: redis_client where
  "split_array_client = \<lparr>rc_client = client_on \<lparr>sock_fd = 4,
       sock_in = [Data (take 9 (serialize (make_command [''ab'', ''cd'']))),
                  Data (drop 9 (serialize (make_command [''ab'', ''cd''])))], sock_plan = [], sock_out = []\<rparr>, rc_parser = []\<rparr>"

lemma split_array_bytes:
  "serialize (make_command [''ab'', ''cd'']) = [5, 2, 0, 0, 0, 4, 2, 0, 0, 0, 97, 98, 4, 2, 0, 0, 0, 99, 100]"
  by code_simp

lemmas client_steps = send_command_def send_raw_def send_loop_no_plan receive_with_timeout_def wait_for_data_def
  receive_raw_def socket_recv_def client_connected_def feed_def Let_def

definition after_first :: redis_client where
  "after_first = \<lparr>rc_client = client_on \<lparr>sock_fd = 4,
       sock_in = [Data (drop 9 (serialize (make_command [''ab'', ''cd''])))], sock_plan = [],
       sock_out = serialize (make_command [''KEYS'', ''*''])\<rparr>,
     rc_parser = [4, 2, 0, 0]\<rparr>"

lemma first_reply_lost:
  "send_command split_array_client (make_command [''KEYS'', ''*'']) =
     Completed (after_first, error_response ''Failed to parse response'')"
proof -
  have has: "has_message (take 9 (serialize (make_command [''ab'', ''cd''])))"
    by (simp add: split_array_bytes has_message_def)
  have parse: "parse_message (take 9 (serialize (make_command [''ab'', ''cd'']))) = (Nullptr, [4, 2, 0, 0])"
    by (simp add: split_array_bytes parse_message.simps parse_elems.simps read_header_def has_bytes_def
        read_length_def consume_bytes_def)
  have len: "length (take 9 (serialize (make_command [''ab'', ''cd'']))) = 9" by (simp add: split_array_bytes)
  show ?thesis using has parse len
    by (simp add: client_steps split_array_client_def receive_loop_idle after_first_def del: serialize.simps)
qed

lemma next_reply_wrong:
  "\<exists>r. send_command after_first cmd = Completed (r, make_bulk_string ''ab'')"
proof -
  let ?p = "[4, 2, 0, 0] @ drop 9 (serialize (make_command [''ab'', ''cd'']))"
  have p: "?p = serialize (make_bulk_string ''ab'') @ serialize (make_bulk_string ''cd'')"
    unfolding split_array_bytes by code_simp
  have ok: "msg_ok (make_bulk_string ''ab'')" by (simp add: make_bulk_string_def)
  have has: "has_message ?p" unfolding p by (rule has_message_serialize[OF ok])
  have parse: "parse_message ?p = (Parsed (make_bulk_string ''ab''), serialize (make_bulk_string ''cd''))"
    unfolding p by (rule parse_serialize(1)[OF ok])
  have len: "length (serialize (make_command [''ab'', ''cd''])) = 19" by (simp add: split_array_bytes)
  show ?thesis using has parse len
    by (simp add: client_steps after_first_def receive_loop_idle del: serialize.simps)
qed

text \<open>
  The client loses an array reply that arrives in two segments: \<^verbatim>\<open>has_message\<close> is true
  after the first one, so it stops reading and reports a parse error, and the rest of the reply
  is left to be taken for the answer to the next command.
\<close>

theorem client_loses_split_array:
  "\<exists>r1 r2. send_command split_array_client (make_command [''KEYS'', ''*'']) =
      Completed (r1, error_response ''Failed to parse response'') \<and>
    send_command r1 (make_command [''PING'']) = Completed (r2, make_bulk_string ''ab'')"
  using first_reply_lost next_reply_wrong by blast

definition ready_client :: redis_client where
  "ready_client = \<lparr>rc_client = client_on \<lparr>sock_fd = 4,
       sock_in = map Data [take 3 (serialize pong_response), drop 3 (serialize pong_response)], sock_plan = [], sock_out = []\<rparr>, rc_parser = []\<rparr>"

theorem client_receives_reply_witness:
  "\<exists>r'. send_command ready_client (make_command [''PING'']) = Completed (r', pong_response)"
proof -
  have "serialize pong_response = [1, 4, 0, 0, 0, 80, 79, 78, 71]" by code_simp
  then have "\<forall>s \<in> set [take 3 (serialize pong_response), drop 3 (serialize pong_response)]. s \<noteq> [] \<and> length s \<le> 4096"
    by simp
  moreover have "msg_ok pong_response" "get_type pong_response \<noteq> ARRAY"
    by (simp_all add: pong_response_def make_simple_string_def)
  ultimately show ?thesis
    using client_receives_reply[of ready_client "[take 3 (serialize pong_response), drop 3 (serialize pong_response)]"
        pong_response "make_command [''PING'']"]
    by (auto simp: ready_client_def client_connected_def)
qed

text \<open>
  The requests a client sends one after the other reach the server in order and without gaps, however the
  system splits them; when a write fails the client is disconnected and the server has a prefix
  of them.
\<close>

theorem requests_sent_without_gap:
  assumes "client_connected c" "write_all send_raw c (map serialize ms) = (c', ok)"
  shows "client_connected c' = ok \<and>
    (\<exists>n. sock_out (cl_socket c') = sock_out (cl_socket c) @ take n (serialize_messages (map Some ms)) \<and>
      (ok \<longrightarrow> n = length (serialize_messages (map Some ms))))"
proof -
  have "serialize_messages (map Some ms) = concat (map serialize ms)" by (induction ms) auto
  then show ?thesis using client_sink.write_all_prefix[OF assms(1) _ assms(2)] by auto
qed

theorem requests_sent_without_gap_witness:
  "sock_out (cl_socket (fst (write_all send_raw (rc_client ready_client) (map serialize [make_command [''PING'']])))) =
     sock_out (cl_socket (rc_client ready_client)) @ serialize (make_command [''PING''])"
proof -
  have c: "client_connected (rc_client ready_client)" "sock_plan (cl_socket (rc_client ready_client)) = []"
    by (simp_all add: ready_client_def client_connected_def)
  then have "snd (write_all send_raw (rc_client ready_client) (map serialize [make_command [''PING'']]))"
    by (simp add: send_raw_def send_loop_no_plan client_connected_def)
  then show ?thesis
    using requests_sent_without_gap[OF c(1) surjective_pairing, of "[make_command [''PING'']]"] by auto
qed

section \<open>The interactive mode\<close>

text \<open>
  \<^verbatim>\<open>run_interactive_mode\<close> of \<^verbatim>\<open>src/src/client/main.cpp\<close>: what is printed for the lines that
  are typed; when there are none left the input has ended.
\<close>

definition newline :: string where "newline = [CHR 0x0A]"

definition prompt :: string where "prompt = ''127.0.0.1:6380> ''"

definition banner :: string where
  "banner = ''Type '' @ [CHR 0x27] @ ''help'' @ [CHR 0x27] @ '' for commands, '' @ [CHR 0x27] @ ''quit'' @ [CHR 0x27] @
            '' to exit'' @ newline @ ''========================================'' @ newline"

definition help_text :: string where
  "help_text = concat (map (\<lambda>l. l @ newline)
     [newline @ ''Redis Commands:'',
      ''  SET key value      - Set a key to a value'',
      ''  GET key            - Get value of a key'',
      ''  DEL key [key ...]  - Delete one or more keys'',
      ''  EXISTS key [...]   - Check if keys exist'',
      ''  KEYS pattern       - Find keys matching pattern'',
      ''  PING [message]     - Test connection'',
      ''  ECHO message       - Echo a message'',
      ''  FLUSHDB            - Clear all keys'',
      ''  DBSIZE             - Get number of keys'',
      ''  INFO               - Get server information'',
      newline @ ''Client Commands:'',
      ''  help               - Show this help'',
      ''  quit/exit          - Exit the client'',
      []])"

fun interactive_loop :: "redis_client \<Rightarrow> string list \<Rightarrow> (redis_client \<times> string) attempt" where
  "interactive_loop r [] = Completed (r, if client_connected (rc_client r) then prompt else [])"
| "interactive_loop r (raw # rest) =
     (if \<not> client_connected (rc_client r) then Completed (r, [])
      else let line = trim raw; args = parse_command_line line
           in if line = [] then with_reply (\<lambda>out. prompt @ out) (interactive_loop r rest)
              else if line = ''quit'' \<or> line = ''exit'' then Completed (r, prompt @ ''Goodbye!'' @ newline)
              else if line = ''help'' then with_reply (\<lambda>out. prompt @ help_text @ out) (interactive_loop r rest)
              else if args = [] then with_reply (\<lambda>out. prompt @ out) (interactive_loop r rest)
              else case client_execute r args of
                     Parser_crash \<Rightarrow> Parser_crash
                   | Completed (r1, response) \<Rightarrow>
                       with_reply (\<lambda>out. prompt @ format_response response @ newline @ out) (interactive_loop r1 rest))"

definition run_interactive_mode :: "redis_client \<Rightarrow> string list \<Rightarrow> (redis_client \<times> string) attempt" where
  "run_interactive_mode r lines =
     (case interactive_loop r lines of
        Parser_crash \<Rightarrow> Parser_crash
      | Completed (r1, out) \<Rightarrow>
          Completed (r1, banner @ out @
            (if \<not> client_connected (rc_client r1) then newline @ ''Connection to server lost'' @ newline else [])))"

lemma quote_line_ends:
  "args \<noteq> [] \<Longrightarrow> \<exists>mid. quote_line args = dquote # mid @ [dquote]"
proof (induction args)
  case (Cons a args)
  have a: "\<exists>mid. quote_arg a = dquote # mid @ [dquote]" by (simp add: quote_arg_def)
  then show ?case using Cons by (cases args) force+
qed simp

lemma trim_quoted: "trim (dquote # mid @ [dquote]) = dquote # mid @ [dquote]"
  by (simp add: trim_def blanks_def dquote_def)

text \<open>
  A quoted command typed at the prompt is executed as given: for non-empty arguments the interactive mode
  makes exactly that request, prints the reply and prompts again.
\<close>

theorem typed_command_is_executed:
  assumes "args \<noteq> []" "[] \<notin> set args" "client_connected (rc_client r)"
    and "client_execute r args = Completed (r1, response)"
  shows "interactive_loop r (quote_line args # rest) =
    with_reply (\<lambda>out. prompt @ format_response response @ newline @ out) (interactive_loop r1 rest)"
proof -
  obtain mid where line: "quote_line args = dquote # mid @ [dquote]" using quote_line_ends[OF assms(1)] by blast
  have trim: "trim (quote_line args) = quote_line args" unfolding line by (rule trim_quoted)
  have args: "parse_command_line (quote_line args) = args"
    using parse_quote_line[of args] assms(2) by (simp add: filter_id_conv) (metis)
  have "quote_line args \<notin> {[], ''quit'', ''exit'', ''help''}" by (simp add: line dquote_def)
  then show ?thesis using assms trim args by (simp add: Let_def)
qed

definition lonely_client :: redis_client where
  "lonely_client = \<lparr>rc_client = client_on \<lparr>sock_fd = 4, sock_in = [], sock_plan = [], sock_out = []\<rparr>, rc_parser = []\<rparr>"

theorem typed_command_is_executed_witness:
  "\<exists>r1. interactive_loop lonely_client [quote_line [''PING'']] = with_reply
     (\<lambda>out. prompt @ format_response (error_response ''Failed to receive response'') @ newline @ out) (interactive_loop r1 [])"
proof -
  have con: "client_connected (rc_client lonely_client)" by (simp add: lonely_client_def client_connected_def)
  obtain r1 where "client_execute lonely_client [''PING''] = Completed (r1, error_response ''Failed to receive response'')"
    by (simp add: client_execute_def send_command_def send_raw_def lonely_client_def client_connected_def
        send_loop_no_plan receive_with_timeout_def wait_for_data_def receive_raw_def socket_recv_def)
  from typed_command_is_executed[OF _ _ con this, of "[]"] show ?thesis by auto
qed

end
