(* ===== verification/Entry_Points.thy ===== *)
theory Entry_Points
  imports Tcp_Server Redis_Client
begin

text \<open>
  The two \<^verbatim>\<open>main\<close> functions, \<^verbatim>\<open>src/src/server/main.cpp\<close> and \<^verbatim>\<open>src/src/client/main.cpp\<close>: their
  arguments (without the name of the program), the exit code, and what they do with the server and
  the client. The answers of the system are arguments, as in the theories of the two; the
  greetings that are printed are left out.
\<close>

section \<open>Arguments\<close>

text \<open>\<^verbatim>\<open>std::atoi\<close>, for numbers that fit \<^verbatim>\<open>int\<close>.\<close>

definition is_space :: "char \<Rightarrow> bool" where
  "is_space c = (c = CHR '' '' \<or> c \<in> {CHR 0x09, CHR 0x0A, CHR 0x0B, CHR 0x0C, CHR 0x0D})"

definition is_digit :: "char \<Rightarrow> bool" where
  "is_digit c = (48 \<le> (of_char c :: nat) \<and> (of_char c :: nat) \<le> 57)"

definition atoi :: "string \<Rightarrow> int" where
  "atoi s =
     (case dropWhile is_space s of
        [] \<Rightarrow> 0
      | c # r \<Rightarrow>
          if c = CHR ''-'' then - int (read_digits (takeWhile is_digit r))
          else if c = CHR ''+'' then int (read_digits (takeWhile is_digit r))
          else int (read_digits (takeWhile is_digit (c # r))))"

definition server_port :: "string list \<Rightarrow> int" where
  "server_port args = (if length args > 0 then atoi (args ! 0) else 6379)"

definition server_address :: "string list \<Rightarrow> string" where
  "server_address args = (if length args > 1 then args ! 1 else ''0.0.0.0'')"

section \<open>The server\<close>

text \<open>\<^verbatim>\<open>signal_handler\<close>: \<^verbatim>\<open>SIGINT\<close> and \<^verbatim>\<open>SIGTERM\<close> stop the server.\<close>

definition signal_handler :: "int \<Rightarrow> accept_event list" where
  "signal_handler sig = (if sig = 2 \<or> sig = 15 then [Stop_called] else [])"

text \<open>
  \<^verbatim>\<open>main\<close> of the server: the exit code, the server, the handler, what each client was sent, and whether
  \<^verbatim>\<open>main\<close> has returned. The port is converted to \<^verbatim>\<open>uint16_t\<close> in the call of \<^verbatim>\<open>init\<close>.
\<close>

definition server_main ::
  "string list \<Rightarrow> socket \<Rightarrow> int \<Rightarrow> int \<Rightarrow> int \<Rightarrow> handler \<Rightarrow> accept_event list \<Rightarrow>
   (int \<times> tcp_server \<times> handler \<times> bytes list \<times> bool) run option" where
  "server_main args fresh pton bind_rc listen_rc h es =
     (let (s, ok) = server_init server_new (server_address args) (word_of_int (server_port args)) fresh pton bind_rc listen_rc
      in if \<not> ok then Some (Finished (1, s, h, [], True))
         else case server_run s False h es of
                Some (Finished (s1, h1, outs, ended)) \<Rightarrow> Some (Finished (0, s1, h1, outs, ended))
              | Some Crashed \<Rightarrow> Some Crashed
              | None \<Rightarrow> None)"

section \<open>The client\<close>

definition client_host :: "string list \<Rightarrow> string" where
  "client_host args = (if length args > 0 then args ! 0 else ''127.0.0.1'')"

definition client_port :: "string list \<Rightarrow> int" where
  "client_port args = (if length args > 1 then atoi (args ! 1) else 6380)"

definition client_main ::
  "string list \<Rightarrow> bool list \<Rightarrow> socket \<Rightarrow> int \<Rightarrow> int \<Rightarrow> string list \<Rightarrow> (redis_client \<times> int \<times> string) attempt" where
  "client_main args ready fresh pton rc lines =
     (let (r, ok) = redis_connect (redis_client_new ready) (client_host args) (word_of_int (client_port args)) 5000 fresh pton rc
      in if \<not> ok then Completed (r, 1, [])
         else case client_ping r of
                Parser_crash \<Rightarrow> Parser_crash
              | Completed (r1, pong) \<Rightarrow>
                  (case run_interactive_mode r1 lines of
                     Parser_crash \<Rightarrow> Parser_crash
                   | Completed (r2, out) \<Rightarrow> Completed (redis_disconnect r2, 0, out)))"

section \<open>Numbers on the command line\<close>

lemma show_nat_digits: "c \<in> set (show_nat n) \<Longrightarrow> is_digit c"
proof (induction n rule: show_nat.induct)
  case (1 n)
  show ?case
  proof (cases "n < 10")
    case True
    then show ?thesis using 1(2) by (simp add: show_nat.simps[of n] is_digit_def)
  next
    case False
    then show ?thesis using 1 by (auto simp: show_nat.simps[of n] is_digit_def)
  qed
qed

lemma show_nat_nonempty: "show_nat n \<noteq> []"
  by (simp add: show_nat.simps[of n])

lemma digit_not_special: "is_digit c \<Longrightarrow> \<not> is_space c \<and> c \<noteq> CHR ''-'' \<and> c \<noteq> CHR ''+''"
  by (auto simp: is_digit_def is_space_def)

lemma atoi_show_nat: "atoi (show_nat n) = int n"
proof -
  obtain c r where cr: "show_nat n = c # r" using show_nat_nonempty[of n] by (cases "show_nat n") auto
  have "is_digit c" using show_nat_digits[of c n] cr by simp
  moreover have rest: "takeWhile is_digit r = r" using show_nat_digits[of _ n] cr by (simp add: takeWhile_eq_all_conv)
  ultimately show ?thesis
    using digit_not_special[of c] read_digits_show_nat[of n] by (simp add: atoi_def cr rest)
qed

lemma server_main_serves:
  assumes "\<forall>p \<in> set peers. sock_valid p" "serve_clients h peers = Some (Finished (h', outs))" "sig = 2 \<or> sig = 15"
  shows "\<exists>s. server_main args fresh pton bind_rc listen_rc h (map Client peers @ signal_handler sig) =
    (if sock_valid fresh \<and> 0 < pton \<and> 0 \<le> bind_rc \<and> 0 \<le> listen_rc
     then Some (Finished (0, s, h', outs, True)) else Some (Finished (1, s, h, [], True)))"
proof (cases "sock_valid fresh \<and> 0 < pton \<and> 0 \<le> bind_rc \<and> 0 \<le> listen_rc")
  case True
  then show ?thesis
    using initialised_server_serves[of fresh pton bind_rc listen_rc peers h h' outs "server_address args"
        "word_of_int (server_port args)" "[]"] assms
    by (auto simp: server_main_def signal_handler_def)
next
  case False
  then have "\<not> snd (server_init server_new (server_address args) (word_of_int (server_port args)) fresh pton bind_rc listen_rc)"
    by (simp add: init_ok_iff)
  then show ?thesis using False by (auto simp: server_main_def case_prod_beta)
qed

text \<open>
  The port given to the server on its command line is taken modulo \<open>2 ^ 16\<close>: every port number is
  used as given, and a larger number silently becomes another port.
\<close>

theorem server_port_wraps:
  assumes "server_main [show_nat n] fresh pton bind_rc listen_rc h [Stop_called] = Some (Finished (0, s, h', outs, ended))"
  shows "unat (srv_port s) = n mod 2 ^ 16 \<and> (n < 2 ^ 16 \<longrightarrow> unat (srv_port s) = n) \<and> ended"
proof -
  let ?p = "word_of_int (int n) :: 16 word"
  have port: "server_port [show_nat n] = int n" by (simp add: server_port_def atoi_show_nat)
  obtain s0 where s0: "server_init server_new (server_address [show_nat n]) ?p fresh pton bind_rc listen_rc = (s0, True)"
    using assms unfolding server_main_def port
    by (cases "server_init server_new (server_address [show_nat n]) ?p fresh pton bind_rc listen_rc") (auto split: if_splits)
  then have "srv_port s0 = ?p" "sock_valid (listen_socket s0)" by (auto simp: server_init_def create_tcp_def Let_def split: if_splits)
  moreover from this have "srv_port s = srv_port s0 \<and> ended"
    using assms s0 unfolding server_main_def port
    by (auto simp: server_run_def stop_called_loop stop_request_def Let_def)
  moreover have "unat ?p = n mod 2 ^ 16" by (simp add: unat_of_nat)
  ultimately show ?thesis by simp
qed

text \<open>
  \<^verbatim>\<open>main\<close> of the server returns 1 exactly when the server could not be set up, and then has served
  nobody; otherwise it serves clients until \<^verbatim>\<open>SIGINT\<close> or \<^verbatim>\<open>SIGTERM\<close> arrives and returns 0.
\<close>

theorem server_exit_code:
  assumes "\<forall>p \<in> set peers. sock_valid p" "serve_clients h peers = Some (Finished (h', outs))" "sig = 2 \<or> sig = 15"
  shows "\<exists>s. server_main args fresh pton bind_rc listen_rc h (map Client peers @ signal_handler sig) =
    (if sock_valid fresh \<and> 0 < pton \<and> 0 \<le> bind_rc \<and> 0 \<le> listen_rc
     then Some (Finished (0, s, h', outs, True)) else Some (Finished (1, s, h, [], True)))"
  by (rule server_main_serves[OF assms])

section \<open>Witnesses\<close>

theorem server_port_wraps_witness:
  "\<exists>s h' outs ended. server_main [show_nat 70000] (socket_new\<lparr>sock_fd := 3\<rparr>) 1 0 0 fresh_handler [Stop_called] =
     Some (Finished (0, s, h', outs, ended)) \<and> unat (srv_port s) = 4464"
proof -
  obtain s where s: "server_main [show_nat 70000] (socket_new\<lparr>sock_fd := 3\<rparr>) 1 0 0 fresh_handler [Stop_called] =
      Some (Finished (0, s, fresh_handler, [], True))"
    by (simp add: server_main_def server_init_def create_tcp_def socket_bind_def socket_listen_def server_run_def
        server_new_def stop_called_loop stop_request_def Let_def)
  show ?thesis using s server_port_wraps[OF s] by auto
qed

theorem server_exit_code_witness:
  "\<exists>s. server_main [] (socket_new\<lparr>sock_fd := 3\<rparr>) 1 (-1) 0 fresh_handler (map Client [] @ signal_handler 2) =
     Some (Finished (1, s, fresh_handler, [], True))"
  using server_exit_code[of "[]" fresh_handler fresh_handler "[]" 2 "[]" "socket_new\<lparr>sock_fd := 3\<rparr>" 1 "-1" 0] by simp

lemma connect_new_client:
  "snd (connect_client (tcp_client_new ready) host port 5000 fresh pton rc) =
     (sock_valid fresh \<and> (0 < pton \<and> 0 \<le> rc \<or> ready = [] \<or> hd ready)) \<and>
   (snd (connect_client (tcp_client_new ready) host port 5000 fresh pton rc) \<or>
    \<not> client_connected (fst (connect_client (tcp_client_new ready) host port 5000 fresh pton rc)))"
  by (auto simp: connect_client_def tcp_client_new_def create_tcp_def socket_connect_def wait_for_data_def disconnect_def
      client_connected_def Let_def split: list.split)

text \<open>
  The exit code of the client is 1 exactly when it cannot make a socket, or the connection is not there at
  once and the socket does not become readable within the timeout; in both cases, and when the interactive
  mode ends, the connection is closed.
\<close>

theorem client_exit_code:
  assumes "client_main args ready fresh pton rc lines = Completed (r, code, out)"
  shows "code = (if sock_valid fresh \<and> (0 < pton \<and> 0 \<le> rc \<or> ready = [] \<or> hd ready) then 0 else 1) \<and>
    \<not> client_connected (rc_client r)"
proof -
  let ?con = "connect_client (tcp_client_new ready) (client_host args) (word_of_int (client_port args)) 5000 fresh pton rc"
  obtain c ok where con: "?con = (c, ok)" by force
  note fact = connect_new_client[of ready "client_host args" "word_of_int (client_port args)" fresh pton rc, unfolded con fst_conv snd_conv]
  have "\<not> client_connected (disconnect c')" for c' by (simp add: disconnect_def client_connected_def)
  then show ?thesis using assms con fact
    by (auto simp: client_main_def redis_connect_def redis_client_new_def redis_disconnect_def split: attempt.splits if_splits)
qed

theorem client_exit_code_witness:
  "\<exists>r. client_main [] [False] (socket_new\<lparr>sock_fd := 4\<rparr>) 1 (-1) [] = Completed (r, 1, []) \<and> \<not> client_connected (rc_client r)"
proof -
  obtain r where "client_main [] [False] (socket_new\<lparr>sock_fd := 4\<rparr>) 1 (-1) [] = Completed (r, 1, [])"
    by (simp add: client_main_def redis_connect_def redis_client_new_def connect_client_def tcp_client_new_def create_tcp_def
        socket_connect_def wait_for_data_def disconnect_def socket_new_def)
  with client_exit_code[OF this] show ?thesis by simp
qed

end
