(* ===== verification/Simple_Server.thy ===== *)
theory Simple_Server
  imports Protocol
begin

text \<open>
  The stand-alone server of \<^verbatim>\<open>src/src/server/simple_server.cpp\<close>: length-prefixed text
  requests on non-blocking sockets, one \<^verbatim>\<open>Conn\<close> per client, driven by \<^verbatim>\<open>poll\<close>. A round of
  the main loop for a connection is \<open>poll_conn\<close>; what \<^verbatim>\<open>poll\<close>, \<^verbatim>\<open>read\<close> and
  \<^verbatim>\<open>write\<close> answer are its arguments. A failing \<^verbatim>\<open>assert\<close> aborts the whole server and is the
  outcome \<open>Abort\<close>. For an empty request \<^verbatim>\<open>try_one_request\<close> takes the address of the element behind a buffer of four
  bytes and reads nothing through it, which the model takes as harmless although \<^verbatim>\<open>operator[]\<close> of \<^verbatim>\<open>std::vector\<close> asks for an
  element that exists. The loop over all connections is in \<^verbatim>\<open>Poll_Loop\<close>.
\<close>

section \<open>State\<close>

record conn =
  conn_fd :: int
  want_read :: bool
  want_write :: bool
  want_close :: bool
  incoming :: bytes
  outgoing :: bytes

type_synonym kv = "string \<Rightarrow> string option"

definition k_max_msg :: nat where "k_max_msg = 4096"

text \<open>The connection \<^verbatim>\<open>handle_accept\<close> makes for a descriptor.\<close>

definition conn_accepted :: "int \<Rightarrow> conn" where
  "conn_accepted fd = \<lparr>conn_fd = fd, want_read = True, want_write = False, want_close = False, incoming = [], outgoing = []\<rparr>"

definition buf_append :: "bytes \<Rightarrow> bytes \<Rightarrow> bytes" where
  "buf_append buf bs = buf @ bs"

definition buf_consume :: "bytes \<Rightarrow> nat \<Rightarrow> bytes" where
  "buf_consume buf n = drop n buf"

section \<open>Requests\<close>

text \<open>\<^verbatim>\<open>std::string::find\<close> of a character from a position on.\<close>

definition find_from :: "char \<Rightarrow> string \<Rightarrow> nat \<Rightarrow> nat option" where
  "find_from c s i = (if c \<in> set (drop i s) then Some (i + length (takeWhile (\<lambda>x. x \<noteq> c) (drop i s))) else None)"

text \<open>A response: its length in four bytes and its bytes.\<close>

definition frame :: "string \<Rightarrow> bytes" where
  "frame s = le_bytes32 (word_of_nat (length s)) @ bytes_of_string s"

definition do_request :: "kv \<Rightarrow> string \<Rightarrow> bytes \<Rightarrow> kv \<times> bytes" where
  "do_request g cmd out =
     (if take 4 cmd = ''PING'' then (g, buf_append out (frame ''PONG''))
      else if take 3 cmd = ''GET'' then
        (case find_from (CHR '' '') cmd 0 of
           None \<Rightarrow> (g, out)
         | Some space \<Rightarrow>
             let key = drop 4 cmd; val = (case g key of Some v \<Rightarrow> v | None \<Rightarrow> [])
             in (g, buf_append out (frame val)))
      else if take 3 cmd = ''SET'' then
        (case find_from (CHR '' '') cmd 0 of
           None \<Rightarrow> (g, out)
         | Some space1 \<Rightarrow>
             (case find_from (CHR '' '') cmd (space1 + 1) of
                None \<Rightarrow> (g, out)
              | Some space2 \<Rightarrow>
                  let key = take (space2 - space1 - 1) (drop (space1 + 1) cmd);
                      val = drop (space2 + 1) cmd
                  in (g(key \<mapsto> val), buf_append out (frame ''OK''))))
      else (g, buf_append out (frame ''ERROR'')))"

definition frame_length :: "bytes \<Rightarrow> nat" where
  "frame_length b =
     unat (((ucast (b ! 0) OR push_bit 8 (ucast (b ! 1))) OR push_bit 16 (ucast (b ! 2))) OR push_bit 24 (ucast (b ! 3)) :: u32)"

definition try_one_request :: "kv \<Rightarrow> conn \<Rightarrow> kv \<times> conn \<times> bool" where
  "try_one_request g c =
     (if length (incoming c) < 4 then (g, c, False)
      else let len = frame_length (incoming c)
           in if len > k_max_msg then (g, c\<lparr>want_close := True\<rparr>, False)
              else if 4 + len > length (incoming c) then (g, c, False)
              else let (g', out) = do_request g (string_of_bytes (take len (drop 4 (incoming c)))) (outgoing c)
                   in (g', c\<lparr>outgoing := out, incoming := buf_consume (incoming c) (4 + len), want_write := True\<rparr>, True))"

lemma try_one_request_consumes:
  "try_one_request g c = (g', c', True) \<Longrightarrow> length (incoming c') < length (incoming c)"
  by (auto simp: try_one_request_def buf_consume_def Let_def split: if_splits prod.splits)

function request_loop :: "kv \<Rightarrow> conn \<Rightarrow> kv \<times> conn" where
  "request_loop g c =
     (let (g', c', again) = try_one_request g c in if again then request_loop g' c' else (g', c'))"
  by pat_completeness auto
termination
  by (relation "measure (\<lambda>(_, c). length (incoming c))") (auto dest!: try_one_request_consumes[OF sym])

declare request_loop.simps [simp del]

section \<open>Events\<close>

text \<open>
  What \<^verbatim>\<open>read\<close> and \<^verbatim>\<open>write\<close> answer. \<open>Broken_pipe\<close> is \<^verbatim>\<open>write\<close> to a connection that the client has reset: the system sends
  \<^verbatim>\<open>SIGPIPE\<close>, which the program neither handles nor ignores, so that \<^verbatim>\<open>write\<close> does not return and the process ends.
\<close>

datatype io_result = Would_block | Io_error | Broken_pipe | Bytes bytes | Wrote nat

datatype 'a outcome = Running 'a | Closed kv | Abort

text \<open>
  The buffer is grown to its full size before \<^verbatim>\<open>read\<close>; at the end of the stream and on an error
  it keeps the zero bytes, and the connection is marked for closing.
\<close>

definition handle_read :: "kv \<Rightarrow> conn \<Rightarrow> io_result \<Rightarrow> (kv \<times> conn) outcome" where
  "handle_read g c rv =
     (if \<not> length (incoming c) < k_max_msg then Abort
      else let cap = k_max_msg - length (incoming c);
               closing = c\<lparr>incoming := incoming c @ replicate cap 0, want_close := True\<rparr>
           in case rv of
                Would_block \<Rightarrow> Running (g, c)
              | Bytes bs \<Rightarrow>
                  let got = take cap bs
                  in if got = [] then Running (g, closing)
                     else Running (request_loop g (c\<lparr>incoming := incoming c @ got\<rparr>))
              | _ \<Rightarrow> Running (g, closing))"

definition handle_write :: "conn \<Rightarrow> io_result \<Rightarrow> conn option" where
  "handle_write c rv =
     (if \<not> length (outgoing c) > 0 then None
      else case rv of
             Broken_pipe \<Rightarrow> None
           | Would_block \<Rightarrow> Some c
           | Wrote n \<Rightarrow>
               let c1 = c\<lparr>outgoing := buf_consume (outgoing c) n\<rparr>
               in Some (if outgoing c1 = [] then c1\<lparr>want_read := True, want_write := False\<rparr> else c1)
           | _ \<Rightarrow> Some (c\<lparr>want_close := True\<rparr>))"

text \<open>
  The body of the main loop for one connection for which \<^verbatim>\<open>poll\<close> reported something. The arguments say
  whether \<^verbatim>\<open>POLLIN\<close> and \<^verbatim>\<open>POLLOUT\<close> are set and what \<^verbatim>\<open>read\<close> and \<^verbatim>\<open>write\<close> answer.
\<close>

definition dispatch_conn :: "kv \<Rightarrow> conn \<Rightarrow> bool \<Rightarrow> io_result \<Rightarrow> bool \<Rightarrow> io_result \<Rightarrow> (kv \<times> conn) outcome" where
  "dispatch_conn g c pollin rd pollout wr =
     (case (if want_read c \<and> pollin then handle_read g c rd else Running (g, c)) of
        Running (g1, con1) \<Rightarrow>
          (case (if want_write con1 \<and> pollout then handle_write con1 wr else Some con1) of
             None \<Rightarrow> Abort
           | Some con2 \<Rightarrow> if want_close con2 then Closed g1 else Running (g1, con2))
      | Closed g1 \<Rightarrow> Closed g1
      | Abort \<Rightarrow> Abort)"

text \<open>
  A whole round of the main loop for one connection: \<^verbatim>\<open>poll\<close> reports only the events that the
  round asked for.
\<close>

definition poll_conn :: "kv \<Rightarrow> conn \<Rightarrow> bool \<Rightarrow> io_result \<Rightarrow> bool \<Rightarrow> io_result \<Rightarrow> (kv \<times> conn) outcome" where
  "poll_conn g c readable rd writable wr =
     dispatch_conn g c (want_read c \<and> readable) rd (want_write c \<and> writable) wr"

section \<open>Streams of requests\<close>

text \<open>Requests that are answered and fit the buffer together with their length.\<close>

definition good_request :: "string \<Rightarrow> bool" where
  "good_request r =
     (length r \<le> 4092 \<and>
      (take 3 r = ''GET'' \<longrightarrow> CHR '' '' \<in> set r) \<and>
      (take 3 r = ''SET'' \<longrightarrow> (case find_from (CHR '' '') r 0 of None \<Rightarrow> False
         | Some i \<Rightarrow> CHR '' '' \<in> set (drop (i + 1) r))))"

lemma good_request_answers:
  "good_request r \<Longrightarrow> \<exists>g' v. do_request g r out = (g', out @ frame v)"
  by (auto simp: good_request_def do_request_def find_from_def buf_append_def Let_def
      split: option.splits if_splits)

fun run_reqs :: "kv \<Rightarrow> string list \<Rightarrow> bytes \<Rightarrow> kv \<times> bytes" where
  "run_reqs g [] out = (g, out)"
| "run_reqs g (r # rs) out = (let (g', out') = do_request g r out in run_reqs g' rs out')"

lemma frame_length_read: "frame_length b = unat (read_length (0 # b))"
  by (simp add: frame_length_def read_length_def)

lemma length_frame [simp]: "length (frame r) = 4 + length r"
  by (simp add: frame_def)

lemma frame_length_frame: "length r < 2 ^ 32 \<Longrightarrow> frame_length (frame r @ rest) = length r"
  by (simp add: frame_length_read frame_def read_length_le unat_of_nat)

lemma frame_length_prefix:
  assumes "length r < 2 ^ 32" "4 \<le> n"
  shows "frame_length (take n (frame r)) = length r"
proof -
  have "take n (frame r) = le_bytes32 (word_of_nat (length r)) @ take (n - 4) (bytes_of_string r)"
    using assms(2) by (simp add: frame_def)
  then show ?thesis using assms(1) by (simp add: frame_length_read read_length_le unat_of_nat)
qed

text \<open>The request at the front of the buffer and what follows it, when it is there in full and not too long.\<close>

definition next_request :: "bytes \<Rightarrow> (string \<times> bytes) option" where
  "next_request b =
     (if length b < 4 then None
      else let len = frame_length b
           in if len > k_max_msg \<or> 4 + len > length b then None
              else Some (string_of_bytes (take len (drop 4 b)), buf_consume b (4 + len)))"

interpretation frames: codec frame next_request "\<lambda>r. length r \<le> 4092"
proof
  show "next_request (frame r @ rest) = Some (r, rest)" if "length r \<le> 4092" for r rest
  proof -
    have "take (length r) (drop 4 (frame r @ rest)) = bytes_of_string r" by (simp add: frame_def)
    then show ?thesis using that frame_length_frame[of r rest]
      by (simp add: next_request_def k_max_msg_def buf_consume_def)
  qed
qed (simp add: next_request_def)

lemma try_request:
  assumes "next_request (incoming c) = Some (r, rest)" "do_request g r (outgoing c) = (g', out)"
  shows "try_one_request g c = (g', c\<lparr>outgoing := out, incoming := rest, want_write := True\<rparr>, True)"
  using assms by (auto simp: try_one_request_def next_request_def Let_def split: if_splits)

lemma try_frame:
  assumes "length r \<le> 4092" "incoming c = frame r @ rest" "do_request g r (outgoing c) = (g', out)"
  shows "try_one_request g c = (g', c\<lparr>outgoing := out, incoming := rest, want_write := True\<rparr>, True)"
  using try_request[OF _ assms(3)] frames.dec_enc[OF assms(1)] assms(2) by simp

lemma try_prefix:
  assumes "length r \<le> 4092" "incoming c = take n (frame r)" "n < length (frame r)"
  shows "try_one_request g c = (g, c, False)"
  using assms frame_length_prefix[of r n] by (auto simp: try_one_request_def k_max_msg_def Let_def)

lemma request_loop_stream:
  "incoming c = concat (map frame rs) @ take n (frame r) \<Longrightarrow> n < length (frame r) \<Longrightarrow>
   \<forall>x \<in> set (r # rs). length x \<le> 4092 \<Longrightarrow>
   request_loop g c = (fst (run_reqs g rs (outgoing c)),
     c\<lparr>incoming := take n (frame r), outgoing := snd (run_reqs g rs (outgoing c)),
       want_write := want_write c \<or> rs \<noteq> []\<rparr>)"
proof (induction rs arbitrary: g c)
  case Nil
  then show ?case using try_prefix[of r c n g] by (simp add: request_loop.simps[of g c])
next
  case (Cons x rs)
  obtain g' out where d: "do_request g x (outgoing c) = (g', out)" by force
  let ?c1 = "c\<lparr>outgoing := out, incoming := concat (map frame rs) @ take n (frame r), want_write := True\<rparr>"
  have "try_one_request g c = (g', ?c1, True)"
    using try_frame[of x c "concat (map frame rs) @ take n (frame r)" g g' out] d Cons.prems by simp
  then have "request_loop g c = request_loop g' ?c1" by (simp add: request_loop.simps[of g c])
  then show ?case using Cons.IH[of ?c1 g'] Cons.prems d by simp
qed

lemma run_reqs_grows:
  "\<forall>r \<in> set rs. good_request r \<Longrightarrow> rs \<noteq> [] \<Longrightarrow> snd (run_reqs g rs out) \<noteq> []"
proof (induction rs arbitrary: g out)
  case (Cons r rs)
  obtain g' v where d: "do_request g r out = (g', out @ frame v)" using good_request_answers[of r g out] Cons.prems by auto
  have ne: "out @ frame v \<noteq> []" by (simp add: frame_def le_bytes32_def)
  show ?case using Cons.IH[of g' "out @ frame v"] Cons.prems d ne by (cases "rs = []") auto
qed simp

lemma next_of_prefix:
  assumes "length r \<le> 4092" "n < length (frame r)"
  shows "next_request (take n (frame r)) = None"
  using assms frame_length_prefix[of r n] by (auto simp: next_request_def k_max_msg_def Let_def)

section \<open>Properties\<close>

lemma handle_read_stream:
  assumes "length (incoming c) < k_max_msg" "got \<noteq> []" "length (incoming c) + length got \<le> k_max_msg"
    and "incoming c @ got = concat (map frame rs) @ take n (frame r)" "n < length (frame r)"
    and "\<forall>x \<in> set (r # rs). good_request x" "want_write c \<longrightarrow> outgoing c \<noteq> []" "\<not> want_close c"
  shows "\<exists>c'. handle_read g c (Bytes got) = Running (fst (run_reqs g rs (outgoing c)), c') \<and>
    incoming c' = take n (frame r) \<and> outgoing c' = snd (run_reqs g rs (outgoing c)) \<and>
    length (incoming c') < k_max_msg \<and> (want_write c' \<longrightarrow> outgoing c' \<noteq> []) \<and> \<not> want_close c'"
proof -
  have len: "\<forall>x \<in> set (r # rs). length x \<le> 4092" using assms(6) by (auto simp: good_request_def)
  let ?c' = "c\<lparr>incoming := take n (frame r), outgoing := snd (run_reqs g rs (outgoing c)),
    want_write := want_write c \<or> rs \<noteq> []\<rparr>"
  have loop: "request_loop g (c\<lparr>incoming := incoming c @ got\<rparr>) = (fst (run_reqs g rs (outgoing c)), ?c')"
    using request_loop_stream[of "c\<lparr>incoming := incoming c @ got\<rparr>" rs n r g] assms(4,5) len by simp
  have "take (k_max_msg - length (incoming c)) got = got" using assms(3) by simp
  then have "handle_read g c (Bytes got) = Running (fst (run_reqs g rs (outgoing c)), ?c')"
    using assms(1,2) loop by (simp add: handle_read_def Let_def)
  moreover have "length (take n (frame r)) < k_max_msg" using assms(5) len by (simp add: k_max_msg_def)
  moreover have "want_write c \<or> rs \<noteq> [] \<Longrightarrow> snd (run_reqs g rs (outgoing c)) \<noteq> []"
    using run_reqs_grows[of rs g "outgoing c"] assms(6,7) by (cases "rs = []") auto
  ultimately show ?thesis using assms(8) by (intro exI[of _ ?c']) auto
qed

text \<open>
  Requests that are complete in the buffer after a read are executed in order and their
  responses appended to the output; what is left is the beginning of the next request, and the
  server does not abort: neither now nor, when every request is answered, on the next read or
  write of this connection.
\<close>

theorem stream_of_requests_served:
  assumes "length (incoming c) < k_max_msg" "got \<noteq> []" "length (incoming c) + length got \<le> k_max_msg"
    and "incoming c @ got = concat (map frame rs) @ take n (frame r)" "n < length (frame r)"
    and "\<forall>x \<in> set (r # rs). good_request x" "want_write c \<longrightarrow> outgoing c \<noteq> []" "\<not> want_close c"
  shows "\<exists>c'. handle_read g c (Bytes got) = Running (fst (run_reqs g rs (outgoing c)), c') \<and>
    incoming c' = take n (frame r) \<and> outgoing c' = snd (run_reqs g rs (outgoing c)) \<and>
    length (incoming c') < k_max_msg \<and> (want_write c' \<longrightarrow> outgoing c' \<noteq> []) \<and> \<not> want_close c'"
  by (rule handle_read_stream[OF assms])

text \<open>
  Seven bytes abort the server: a request \<^verbatim>\<open>GET\<close> without a blank is executed without a
  response but still asks for a write, and the next time the socket is writable the assertion
  that there is output fails.
\<close>

theorem get_without_key_aborts:
  "\<exists>c. poll_conn g (conn_accepted fd) True (Bytes (frame ''GET'')) False wr1 = Running (g, c) \<and>
    poll_conn g c False rd True wr2 = Abort"
proof -
  let ?c = "(conn_accepted fd)\<lparr>incoming := frame ''GET''\<rparr>"
  have "do_request g ''GET'' [] = (g, [])" by (simp add: do_request_def find_from_def)
  then have "request_loop g ?c = (g, (conn_accepted fd)\<lparr>want_write := True\<rparr>)"
    using request_loop_stream[of ?c "[''GET'']" 0 "[]" g] by (simp add: conn_accepted_def)
  moreover have "frame ''GET'' \<noteq> []" "length (frame ''GET'') \<le> 4096" by (simp_all add: frame_def le_bytes32_def)
  ultimately have "handle_read g (conn_accepted fd) (Bytes (frame ''GET'')) = Running (g, (conn_accepted fd)\<lparr>want_write := True\<rparr>)"
    by (simp add: handle_read_def k_max_msg_def conn_accepted_def)
  then show ?thesis
    by (intro exI[of _ "(conn_accepted fd)\<lparr>want_write := True\<rparr>"]) (simp add: poll_conn_def dispatch_conn_def handle_write_def conn_accepted_def)
qed

text \<open>
  A request of 4093 to 4096 bytes, which the length check admits, can never complete, because
  the input buffer holds 4096 bytes including the length: when the buffer is full the request is
  still incomplete, and the next readable event fails the assertion that there is room.
\<close>

theorem request_of_maximal_length_aborts:
  assumes "4093 \<le> length r" "length r \<le> k_max_msg"
  shows "\<exists>c. poll_conn g (conn_accepted fd) True (Bytes (take 4096 (frame r))) False wr1 = Running (g, c) \<and>
    poll_conn g c True rd False wr2 = Abort"
proof -
  let ?b = "take 4096 (frame r)"
  let ?c = "(conn_accepted fd)\<lparr>incoming := ?b\<rparr>"
  have b: "length ?b = 4096" "?b \<noteq> []" using assms by (auto simp flip: length_greater_0_conv)
  have "frame_length ?b = length r" using assms(2) frame_length_prefix[of r 4096] by (simp add: k_max_msg_def)
  then have "try_one_request g ?c = (g, ?c, False)" using assms b by (simp add: try_one_request_def k_max_msg_def)
  then have "request_loop g ?c = (g, ?c)" by (simp add: request_loop.simps)
  then have "handle_read g (conn_accepted fd) (Bytes ?b) = Running (g, ?c)"
    using b by (simp add: handle_read_def k_max_msg_def conn_accepted_def)
  moreover have "handle_read g ?c rd = Abort" using b by (simp add: handle_read_def k_max_msg_def)
  ultimately show ?thesis by (intro exI[of _ ?c]) (simp add: poll_conn_def dispatch_conn_def conn_accepted_def)
qed

lemma find_set_key:
  assumes "CHR '' '' \<notin> set key"
  shows "do_request g (''SET '' @ key @ '' '' @ val) out = (g(key \<mapsto> val), out @ frame ''OK'')"
proof -
  let ?cmd = "''SET '' @ key @ '' '' @ val"
  have "takeWhile (\<lambda>x. x \<noteq> CHR '' '') (key @ '' '' @ val) = key"
    using takeWhile_until[OF assms, of val] by simp
  moreover have "drop 4 ?cmd = key @ '' '' @ val" by simp
  ultimately have "find_from (CHR '' '') ?cmd 0 = Some 3" "find_from (CHR '' '') ?cmd 4 = Some (4 + length key)"
    by (simp_all add: find_from_def)
  moreover have "drop (5 + length key) ?cmd = val" by (simp add: numeral_eq_Suc)
  ultimately show ?thesis by (simp add: do_request_def buf_append_def)
qed

text \<open>
  \<^verbatim>\<open>SET\<close> and \<^verbatim>\<open>GET\<close> agree: for a key without blanks, a \<^verbatim>\<open>GET\<close> after a \<^verbatim>\<open>SET\<close> of
  that key returns the value, whatever bytes it has, and other keys are not affected.
\<close>

theorem set_then_get:
  assumes "CHR '' '' \<notin> set key"
  shows "do_request (fst (do_request g (''SET '' @ key @ '' '' @ val) out)) (''GET '' @ key) out' =
      ((fst (do_request g (''SET '' @ key @ '' '' @ val) out)), out' @ frame val) \<and>
    (\<forall>k. k \<noteq> key \<longrightarrow> fst (do_request g (''SET '' @ key @ '' '' @ val) out) k = g k)"
  unfolding find_set_key[OF assms] by (simp add: do_request_def find_from_def buf_append_def)

section \<open>Witnesses\<close>

theorem stream_of_requests_served_witness:
  "\<exists>c'. handle_read Map.empty (conn_accepted 4) (Bytes (frame ''PING'')) = Running (Map.empty, c') \<and>
     outgoing c' = frame ''PONG''"
proof -
  have "good_request ''PING''" "frame ''PING'' \<noteq> []"
    by (simp_all add: good_request_def frame_def le_bytes32_def)
  then show ?thesis
    using stream_of_requests_served[of "conn_accepted 4" "frame ''PING''" "[''PING'']" 0 "''PING''" Map.empty]
    by (auto simp: conn_accepted_def k_max_msg_def do_request_def buf_append_def)
qed

theorem request_of_maximal_length_aborts_witness:
  "\<exists>c. poll_conn Map.empty (conn_accepted 4) True (Bytes (take 4096 (frame (replicate 4093 (CHR ''x''))))) False Would_block =
      Running (Map.empty, c) \<and> poll_conn Map.empty c True Would_block False Would_block = Abort"
  by (rule request_of_maximal_length_aborts) (simp_all add: k_max_msg_def)

theorem set_then_get_witness:
  "snd (do_request (fst (do_request Map.empty (''SET '' @ ''k'' @ '' '' @ ''a b'') [])) (''GET '' @ ''k'') []) = frame ''a b''"
  using set_then_get[of "''k''" Map.empty "''a b''" "[]" "[]"] by simp

end
