(* ===== verification/Poll_Loop.thy ===== *)
theory Poll_Loop
  imports Simple_Server "HOL-Library.Sublist"
begin

text \<open>
  The main loop of \<^verbatim>\<open>src/src/server/simple_server.cpp\<close>: it accepts connections, keeps them in a vector
  indexed by the descriptor, asks \<^verbatim>\<open>poll\<close> about all of them and serves those with events. What
  the system calls answer in a round is the argument \<open>poll_answer\<close>. The outcomes that end the program
  are \<open>Died\<close>, for \<^verbatim>\<open>die\<close> and for a failed assertion, and \<open>Null_deref\<close>, for the use of a
  connection that is not there.
\<close>

section \<open>State\<close>

text \<open>
  The vector \<^verbatim>\<open>fd2conn\<close> and the map. The last three fields are not kept by the code; they
  record what happened at the sockets: the bytes that \<^verbatim>\<open>read\<close> delivered and \<^verbatim>\<open>write\<close> took on the
  connection that a descriptor belongs to, and how many connections had this descriptor.
\<close>

record poll_server =
  listen_fd :: int
  fd2conn :: "conn option list"
  g_map :: kv
  received :: "int \<Rightarrow> bytes"
  sent :: "int \<Rightarrow> bytes"
  generation :: "int \<Rightarrow> nat"

record pollfd =
  pfd_fd :: int
  ask_in :: bool
  ask_out :: bool

text \<open>What the system answers in a round: readable, writable and failed descriptors, and the calls.\<close>

record poll_answer =
  poll_rv :: int
  is_readable :: "int \<Rightarrow> bool"
  is_writable :: "int \<Rightarrow> bool"
  is_failed :: "int \<Rightarrow> bool"
  accept_rv :: int
  nb_ok :: bool
  read_rv :: "int \<Rightarrow> io_result"
  write_rv :: "int \<Rightarrow> io_result"

datatype 'a poll_result = Serving 'a | Died | Null_deref

section \<open>Operations\<close>

text \<open>
  \<^verbatim>\<open>fd_set_nb\<close>: \<open>errno1\<close> and \<open>errno2\<close> are \<^verbatim>\<open>errno\<close> after \<^verbatim>\<open>F_GETFL\<close>, which answers \<open>flags\<close>, and after \<^verbatim>\<open>F_SETFL\<close>; the result has
  the flags that are set. The callers below are told whether it returned.
\<close>

definition fd_set_nb :: "int \<Rightarrow> u32 \<Rightarrow> int \<Rightarrow> u32 poll_result" where
  "fd_set_nb errno1 flags errno2 =
     (if errno1 \<noteq> 0 then Died else if errno2 \<noteq> 0 then Died else Serving (flags OR 0x800))"

definition handle_accept :: "int \<Rightarrow> bool \<Rightarrow> conn option poll_result" where
  "handle_accept connfd nb =
     (if connfd < 0 then Serving None else if \<not> nb then Died else Serving (Some (conn_accepted connfd)))"

definition poll_entry :: "conn option \<Rightarrow> pollfd list" where
  "poll_entry e =
     (case e of
        None \<Rightarrow> []
      | Some c \<Rightarrow>
          if want_read c \<or> want_write c then [\<lparr>pfd_fd = conn_fd c, ask_in = want_read c, ask_out = want_write c\<rparr>] else [])"

definition poll_args :: "poll_server \<Rightarrow> pollfd list" where
  "poll_args s = \<lparr>pfd_fd = listen_fd s, ask_in = True, ask_out = False\<rparr> # concat (map poll_entry (fd2conn s))"

text \<open>\<^verbatim>\<open>poll\<close> reports the events that were asked for, and failures in any case.\<close>

definition rev_in :: "poll_answer \<Rightarrow> pollfd \<Rightarrow> bool" where
  "rev_in a p = (ask_in p \<and> is_readable a (pfd_fd p))"

definition rev_out :: "poll_answer \<Rightarrow> pollfd \<Rightarrow> bool" where
  "rev_out a p = (ask_out p \<and> is_writable a (pfd_fd p))"

definition revents :: "poll_answer \<Rightarrow> pollfd \<Rightarrow> bool" where
  "revents a p = (rev_in a p \<or> rev_out a p \<or> is_failed a (pfd_fd p))"

definition add_conn :: "conn option list \<Rightarrow> conn \<Rightarrow> conn option list" where
  "add_conn v c =
     (let v' = (if conn_fd c \<ge> int (length v) then v @ replicate (nat (conn_fd c) + 1 - length v) None else v)
      in v'[nat (conn_fd c) := Some c])"

definition accept_conn :: "poll_server \<Rightarrow> poll_answer \<Rightarrow> poll_server poll_result" where
  "accept_conn s a =
     (case handle_accept (accept_rv a) (nb_ok a) of
        Serving None \<Rightarrow> Serving s
      | Serving (Some c) \<Rightarrow> Serving (s\<lparr>fd2conn := add_conn (fd2conn s) c, received := (received s)(conn_fd c := []),
          sent := (sent s)(conn_fd c := []), generation := (generation s)(conn_fd c := Suc (generation s (conn_fd c)))\<rparr>)
      | Died \<Rightarrow> Died
      | Null_deref \<Rightarrow> Null_deref)"

definition conn_at :: "poll_server \<Rightarrow> int \<Rightarrow> conn option" where
  "conn_at s fd = (if 0 \<le> fd \<and> nat fd < length (fd2conn s) then fd2conn s ! nat fd else None)"

text \<open>The bytes that a round moves on a connection.\<close>

definition bytes_read :: "conn \<Rightarrow> bool \<Rightarrow> io_result \<Rightarrow> bytes" where
  "bytes_read c pollin rd =
     (if want_read c \<and> pollin then case rd of Bytes bs \<Rightarrow> take (k_max_msg - length (incoming c)) bs | _ \<Rightarrow> [] else [])"

definition bytes_written :: "kv \<Rightarrow> conn \<Rightarrow> bool \<Rightarrow> io_result \<Rightarrow> bool \<Rightarrow> io_result \<Rightarrow> bytes" where
  "bytes_written g c pollin rd pollout wr =
     (case (if want_read c \<and> pollin then handle_read g c rd else Running (g, c)) of
        Running (g1, con1) \<Rightarrow>
          if want_write con1 \<and> pollout then case wr of Wrote n \<Rightarrow> take n (outgoing con1) | _ \<Rightarrow> [] else []
      | _ \<Rightarrow> [])"

text \<open>The server after these bytes have moved, with entry \<open>e\<close> for descriptor \<open>fd\<close> and map \<open>g\<close>.\<close>

definition put_conn :: "poll_server \<Rightarrow> int \<Rightarrow> conn option \<Rightarrow> kv \<Rightarrow> poll_server" where
  "put_conn s fd e g = s\<lparr>fd2conn := (fd2conn s)[nat fd := e], g_map := g\<rparr>"

definition moved :: "poll_answer \<Rightarrow> pollfd \<Rightarrow> conn \<Rightarrow> poll_server \<Rightarrow> poll_server" where
  "moved a p c s =
     (let fd = pfd_fd p
      in s\<lparr>received := (received s)(fd := received s fd @ bytes_read c (rev_in a p) (read_rv a fd)),
           sent := (sent s)(fd := sent s fd @ bytes_written (g_map s) c (rev_in a p) (read_rv a fd) (rev_out a p) (write_rv a fd))\<rparr>)"

fun serve_ready :: "poll_answer \<Rightarrow> poll_server \<Rightarrow> pollfd list \<Rightarrow> poll_server poll_result" where
  "serve_ready a s [] = Serving s"
| "serve_ready a s (p # ps) =
     (if \<not> revents a p then serve_ready a s ps
      else case conn_at s (pfd_fd p) of
             None \<Rightarrow> Null_deref
           | Some c \<Rightarrow>
               (case dispatch_conn (g_map s) c (rev_in a p) (read_rv a (pfd_fd p)) (rev_out a p) (write_rv a (pfd_fd p)) of
                  Abort \<Rightarrow> Died
                | Closed g \<Rightarrow> serve_ready a (put_conn (moved a p c s) (conn_fd c) None g) ps
                | Running (g, c') \<Rightarrow> serve_ready a (put_conn (moved a p c s) (pfd_fd p) (Some c') g) ps))"

definition poll_round :: "poll_server \<Rightarrow> poll_answer \<Rightarrow> poll_server poll_result" where
  "poll_round s a =
     (let args = poll_args s
      in if poll_rv a < 0 then Died
         else case (if revents a (hd args) then accept_conn s a else Serving s) of
                Serving s1 \<Rightarrow> serve_ready a s1 (tl args)
              | Died \<Rightarrow> Died
              | Null_deref \<Rightarrow> Null_deref)"

text \<open>The set-up, and the server after any number of rounds.\<close>

definition listening :: "int \<Rightarrow> poll_server" where
  "listening fd = \<lparr>listen_fd = fd, fd2conn = [], g_map = Map.empty, received = (\<lambda>_. []), sent = (\<lambda>_. []), generation = (\<lambda>_. 0)\<rparr>"

definition simple_setup :: "int \<Rightarrow> int \<Rightarrow> int \<Rightarrow> bool \<Rightarrow> poll_server poll_result" where
  "simple_setup fd bind_rv listen_rv nb =
     (if fd < 0 \<or> bind_rv \<noteq> 0 \<or> listen_rv \<noteq> 0 \<or> \<not> nb then Died else Serving (listening fd))"

fun serve_rounds :: "poll_server \<Rightarrow> poll_answer list \<Rightarrow> poll_server poll_result" where
  "serve_rounds s [] = Serving s"
| "serve_rounds s (a # as) = (case poll_round s a of Serving s1 \<Rightarrow> serve_rounds s1 as | r \<Rightarrow> r)"

definition simple_main :: "int \<Rightarrow> int \<Rightarrow> int \<Rightarrow> bool \<Rightarrow> poll_answer list \<Rightarrow> poll_server poll_result" where
  "simple_main fd bind_rv listen_rv nb as =
     (case simple_setup fd bind_rv listen_rv nb of Serving s \<Rightarrow> serve_rounds s as | r \<Rightarrow> r)"

section \<open>The table of connections\<close>

definition table_ok :: "poll_server \<Rightarrow> bool" where
  "table_ok s = (\<forall>i < length (fd2conn s). \<forall>c. fd2conn s ! i = Some c \<longrightarrow> conn_fd c = int i \<and> \<not> want_close c)"

lemma try_one_request_fd: "try_one_request g c = (g', c', b) \<Longrightarrow> conn_fd c' = conn_fd c"
  by (auto simp: try_one_request_def Let_def split: if_splits prod.splits)

lemma request_loop_fd: "request_loop g c = (g', c') \<Longrightarrow> conn_fd c' = conn_fd c"
proof (induction g c rule: request_loop.induct)
  case (1 g c)
  obtain g1 con1 b where t: "try_one_request g c = (g1, con1, b)" by (cases "try_one_request g c") auto
  show ?case using "1.IH"[OF t[symmetric] refl] "1.prems" try_one_request_fd[OF t]
    by (auto simp: t request_loop.simps[of g c] split: if_splits)
qed

lemma handle_read_fd: "handle_read g c rd = Running (g', c') \<Longrightarrow> conn_fd c' = conn_fd c"
  by (auto simp: handle_read_def Let_def split: if_splits io_result.splits dest: request_loop_fd)

lemma handle_write_fd: "handle_write c wr = Some c' \<Longrightarrow> conn_fd c' = conn_fd c"
  by (auto simp: handle_write_def Let_def split: if_splits io_result.splits)

lemma dispatch_conn_fd:
  "dispatch_conn g c pollin rd pollout wr = Running (g', c') \<Longrightarrow> conn_fd c' = conn_fd c \<and> \<not> want_close c'"
  by (auto simp: dispatch_conn_def split: outcome.splits option.splits if_splits dest!: handle_read_fd handle_write_fd)

lemma conn_at_fd: "table_ok s \<Longrightarrow> conn_at s fd = Some c \<Longrightarrow> conn_fd c = fd \<and> \<not> want_close c \<and> 0 \<le> fd"
  by (fastforce simp: conn_at_def table_ok_def split: if_splits)

lemma conn_at_put:
  "0 \<le> fd \<Longrightarrow> conn_at s fd \<noteq> None \<Longrightarrow> conn_at (put_conn s fd e g) fd' = (if fd' = fd then e else conn_at s fd')"
  by (auto simp: conn_at_def put_conn_def nth_list_update split: if_splits)

lemma conn_at_update [simp]:
  "conn_at (s\<lparr>g_map := g\<rparr>) fd = conn_at s fd" "conn_at (s\<lparr>received := r\<rparr>) fd = conn_at s fd"
  "conn_at (s\<lparr>sent := w\<rparr>) fd = conn_at s fd" "conn_at (s\<lparr>generation := n\<rparr>) fd = conn_at s fd"
  by (simp_all add: conn_at_def)

lemma conn_at_moved [simp]: "conn_at (moved a p c s) fd = conn_at s fd"
  by (simp add: moved_def Let_def)

lemma table_ok_iff: "table_ok s \<longleftrightarrow> (\<forall>fd c. conn_at s fd = Some c \<longrightarrow> conn_fd c = fd \<and> \<not> want_close c)"
proof
  assume r: "\<forall>fd c. conn_at s fd = Some c \<longrightarrow> conn_fd c = fd \<and> \<not> want_close c"
  have "conn_at s (int i) = fd2conn s ! i" if "i < length (fd2conn s)" for i using that by (simp add: conn_at_def)
  then show "table_ok s" using r unfolding table_ok_def by metis
qed (use conn_at_fd in blast)

lemma conn_at_accept:
  assumes "accept_conn s a = Serving s1"
  shows "conn_at s1 fd = (if fd = accept_rv a \<and> 0 \<le> fd then Some (conn_accepted fd) else conn_at s fd)"
proof (cases "accept_rv a < 0")
  case True
  then show ?thesis using assms by (auto simp: accept_conn_def handle_accept_def)
next
  case False
  then obtain i where i: "accept_rv a = int i" by (metis nonneg_int_cases not_less)
  have fd: "conn_fd (conn_accepted (int i)) = int i" by (simp add: conn_accepted_def)
  have "fd2conn s1 = add_conn (fd2conn s) (conn_accepted (int i))"
    using assms False i by (auto simp: accept_conn_def handle_accept_def split: if_splits)
  then show ?thesis using False i fd
    by (auto simp: conn_at_def add_conn_def Let_def nth_append nth_list_update split: if_splits)
qed

lemma accept_conn_result: "accept_conn s a \<noteq> Null_deref"
  by (auto simp: accept_conn_def handle_accept_def)

lemma accept_table_ok: "table_ok s \<Longrightarrow> accept_conn s a = Serving s1 \<Longrightarrow> table_ok s1"
  unfolding table_ok_iff using conn_at_accept[of s a s1] by (auto simp: conn_accepted_def)

text \<open>Every descriptor is asked about at most once, and only when it has a connection.\<close>

lemma poll_entry_ok: "p \<in> set (poll_entry e) \<Longrightarrow> \<exists>c. e = Some c \<and> pfd_fd p = conn_fd c \<and> ask_in p = want_read c \<and> ask_out p = want_write c"
  by (auto simp: poll_entry_def split: option.splits if_splits)

lemma poll_entries_of:
  assumes "\<And>i c. i < length v \<Longrightarrow> v ! i = Some c \<Longrightarrow> conn_fd c = int (n + i)" "p \<in> set (concat (map poll_entry v))"
  shows "\<exists>i c. i < length v \<and> v ! i = Some c \<and> pfd_fd p = int (n + i)"
proof -
  obtain e where e: "e \<in> set v" "p \<in> set (poll_entry e)" using assms(2) by auto
  then obtain i where i: "i < length v" "v ! i = e" by (auto simp: in_set_conv_nth)
  obtain c where "e = Some c" "pfd_fd p = conn_fd c" using poll_entry_ok[OF e(2)] by auto
  then show ?thesis using assms(1) i by auto
qed

lemma poll_entries_distinct:
  "(\<And>i c. i < length v \<Longrightarrow> v ! i = Some c \<Longrightarrow> conn_fd c = int (n + i)) \<Longrightarrow> distinct (map pfd_fd (concat (map poll_entry v)))"
proof (induction v arbitrary: n)
  case (Cons e v)
  have v: "\<And>i c. i < length v \<Longrightarrow> v ! i = Some c \<Longrightarrow> conn_fd c = int (Suc n + i)" using Cons.prems[of "Suc _"] by simp
  have e: "pfd_fd p = int n" if "p \<in> set (poll_entry e)" for p
    using poll_entry_ok[OF that] Cons.prems[of 0] by auto
  have "distinct (map pfd_fd (poll_entry e))" by (simp add: poll_entry_def split: option.split)
  moreover have "pfd_fd p \<noteq> pfd_fd q" if p: "p \<in> set (poll_entry e)" and q: "q \<in> set (concat (map poll_entry v))" for p q
  proof -
    obtain i where "pfd_fd q = int (Suc n + i)" using poll_entries_of[OF v q] by blast
    then show ?thesis using e[OF p] by simp
  qed
  then have "pfd_fd ` set (poll_entry e) \<inter> pfd_fd ` set (concat (map poll_entry v)) = {}" by blast
  ultimately show ?case using Cons.IH[OF v] by simp
qed simp

lemma poll_args_ok:
  assumes "table_ok s"
  shows "distinct (map pfd_fd (tl (poll_args s)))" "\<forall>p \<in> set (tl (poll_args s)). conn_at s (pfd_fd p) \<noteq> None"
proof -
  have v: "conn_fd c = int (0 + i)" if "i < length (fd2conn s)" "fd2conn s ! i = Some c" for i c
    using assms that by (simp add: table_ok_def)
  show "distinct (map pfd_fd (tl (poll_args s)))" using poll_entries_distinct[of "fd2conn s" 0] v by (simp add: poll_args_def)
  show "\<forall>p \<in> set (tl (poll_args s)). conn_at s (pfd_fd p) \<noteq> None"
    using poll_entries_of[of "fd2conn s" 0, OF v] by (fastforce simp: poll_args_def conn_at_def)
qed

lemma serve_ready_table:
  "table_ok s \<Longrightarrow> distinct (map pfd_fd ps) \<Longrightarrow> \<forall>p \<in> set ps. conn_at s (pfd_fd p) \<noteq> None \<Longrightarrow>
   serve_ready a s ps \<noteq> Null_deref \<and> (\<forall>s'. serve_ready a s ps = Serving s' \<longrightarrow> table_ok s')"
proof (induction ps arbitrary: s)
  case (Cons p ps)
  obtain c where c: "conn_at s (pfd_fd p) = Some c" using Cons.prems(3) by auto
  have fd: "conn_fd c = pfd_fd p" "0 \<le> pfd_fd p" using conn_at_fd[OF Cons.prems(1) c] by auto
  have ne: "pfd_fd q \<noteq> pfd_fd p" if "q \<in> set ps" for q
    using Cons.prems(2) imageI[OF that, of pfd_fd] by auto
  have step: "serve_ready a (put_conn (moved a p c s) (pfd_fd p) e g) ps \<noteq> Null_deref \<and>
     (\<forall>s'. serve_ready a (put_conn (moved a p c s) (pfd_fd p) e g) ps = Serving s' \<longrightarrow> table_ok s')"
    if "\<forall>c'. e = Some c' \<longrightarrow> conn_fd c' = pfd_fd p \<and> \<not> want_close c'" for e g
  proof (rule Cons.IH)
    show "table_ok (put_conn (moved a p c s) (pfd_fd p) e g)"
      using that Cons.prems(1) c fd by (auto simp: table_ok_iff conn_at_put)
  qed (use Cons.prems c fd in \<open>auto simp: conn_at_put ne\<close>)
  show ?case
  proof (cases "revents a p")
    case False
    then show ?thesis using Cons.IH[OF Cons.prems(1)] Cons.prems by simp
  next
    case True
    show ?thesis
    proof (cases "dispatch_conn (g_map s) c (rev_in a p) (read_rv a (pfd_fd p)) (rev_out a p) (write_rv a (pfd_fd p))")
      case (Running gc)
      then show ?thesis using True c step[of "Some (snd gc)" "fst gc"] dispatch_conn_fd[of "g_map s" c _ _ _ _ "fst gc" "snd gc"] fd
        by (simp add: case_prod_beta)
    qed (use True c fd step[of None] in simp_all)
  qed
qed simp

lemma poll_round_table:
  assumes "table_ok s"
  shows "poll_round s a \<noteq> Null_deref \<and> (\<forall>s'. poll_round s a = Serving s' \<longrightarrow> table_ok s')"
proof -
  have run: "serve_ready a s1 (tl (poll_args s)) \<noteq> Null_deref \<and> (\<forall>s'. serve_ready a s1 (tl (poll_args s)) = Serving s' \<longrightarrow> table_ok s')"
    if "table_ok s1" "\<forall>p \<in> set (tl (poll_args s)). conn_at s1 (pfd_fd p) \<noteq> None" for s1
    by (rule serve_ready_table[OF that(1) poll_args_ok(1)[OF assms] that(2)])
  show ?thesis
  proof (cases "poll_rv a < 0 \<or> \<not> revents a (hd (poll_args s))")
    case True
    then show ?thesis using run[OF assms poll_args_ok(2)[OF assms]] by (auto simp: poll_round_def Let_def)
  next
    case False
    show ?thesis
    proof (cases "accept_conn s a")
      case (Serving s1)
      have "\<forall>p \<in> set (tl (poll_args s)). conn_at s1 (pfd_fd p) \<noteq> None"
        using conn_at_accept[OF Serving] poll_args_ok(2)[OF assms] by simp
      then show ?thesis using False Serving run[OF accept_table_ok[OF assms Serving]] by (simp add: poll_round_def)
    qed (use False accept_conn_result[of s a] in \<open>auto simp: poll_round_def\<close>)
  qed
qed

lemma serve_rounds_table: "table_ok s \<Longrightarrow> serve_rounds s as \<noteq> Null_deref \<and> (\<forall>s'. serve_rounds s as = Serving s' \<longrightarrow> table_ok s')"
proof (induction as arbitrary: s)
  case (Cons a as)
  then show ?case using poll_round_table[OF Cons.prems, of a] by (cases "poll_round s a") auto
qed simp

lemma listening_table: "table_ok (listening fd)"
  by (simp add: table_ok_def listening_def)

section \<open>Clients that send good requests\<close>

text \<open>
  A connection is named by its descriptor and the number of connections this descriptor had. A log
  lists requests with the connection they came from; \<open>log_map\<close> and \<open>log_out\<close> are the map and
  the responses to one connection when the requests of a log are executed one after the other.
\<close>

type_synonym label = "int \<times> nat"


fun log_map :: "kv \<Rightarrow> (label \<times> string) list \<Rightarrow> kv" where
  "log_map g [] = g"
| "log_map g ((l, r) # lg) = log_map (fst (do_request g r [])) lg"

fun log_out :: "kv \<Rightarrow> (label \<times> string) list \<Rightarrow> label \<Rightarrow> bytes" where
  "log_out g [] l = []"
| "log_out g ((l', r) # lg) l =
     (if l' = l then snd (do_request g r []) else []) @ log_out (fst (do_request g r [])) lg l"

definition requests_of :: "(label \<times> string) list \<Rightarrow> label \<Rightarrow> string list" where
  "requests_of lg l = map snd (filter (\<lambda>e. fst e = l) lg)"

definition frames :: "string list \<Rightarrow> bytes" where
  "frames rs = concat (map frame rs)"

lemma frames_simps [simp]: "frames [] = []" "frames (r # rs) = frame r @ frames rs" "frames (rs @ rs') = frames rs @ frames rs'"
  by (simp_all add: frames_def)

lemma log_map_append [simp]: "log_map g (lg @ lg') = log_map (log_map g lg) lg'"
  by (induction lg arbitrary: g) auto

lemma log_out_append [simp]: "log_out g (lg @ lg') l = log_out g lg l @ log_out (log_map g lg) lg' l"
  by (induction lg arbitrary: g) auto

lemma requests_of_append [simp]: "requests_of (lg @ lg') l = requests_of lg l @ requests_of lg' l"
  by (simp add: requests_of_def)

lemma requests_of_one [simp]: "requests_of (map (Pair l) rs) l' = (if l' = l then rs else [])"
  by (auto simp: requests_of_def filter_map comp_def)




text \<open>A part of a stream of requests is some whole requests and the beginning of the next.\<close>

lemma frame_nonempty: "0 < length (frame r)"
  by simp



















section \<open>Properties\<close>

text \<open>
  C29: The simple server never uses a connection that is not there, whatever \<^verbatim>\<open>poll\<close>, \<^verbatim>\<open>accept\<close>, \<^verbatim>\<open>read\<close>
  and \<^verbatim>\<open>write\<close> answer, in any number of rounds: while it runs, every entry of \<^verbatim>\<open>fd2conn\<close> is the open connection
  of the descriptor it is stored under, and each descriptor is polled at most once.
\<close>

theorem no_missing_connection:
  "simple_main fd bind_rv listen_rv nb as \<noteq> Null_deref \<and>
   (\<forall>s. simple_main fd bind_rv listen_rv nb as = Serving s \<longrightarrow> table_ok s \<and> distinct (map pfd_fd (tl (poll_args s))))"
  using serve_rounds_table[OF listening_table] poll_args_ok(1)
  by (auto simp: simple_main_def simple_setup_def)

theorem no_missing_connection_witness:
  "table_ok (listening 3) \<and> distinct (map pfd_fd (tl (poll_args (listening 3))))"
  using no_missing_connection[of 3 0 0 True "[]"] by (simp add: simple_main_def simple_setup_def)




end
