(* ===== verification/Event_Loop.thy ===== *)
theory Event_Loop
  imports Connection "HOL-Library.AList"
begin

text \<open>
  \<^verbatim>\<open>ConnectionManager\<close> and \<^verbatim>\<open>EventLoop\<close> of \<^verbatim>\<open>src/src/event/event_loop.{hpp,cpp}\<close>. The
  unordered maps are association lists; their order stands for the unspecified order of
  iteration. A callback is the list of calls of the loop it makes, as a function of the socket and the
  event: it runs while the dispatching thread holds \<^verbatim>\<open>socket_mutex_\<close>, which is not recursive,
  so a call that locks it again never returns (\<open>Deadlock\<close>). \<^verbatim>\<open>FD_SET\<close> and \<^verbatim>\<open>FD_ISSET\<close>
  outside the range of an \<^verbatim>\<open>fd_set\<close> are out-of-bounds accesses (\<open>Bad_fd\<close>). What
  \<^verbatim>\<open>select\<close> finds and what other threads call while it waits are arguments. Log messages
  and the clock are not modelled.
\<close>

section \<open>The connection manager\<close>

record conn_manager =
  cm_connections :: "(u64 \<times> connection) list"
  next_conn_id :: u64

definition cm_new :: conn_manager where
  "cm_new = \<lparr>cm_connections = [], next_conn_id = 1\<rparr>"

definition add_connection :: "conn_manager \<Rightarrow> connection \<Rightarrow> conn_manager \<times> u64" where
  "add_connection m c =
     (let conn_id = next_conn_id m
      in (m\<lparr>next_conn_id := conn_id + 1, cm_connections := AList.update conn_id c (cm_connections m)\<rparr>, conn_id))"

definition remove_connection :: "conn_manager \<Rightarrow> u64 \<Rightarrow> conn_manager" where
  "remove_connection m conn_id = m\<lparr>cm_connections := AList.delete conn_id (cm_connections m)\<rparr>"

definition get_connection :: "conn_manager \<Rightarrow> u64 \<Rightarrow> connection option" where
  "get_connection m conn_id = map_of (cm_connections m) conn_id"

text \<open>The caller of \<^verbatim>\<open>get_connection\<close> works on the connection in place.\<close>

definition put_connection :: "conn_manager \<Rightarrow> u64 \<Rightarrow> connection \<Rightarrow> conn_manager" where
  "put_connection m conn_id c = m\<lparr>cm_connections := AList.update conn_id c (cm_connections m)\<rparr>"

definition get_connection_ids :: "conn_manager \<Rightarrow> u64 list" where
  "get_connection_ids m = map fst (cm_connections m)"

definition cm_size :: "conn_manager \<Rightarrow> nat" where
  "cm_size m = length (cm_connections m)"

definition cm_clear :: "conn_manager \<Rightarrow> conn_manager" where
  "cm_clear m = m\<lparr>cm_connections := []\<rparr>"

definition cm_destroy :: "conn_manager \<Rightarrow> conn_manager" where
  "cm_destroy m = cm_clear m"

section \<open>The loop and the calls on it\<close>

datatype event_type = READ | WRITE | ERROR_EVENT

fun event_flag :: "event_type \<Rightarrow> u32" where
  "event_flag READ = 1"
| "event_flag WRITE = 2"
| "event_flag ERROR_EVENT = 4"

text \<open>The calls a callback or another thread can make on the loop.\<close>

datatype loop_call =
    Add_socket int u32 "int \<Rightarrow> event_type \<Rightarrow> loop_call list"
  | Remove_socket int
  | Update_socket int u32
  | Add_client connection
  | Remove_client u64
  | Get_stats
  | Stop

type_synonym callback = "int \<Rightarrow> event_type \<Rightarrow> loop_call list"

record event_loop =
  el_running :: bool
  stop_requested :: bool
  socket_callbacks :: "(int \<times> callback) list"
  socket_events :: "(int \<times> u32) list"
  el_connections :: conn_manager
  events_processed :: u64

definition event_loop_new :: event_loop where
  "event_loop_new = \<lparr>el_running = False, stop_requested = False, socket_callbacks = [], socket_events = [],
                     el_connections = cm_new, events_processed = 0\<rparr>"

definition add_socket :: "event_loop \<Rightarrow> int \<Rightarrow> u32 \<Rightarrow> callback \<Rightarrow> event_loop" where
  "add_socket l fd events cb =
     l\<lparr>socket_callbacks := AList.update fd cb (socket_callbacks l),
       socket_events := AList.update fd events (socket_events l)\<rparr>"

definition remove_socket :: "event_loop \<Rightarrow> int \<Rightarrow> event_loop" where
  "remove_socket l fd =
     l\<lparr>socket_callbacks := AList.delete fd (socket_callbacks l), socket_events := AList.delete fd (socket_events l)\<rparr>"

definition update_socket :: "event_loop \<Rightarrow> int \<Rightarrow> u32 \<Rightarrow> event_loop" where
  "update_socket l fd events =
     (case map_of (socket_events l) fd of
        Some _ \<Rightarrow> l\<lparr>socket_events := AList.update fd events (socket_events l)\<rparr>
      | None \<Rightarrow> l)"

definition add_client :: "event_loop \<Rightarrow> connection \<Rightarrow> event_loop \<times> u64" where
  "add_client l c = (let (m, conn_id) = add_connection (el_connections l) c in (l\<lparr>el_connections := m\<rparr>, conn_id))"

definition remove_client :: "event_loop \<Rightarrow> u64 \<Rightarrow> event_loop" where
  "remove_client l conn_id = l\<lparr>el_connections := remove_connection (el_connections l) conn_id\<rparr>"

text \<open>\<^verbatim>\<open>event_thread_\<close> is never started, so \<^verbatim>\<open>stop\<close> has nothing to join.\<close>

definition loop_stop :: "event_loop \<Rightarrow> event_loop" where
  "loop_stop l = (if \<not> el_running l then l else l\<lparr>stop_requested := True\<rparr>)"

text \<open>The destructor asks the loop to stop; it does not wait for it.\<close>

definition loop_destroy :: "event_loop \<Rightarrow> event_loop" where
  "loop_destroy l = loop_stop l"

fun exec_call :: "event_loop \<Rightarrow> loop_call \<Rightarrow> event_loop" where
  "exec_call l (Add_socket fd events cb) = add_socket l fd events cb"
| "exec_call l (Remove_socket fd) = remove_socket l fd"
| "exec_call l (Update_socket fd events) = update_socket l fd events"
| "exec_call l (Add_client c) = fst (add_client l c)"
| "exec_call l (Remove_client conn_id) = remove_client l conn_id"
| "exec_call l Get_stats = l"
| "exec_call l Stop = loop_stop l"

text \<open>The calls that lock \<^verbatim>\<open>socket_mutex_\<close>.\<close>

fun locks_sockets :: "loop_call \<Rightarrow> bool" where
  "locks_sockets (Add_socket _ _ _) = True"
| "locks_sockets (Remove_socket _) = True"
| "locks_sockets (Update_socket _ _) = True"
| "locks_sockets Get_stats = True"
| "locks_sockets _ = False"

section \<open>Handling of clients\<close>

text \<open>The search for the connection of a socket.\<close>

fun client_of_fd :: "conn_manager \<Rightarrow> u64 list \<Rightarrow> int \<Rightarrow> (u64 \<times> connection) option" where
  "client_of_fd m [] fd = None"
| "client_of_fd m (conn_id # ids) fd =
     (case get_connection m conn_id of
        Some c \<Rightarrow> if sock_fd (conn_socket c) = fd then Some (conn_id, c) else client_of_fd m ids fd
      | None \<Rightarrow> client_of_fd m ids fd)"

definition handle_client_data :: "event_loop \<Rightarrow> int \<Rightarrow> event_loop" where
  "handle_client_data l fd =
     (case client_of_fd (el_connections l) (get_connection_ids (el_connections l)) fd of
        None \<Rightarrow> l
      | Some (conn_id, c) \<Rightarrow>
          let (con1, bytes_read) = conn_read c;
              l1 = l\<lparr>el_connections := put_connection (el_connections l) conn_id con1\<rparr>
          in if bytes_read \<le> 0 then remove_socket (remove_client l1 conn_id) fd else l1)"

definition handle_client_error :: "event_loop \<Rightarrow> int \<Rightarrow> event_loop" where
  "handle_client_error l fd =
     (case client_of_fd (el_connections l) (get_connection_ids (el_connections l)) fd of
        None \<Rightarrow> l
      | Some (conn_id, c) \<Rightarrow> remove_socket (remove_client l conn_id) fd)"

section \<open>A round of the loop\<close>

record fd_sets =
  read_fds :: "int set"
  write_fds :: "int set"
  error_fds :: "int set"

fun fd_isset :: "fd_sets \<Rightarrow> event_type \<Rightarrow> int set" where
  "fd_isset s READ = read_fds s"
| "fd_isset s WRITE = write_fds s"
| "fd_isset s ERROR_EVENT = error_fds s"

definition FD_SETSIZE :: int where "FD_SETSIZE = 1024"

definition fd_in_range :: "int \<Rightarrow> bool" where
  "fd_in_range fd = (0 \<le> fd \<and> fd < FD_SETSIZE)"

definition wants :: "u32 \<Rightarrow> event_type \<Rightarrow> bool" where
  "wants events t = (events AND event_flag t \<noteq> 0)"

datatype 'a round = Returned 'a | Deadlock | Bad_fd

fun setup_loop :: "(int \<times> u32) list \<Rightarrow> fd_sets \<Rightarrow> int \<Rightarrow> (fd_sets \<times> int) option" where
  "setup_loop [] s max_fd = Some (s, max_fd)"
| "setup_loop ((fd, events) # es) s max_fd =
     (if (wants events READ \<or> wants events WRITE \<or> wants events ERROR_EVENT) \<and> \<not> fd_in_range fd then None
      else let s1 = (if wants events READ then s\<lparr>read_fds := insert fd (read_fds s)\<rparr> else s);
               s2 = (if wants events WRITE then s1\<lparr>write_fds := insert fd (write_fds s1)\<rparr> else s1);
               s3 = (if wants events ERROR_EVENT then s2\<lparr>error_fds := insert fd (error_fds s2)\<rparr> else s2)
           in setup_loop es s3 (max max_fd fd))"

definition setup_fd_sets :: "event_loop \<Rightarrow> (fd_sets \<times> int) option" where
  "setup_fd_sets l = setup_loop (socket_events l) \<lparr>read_fds = {}, write_fds = {}, error_fds = {}\<rparr> 0"

text \<open>
  \<^verbatim>\<open>select\<close> leaves in the sets the sockets that were asked for and are ready, and returns
  how many there are.
\<close>

definition select_sets :: "fd_sets \<Rightarrow> fd_sets \<Rightarrow> fd_sets" where
  "select_sets s ready = \<lparr>read_fds = read_fds s \<inter> read_fds ready, write_fds = write_fds s \<inter> write_fds ready,
                          error_fds = error_fds s \<inter> error_fds ready\<rparr>"

definition select_count :: "fd_sets \<Rightarrow> int" where
  "select_count s = int (card (read_fds s) + card (write_fds s) + card (error_fds s))"

text \<open>The body of a callback, run under the lock.\<close>

fun run_locked :: "event_loop \<Rightarrow> loop_call list \<Rightarrow> event_loop round" where
  "run_locked l [] = Returned l"
| "run_locked l (c # cs) = (if locks_sockets c then Deadlock else run_locked (exec_call l c) cs)"

text \<open>
  The tests of one socket, one event after the other, and the loop over the callbacks. The result lists the invocations, each
  recorded where the callback returns.
\<close>

fun deliver :: "fd_sets \<Rightarrow> callback \<Rightarrow> int \<Rightarrow> event_type list \<Rightarrow> event_loop \<Rightarrow> (event_loop \<times> (int \<times> event_type) list) round" where
  "deliver s cb fd [] l = Returned (l, [])"
| "deliver s cb fd (t # ts) l =
     (if fd \<in> fd_isset s t then
        (case run_locked l (cb fd t) of
           Returned l1 \<Rightarrow>
             (case deliver s cb fd ts l1 of Returned (l2, trace) \<Rightarrow> Returned (l2, (fd, t) # trace) | r \<Rightarrow> r)
         | Deadlock \<Rightarrow> Deadlock
         | Bad_fd \<Rightarrow> Bad_fd)
      else deliver s cb fd ts l)"

fun dispatch_loop :: "fd_sets \<Rightarrow> (int \<times> callback) list \<Rightarrow> event_loop \<Rightarrow> (event_loop \<times> (int \<times> event_type) list) round" where
  "dispatch_loop s [] l = Returned (l, [])"
| "dispatch_loop s ((fd, cb) # rest) l =
     (if \<not> fd_in_range fd then Bad_fd
      else case deliver s cb fd [READ, WRITE, ERROR_EVENT] l of
             Returned (l1, trace1) \<Rightarrow>
               (case dispatch_loop s rest l1 of
                  Returned (l2, trace) \<Rightarrow> Returned (l2, trace1 @ trace)
                | r \<Rightarrow> r)
           | Deadlock \<Rightarrow> Deadlock
           | Bad_fd \<Rightarrow> Bad_fd)"

definition process_select_events :: "event_loop \<Rightarrow> fd_sets \<Rightarrow> (event_loop \<times> (int \<times> event_type) list) round" where
  "process_select_events l s = dispatch_loop s (socket_callbacks l) l"

text \<open>
  \<open>during\<close> is what other threads call between the setting up of the sets and the dispatch;
  \<open>ready\<close> is what \<^verbatim>\<open>select\<close> finds, \<open>None\<close> for an error.
\<close>

definition process_events ::
  "event_loop \<Rightarrow> loop_call list \<Rightarrow> fd_sets option \<Rightarrow> (event_loop \<times> int \<times> (int \<times> event_type) list) round" where
  "process_events l during ready =
     (case setup_fd_sets l of
        None \<Rightarrow> Bad_fd
      | Some (s, max_fd) \<Rightarrow>
          let l1 = foldl exec_call l during
          in if max_fd = 0 then Returned (l1, 0, [])
             else case ready of
                    None \<Rightarrow> Returned (l1, -1, [])
                  | Some r \<Rightarrow>
                      let s1 = select_sets s r; result = select_count s1
                      in if result = 0 then Returned (l1, 0, [])
                         else case process_select_events l1 s1 of
                                Returned (l2, trace) \<Rightarrow> Returned (l2, result, trace)
                              | Deadlock \<Rightarrow> Deadlock
                              | Bad_fd \<Rightarrow> Bad_fd)"

section \<open>The main loop\<close>

text \<open>
  A round: what other threads call before it, and the arguments of \<open>process_events\<close>. The result
  says whether the loop has ended; with no rounds left it may still be running.
\<close>

record loop_round =
  lr_before :: "loop_call list"
  lr_during :: "loop_call list"
  lr_ready :: "fd_sets option"

fun event_loop_main :: "event_loop \<Rightarrow> loop_round list \<Rightarrow> (event_loop \<times> (int \<times> event_type) list \<times> bool) round" where
  "event_loop_main l [] = Returned (l, [], stop_requested l)"
| "event_loop_main l (r # rs) =
     (let l0 = foldl exec_call l (lr_before r)
      in if stop_requested l0 then Returned (l0, [], True)
         else case process_events l0 (lr_during r) (lr_ready r) of
                Returned (l1, events, trace) \<Rightarrow>
                  if events < 0 then Returned (l1, trace, True)
                  else (case event_loop_main (l1\<lparr>events_processed := events_processed l1 + word_of_int events\<rparr>) rs of
                          Returned (l2, trace2, ended) \<Rightarrow> Returned (l2, trace @ trace2, ended)
                        | q \<Rightarrow> q)
              | Deadlock \<Rightarrow> Deadlock
              | Bad_fd \<Rightarrow> Bad_fd)"

text \<open>
  \<^verbatim>\<open>EventLoop::run\<close>; \<open>early\<close> is what other threads call after \<^verbatim>\<open>running_\<close> is set and
  before \<^verbatim>\<open>stop_requested_\<close> is reset.
\<close>

definition loop_run ::
  "event_loop \<Rightarrow> loop_call list \<Rightarrow> loop_round list \<Rightarrow> (event_loop \<times> (int \<times> event_type) list \<times> bool) round" where
  "loop_run l early rounds =
     (if el_running l then Returned (l, [], True)
      else let l1 = foldl exec_call (l\<lparr>el_running := True\<rparr>) early
           in case event_loop_main (l1\<lparr>stop_requested := False\<rparr>) rounds of
                Returned (l2, trace, ended) \<Rightarrow> Returned (if ended then l2\<lparr>el_running := False\<rparr> else l2, trace, ended)
              | q \<Rightarrow> q)"

text \<open>\<^verbatim>\<open>EventLoopManager\<close>, the one loop of the process: \<^verbatim>\<open>start\<close> and \<^verbatim>\<open>stop\<close>.\<close>

definition manager_start ::
  "event_loop \<Rightarrow> loop_call list \<Rightarrow> loop_round list \<Rightarrow> (event_loop \<times> (int \<times> event_type) list \<times> bool) round" where
  "manager_start l early rounds = (if \<not> el_running l then loop_run l early rounds else Returned (l, [], True))"

definition manager_stop :: "event_loop \<Rightarrow> event_loop" where
  "manager_stop l = loop_stop l"

text \<open>The guard of \<^verbatim>\<open>start\<close> repeats the one of \<^verbatim>\<open>run\<close>.\<close>

lemma manager_start_run: "manager_start l early rounds = loop_run l early rounds"
  by (simp add: manager_start_def loop_run_def)

text \<open>\<^verbatim>\<open>get_stats\<close>; the division of doubles is a parameter.\<close>

record 'd loop_stats =
  active_connections :: nat
  st_events_processed :: u64
  sockets_monitored :: nat
  events_per_second :: 'd

definition loop_get_stats :: "(u64 \<Rightarrow> int \<Rightarrow> 'd) \<Rightarrow> 'd \<Rightarrow> int \<Rightarrow> event_loop \<Rightarrow> 'd loop_stats" where
  "loop_get_stats fdiv zero elapsed l =
     \<lparr>active_connections = cm_size (el_connections l), st_events_processed = events_processed l,
      sockets_monitored = length (socket_events l),
      events_per_second = (if elapsed > 0 then fdiv (events_processed l) elapsed else zero)\<rparr>"

section \<open>The maps\<close>

lemma update_fst_set [simp]: "fst ` set (AList.update k v al) = insert k (fst ` set al)"
  by (induction al) auto

lemma delete_fst_set [simp]: "fst ` set (AList.delete k al) = fst ` set al - {k}"
  by (induction al) auto

definition loop_wf :: "event_loop \<Rightarrow> bool" where
  "loop_wf l = (distinct (map fst (socket_callbacks l)) \<and> distinct (map fst (socket_events l)) \<and>
     fst ` set (socket_callbacks l) = fst ` set (socket_events l) \<and>
     distinct (map fst (cm_connections (el_connections l))))"

lemma loop_wf_new [wf_intros]: "loop_wf event_loop_new"
  by (simp add: loop_wf_def event_loop_new_def cm_new_def)

lemma loop_wf_flags [simp]:
  "loop_wf (l\<lparr>stop_requested := b\<rparr>) = loop_wf l" "loop_wf (l\<lparr>el_running := b\<rparr>) = loop_wf l"
  "loop_wf (l\<lparr>events_processed := n\<rparr>) = loop_wf l"
  by (simp_all add: loop_wf_def)

lemma add_socket_wf [wf_intros]: "loop_wf l \<Longrightarrow> loop_wf (add_socket l fd events cb)"
  by (simp add: loop_wf_def add_socket_def distinct_update)

lemma remove_socket_wf [wf_intros]: "loop_wf l \<Longrightarrow> loop_wf (remove_socket l fd)"
  by (simp add: loop_wf_def remove_socket_def distinct_delete)

lemma update_socket_wf [wf_intros]: "loop_wf l \<Longrightarrow> loop_wf (update_socket l fd events)"
  by (force simp: loop_wf_def update_socket_def distinct_update split: option.split dest: map_of_SomeD)

lemma client_wf [wf_intros]:
  "loop_wf l \<Longrightarrow> loop_wf (fst (add_client l c))" "loop_wf l \<Longrightarrow> loop_wf (remove_client l conn_id)"
  "loop_wf l \<Longrightarrow> loop_wf (l\<lparr>el_connections := put_connection (el_connections l) conn_id c\<rparr>)"
  by (simp_all add: loop_wf_def add_client_def add_connection_def remove_client_def remove_connection_def
      put_connection_def Let_def distinct_update distinct_delete)

lemma exec_call_wf [wf_intros]: "loop_wf l \<Longrightarrow> loop_wf (exec_call l c)"
  by (cases c) (simp_all add: wf_intros loop_stop_def)

lemma exec_calls_wf [wf_intros]: "loop_wf l \<Longrightarrow> loop_wf (foldl exec_call l cs)"
  by (induction cs arbitrary: l) (simp_all add: exec_call_wf)

lemma handle_client_wf [wf_intros]:
  "loop_wf l \<Longrightarrow> loop_wf (handle_client_data l fd)" "loop_wf l \<Longrightarrow> loop_wf (handle_client_error l fd)"
  by (auto simp: handle_client_data_def handle_client_error_def Let_def case_prod_beta wf_intros split: option.split)

section \<open>Setting up the sets\<close>

lemma setup_loop_sets:
  "setup_loop es s m = Some (s', m') \<Longrightarrow>
   (\<forall>t. fd_isset s' t = fd_isset s t \<union> {fd. \<exists>ev. (fd, ev) \<in> set es \<and> wants ev t}) \<and>
   m' = foldl max m (map fst es)"
proof (induction es arbitrary: s m)
  case (Cons e es)
  obtain fd ev where e: "e = (fd, ev)" by force
  let ?s1 = "if wants ev READ then s\<lparr>read_fds := insert fd (read_fds s)\<rparr> else s"
  let ?s2 = "if wants ev WRITE then ?s1\<lparr>write_fds := insert fd (write_fds ?s1)\<rparr> else ?s1"
  let ?s3 = "if wants ev ERROR_EVENT then ?s2\<lparr>error_fds := insert fd (error_fds ?s2)\<rparr> else ?s2"
  have "setup_loop es ?s3 (max m fd) = Some (s', m')"
    using Cons.prems by (simp add: e Let_def split: if_split_asm)
  from Cons.IH[OF this]
  have ih: "fd_isset s' t = fd_isset ?s3 t \<union> {fd. \<exists>ev. (fd, ev) \<in> set es \<and> wants ev t}"
    "m' = foldl max (max m fd) (map fst es)" for t by auto
  have "fd_isset ?s3 t = fd_isset s t \<union> (if wants ev t then {fd} else {})" for t by (cases t) auto
  then show ?case using ih by (auto simp: e)
qed simp

lemma foldl_max_ge: "foldl max (m :: int) xs \<ge> m" "x \<in> set xs \<Longrightarrow> foldl max m xs \<ge> x"
proof (induction xs arbitrary: m)
  case (Cons y ys)
  { case 1 then show ?case using Cons(1)[of "max m y"] by simp }
  { case 2 then show ?case using Cons(1)[of "max m y"] Cons(2)[of "max m y"] by auto }
qed auto

lemma foldl_max_same: "\<forall>x \<in> set xs. x \<le> (m :: int) \<Longrightarrow> foldl max m xs = m"
  by (induction xs) (simp_all add: max.absorb1)

lemma setup_loop_works: "\<forall>(fd, ev) \<in> set es. fd_in_range fd \<Longrightarrow> \<exists>s' m'. setup_loop es s m = Some (s', m')"
proof (induction es arbitrary: s m)
  case (Cons e es)
  then show ?case by (cases e) (auto simp: Let_def)
qed simp

section \<open>The dispatch\<close>

lemma exec_call_sockets:
  "\<not> locks_sockets c \<Longrightarrow> socket_callbacks (exec_call l c) = socket_callbacks l \<and> socket_events (exec_call l c) = socket_events l"
  by (cases c) (simp_all add: add_client_def remove_client_def loop_stop_def case_prod_beta)

lemma run_locked_eq:
  "run_locked l cs = (if \<forall>c \<in> set cs. \<not> locks_sockets c then Returned (foldl exec_call l cs) else Deadlock)"
  by (induction cs arbitrary: l) auto

text \<open>The events of a socket that \<^verbatim>\<open>select\<close> left in the sets.\<close>

definition fired :: "fd_sets \<Rightarrow> int \<Rightarrow> event_type list" where
  "fired s fd = filter (\<lambda>t. fd \<in> fd_isset s t) [READ, WRITE, ERROR_EVENT]"

lemma deliver_filter:
  "deliver s cb fd ts l =
     (if \<forall>t \<in> set (filter (\<lambda>t. fd \<in> fd_isset s t) ts). \<forall>c \<in> set (cb fd t). \<not> locks_sockets c
      then Returned (foldl exec_call l (concat (map (cb fd) (filter (\<lambda>t. fd \<in> fd_isset s t) ts))),
                     map (Pair fd) (filter (\<lambda>t. fd \<in> fd_isset s t) ts))
      else Deadlock)"
  by (induction ts arbitrary: l) (auto simp: run_locked_eq)

lemma deliver_eq:
  "deliver s cb fd [READ, WRITE, ERROR_EVENT] l =
     (if \<forall>t \<in> set (fired s fd). \<forall>c \<in> set (cb fd t). \<not> locks_sockets c
      then Returned (foldl exec_call l (concat (map (cb fd) (fired s fd))), map (Pair fd) (fired s fd)) else Deadlock)"
  unfolding fired_def by (rule deliver_filter)

definition quiet :: "fd_sets \<Rightarrow> (int \<times> callback) list \<Rightarrow> bool" where
  "quiet s cbs = (\<forall>(fd, cb) \<in> set cbs. \<forall>t \<in> set (fired s fd). \<forall>c \<in> set (cb fd t). \<not> locks_sockets c)"

definition dispatched :: "fd_sets \<Rightarrow> (int \<times> callback) list \<Rightarrow> (int \<times> event_type) list" where
  "dispatched s cbs = concat (map (\<lambda>(fd, cb). map (Pair fd) (fired s fd)) cbs)"

definition callback_calls :: "fd_sets \<Rightarrow> (int \<times> callback) list \<Rightarrow> loop_call list" where
  "callback_calls s cbs = concat (map (\<lambda>(fd, cb). concat (map (cb fd) (fired s fd))) cbs)"

lemma dispatch_loop_in_range:
  "\<forall>p \<in> set cbs. fd_in_range (fst p) \<Longrightarrow>
   dispatch_loop s cbs l =
     (if quiet s cbs then Returned (foldl exec_call l (callback_calls s cbs), dispatched s cbs) else Deadlock)"
proof (induction cbs arbitrary: l)
  case (Cons p cbs)
  obtain fd cb where p: "p = (fd, cb)" by force
  then show ?case using Cons
    by (auto simp: deliver_eq quiet_def dispatched_def callback_calls_def simp del: deliver.simps)
qed (simp add: quiet_def dispatched_def callback_calls_def)

lemma dispatch_loop_out_of_range:
  "dispatch_loop s cbs l = Returned r \<Longrightarrow> \<forall>p \<in> set cbs. fd_in_range (fst p)"
  by (induction cbs arbitrary: l r) (fastforce split: if_splits round.splits)+

text \<open>What the callbacks that ran have called, in the order in which they ran.\<close>

definition calls_made :: "(int \<times> callback) list \<Rightarrow> (int \<times> event_type) list \<Rightarrow> loop_call list" where
  "calls_made cbs trace = concat (map (\<lambda>(fd, t). the (map_of cbs fd) fd t) trace)"

lemma callback_calls_made:
  assumes "distinct (map fst cbs)"
  shows "callback_calls s cbs = calls_made cbs (dispatched s cbs)"
proof -
  have "callback_calls s xs = calls_made cbs (dispatched s xs)" if "\<forall>(fd, cb) \<in> set xs. map_of cbs fd = Some cb" for xs
    using that by (induction xs) (auto simp: callback_calls_def calls_made_def dispatched_def comp_def)
  then show ?thesis using assms by auto
qed

lemma set_dispatched: "(fd, t) \<in> set (dispatched s cbs) \<longleftrightarrow> fd \<in> fst ` set cbs \<and> fd \<in> fd_isset s t"
  by (cases t) (force simp: dispatched_def fired_def)+

lemma distinct_dispatched: "distinct (map fst cbs) \<Longrightarrow> distinct (dispatched s cbs)"
proof (induction cbs)
  case (Cons p cbs)
  obtain fd cb where p: "p = (fd, cb)" by force
  have "distinct (map (Pair fd) (fired s fd))" by (simp add: distinct_map inj_on_def fired_def)
  moreover have "set (map (Pair fd) (fired s fd)) \<inter> set (dispatched s cbs) = {}"
    using Cons.prems by (auto simp: p set_dispatched)
  ultimately show ?case using Cons by (simp add: p dispatched_def)
qed (simp add: dispatched_def)

lemma callback_calls_quiet: "quiet s cbs \<Longrightarrow> c \<in> set (callback_calls s cbs) \<Longrightarrow> \<not> locks_sockets c"
  by (force simp: quiet_def callback_calls_def)

lemma exec_calls_sockets:
  "\<forall>c \<in> set cs. \<not> locks_sockets c \<Longrightarrow>
   socket_callbacks (foldl exec_call l cs) = socket_callbacks l \<and> socket_events (foldl exec_call l cs) = socket_events l"
  by (induction cs arbitrary: l) (simp_all add: exec_call_sockets)

lemma process_events_wf [wf_intros]:
  assumes "loop_wf l" "process_events l during ready = Returned (l', n, trace)"
  shows "loop_wf l'"
proof -
  have "loop_wf (foldl exec_call l during)" using assms(1) by (rule exec_calls_wf)
  moreover have "\<exists>cs. l2 = foldl exec_call l1 cs" if "process_select_events l1 s = Returned (l2, tr)" for l1 l2 s tr
    using that dispatch_loop_in_range[OF dispatch_loop_out_of_range[OF that[unfolded process_select_events_def]], of s l1]
    by (auto simp: process_select_events_def split: if_splits)
  ultimately show ?thesis using assms(2)
    by (fastforce simp: process_events_def Let_def exec_calls_wf split: option.splits prod.splits if_splits round.splits)
qed

lemma event_loop_main_wf [wf_intros]:
  "loop_wf l \<Longrightarrow> event_loop_main l rounds = Returned (l', trace, b) \<Longrightarrow> loop_wf l'"
proof (induction rounds arbitrary: l trace)
  case (Cons r rs)
  let ?l0 = "foldl exec_call l (lr_before r)"
  show ?case
  proof (cases "stop_requested ?l0")
    case True
    then show ?thesis using Cons.prems by (auto simp: exec_calls_wf)
  next
    case False
    then obtain l1 n tr where p: "process_events ?l0 (lr_during r) (lr_ready r) = Returned (l1, n, tr)"
      using Cons.prems(2) by (auto simp: Let_def split: round.splits)
    have wf: "loop_wf l1" using process_events_wf[OF exec_calls_wf[OF Cons.prems(1)] p] .
    show ?thesis using Cons.prems(2) False p wf Cons.IH[of "l1\<lparr>events_processed := events_processed l1 + word_of_int n\<rparr>"]
      by (auto simp: Let_def split: if_splits round.splits)
  qed
qed simp

section \<open>Properties\<close>

text \<open>What can happen to a loop: calls, events of clients, and runs that return.\<close>

inductive loop_reachable :: "event_loop \<Rightarrow> bool" where
  new: "loop_reachable event_loop_new"
| called: "loop_reachable l \<Longrightarrow> loop_reachable (exec_call l c)"
| data: "loop_reachable l \<Longrightarrow> loop_reachable (handle_client_data l fd)"
| failed: "loop_reachable l \<Longrightarrow> loop_reachable (handle_client_error l fd)"
| ran: "loop_reachable l \<Longrightarrow> loop_run l early rounds = Returned (l', trace, ended) \<Longrightarrow> loop_reachable l'"

lemma loop_run_wf [wf_intros]:
  assumes "loop_wf l" "loop_run l early rounds = Returned (l', trace, b)"
  shows "loop_wf l'"
proof (cases "el_running l")
  case False
  let ?l1 = "(foldl exec_call (l\<lparr>el_running := True\<rparr>) early)\<lparr>stop_requested := False\<rparr>"
  obtain l2 tr e where main: "event_loop_main ?l1 rounds = Returned (l2, tr, e)" "l' = l2 \<or> l' = l2\<lparr>el_running := False\<rparr>"
    using assms(2) False by (auto simp: loop_run_def Let_def split: round.splits if_splits)
  have "loop_wf ?l1" using exec_calls_wf[of "l\<lparr>el_running := True\<rparr>" early] assms(1) by simp
  then have "loop_wf l2" using main(1) by (rule event_loop_main_wf)
  then show ?thesis using main(2) by auto
qed (use assms in \<open>simp add: loop_run_def\<close>)

lemma reachable_wf: "loop_reachable l \<Longrightarrow> loop_wf l"
  by (induction rule: loop_reachable.induct)
     (auto simp: loop_wf_new exec_call_wf handle_client_wf dest: loop_run_wf)

text \<open>
  C33: The two maps of the event loop agree whatever threads, callbacks and clients do: in every
  reachable state each registered socket has exactly one callback and exactly one mask, and connection
  identifiers are distinct.
\<close>

theorem reachable_loop_consistent:
  assumes "loop_reachable l"
  shows "distinct (map fst (socket_callbacks l)) \<and> distinct (map fst (socket_events l)) \<and>
    fst ` set (socket_callbacks l) = fst ` set (socket_events l) \<and> distinct (get_connection_ids (el_connections l))"
proof -
  have "loop_wf l" using assms by (rule reachable_wf)
  then show ?thesis by (simp add: loop_wf_def get_connection_ids_def)
qed

lemma setup_in_range:
  assumes "\<forall>fd \<in> fst ` set (socket_events l). fd_in_range fd" "distinct (map fst (socket_events l))"
  obtains s m where "setup_fd_sets l = Some (s, m)"
    "\<And>t. fd_isset s t = {fd. \<exists>ev. map_of (socket_events l) fd = Some ev \<and> wants ev t}"
    "m = foldl max 0 (map fst (socket_events l))"
proof -
  have "\<exists>s m. setup_fd_sets l = Some (s, m)"
    unfolding setup_fd_sets_def by (rule setup_loop_works) (use assms(1) in force)
  then obtain s m where set: "setup_fd_sets l = Some (s, m)" by blast
  let ?none = "\<lparr>read_fds = {}, write_fds = {}, error_fds = {}\<rparr>"
  have none: "fd_isset ?none t = {}" for t by (cases t) simp_all
  have sets: "\<forall>t. fd_isset s t = fd_isset ?none t \<union> {fd. \<exists>ev. (fd, ev) \<in> set (socket_events l) \<and> wants ev t}"
    and max: "m = foldl max 0 (map fst (socket_events l))"
    using setup_loop_sets[OF set[unfolded setup_fd_sets_def]] by blast+
  have "fd_isset s t = {fd. \<exists>ev. map_of (socket_events l) fd = Some ev \<and> wants ev t}" for t
    using sets none assms(2) by simp
  then show ?thesis using set max that by blast
qed

lemma fd_isset_select: "fd_isset (select_sets s r) t = fd_isset s t \<inter> fd_isset r t"
  by (cases t) (simp_all add: select_sets_def)

lemma select_count_zero:
  assumes "\<And>t. finite (fd_isset s t)" "select_count s = 0"
  shows "fd_isset s t = {}"
proof -
  have "card (fd_isset s t) = 0" using assms(2) by (cases t) (simp_all add: select_count_def)
  then show ?thesis using assms(1)[of t] by simp
qed

text \<open>The sockets that a round finds: asked for when it began and ready.\<close>

definition selected :: "event_loop \<Rightarrow> fd_sets \<Rightarrow> int \<Rightarrow> event_type \<Rightarrow> bool" where
  "selected l r fd t = ((\<exists>ev. map_of (socket_events l) fd = Some ev \<and> wants ev t) \<and> fd \<in> fd_isset r t)"

lemma process_events_eq:
  assumes "loop_wf l" "loop_wf l1" "l1 = foldl exec_call l during"
    and "\<forall>fd \<in> fst ` set (socket_events l) \<union> fst ` set (socket_events l1). fd_in_range fd"
    and "\<exists>fd \<in> fst ` set (socket_events l). 0 < fd"
  obtains s where "\<And>fd t. fd \<in> fd_isset s t \<longleftrightarrow> selected l r fd t"
    "quiet s (socket_callbacks l1) \<Longrightarrow> \<exists>n. process_events l during (Some r) =
        Returned (foldl exec_call l1 (callback_calls s (socket_callbacks l1)), n, dispatched s (socket_callbacks l1))"
    "\<not> quiet s (socket_callbacks l1) \<Longrightarrow> process_events l during (Some r) = Deadlock"
proof -
  have "\<forall>fd \<in> fst ` set (socket_events l). fd_in_range fd" "distinct (map fst (socket_events l))"
    using assms(1,4) by (auto simp: loop_wf_def)
  then obtain s0 m where set: "setup_fd_sets l = Some (s0, m)"
    "\<And>t. fd_isset s0 t = {fd. \<exists>ev. map_of (socket_events l) fd = Some ev \<and> wants ev t}"
    "m = foldl max 0 (map fst (socket_events l))"
    by (rule setup_in_range) blast
  let ?s = "select_sets s0 r"
  have sel: "fd \<in> fd_isset ?s t \<longleftrightarrow> selected l r fd t" for fd t
    by (simp add: fd_isset_select set(2) selected_def)
  have "m \<noteq> 0" using assms(5) foldl_max_ge(2)[of _ "map fst (socket_events l)" 0] set(3) by fastforce
  have range: "\<forall>p \<in> set (socket_callbacks l1). fd_in_range (fst p)"
    using assms(2,4) unfolding loop_wf_def by (metis Un_iff image_eqI)
  have fin: "finite (fd_isset ?s t)" for t
    by (rule finite_subset[of _ "fst ` set (socket_events l)"]) (force simp: fd_isset_select set(2) dest: map_of_SomeD)+
  have empty: "dispatched ?s cbs = [] \<and> quiet ?s cbs \<and> callback_calls ?s cbs = []" if "select_count ?s = 0" for cbs
    using select_count_zero[OF fin that] by (auto simp: dispatched_def quiet_def fired_def callback_calls_def)
  show ?thesis
  proof (rule that[OF sel])
    show "\<exists>n. process_events l during (Some r) =
        Returned (foldl exec_call l1 (callback_calls ?s (socket_callbacks l1)), n, dispatched ?s (socket_callbacks l1))"
      if "quiet ?s (socket_callbacks l1)"
      using that set(1) \<open>m \<noteq> 0\<close> empty dispatch_loop_in_range[OF range, of ?s l1]
      by (auto simp: process_events_def process_select_events_def Let_def assms(3)[symmetric])
    show "process_events l during (Some r) = Deadlock" if "\<not> quiet ?s (socket_callbacks l1)"
      using that set(1) \<open>m \<noteq> 0\<close> empty dispatch_loop_in_range[OF range, of ?s l1]
      by (auto simp: process_events_def process_select_events_def Let_def assms(3)[symmetric])
  qed
qed

text \<open>
  C32: A round runs exactly the callbacks it should, provided that the descriptors are below \<^verbatim>\<open>FD_SETSIZE\<close> and that one above 0 is
  registered, without which the round takes the sets for empty: when it returns, a callback has been invoked for an event of
  a socket if and only if the socket asked for that event when the round began, \<^verbatim>\<open>select\<close>
  found it ready, and the socket is still registered when the events are dispatched; each is invoked once. What has become of the
  loop is what the other threads and the invoked callbacks have called, in the order of the invocations; the registrations are those of
  the other threads.
\<close>

theorem dispatch_exact:
  assumes "loop_reachable l" "l1 = foldl exec_call l during"
    and "\<forall>fd \<in> fst ` set (socket_events l) \<union> fst ` set (socket_events l1). fd_in_range fd"
    and "\<exists>fd \<in> fst ` set (socket_events l). 0 < fd"
    and "process_events l during (Some r) = Returned (l', n, trace)"
  shows "(\<forall>fd t. (fd, t) \<in> set trace \<longleftrightarrow> selected l r fd t \<and> map_of (socket_callbacks l1) fd \<noteq> None) \<and>
    distinct trace \<and> l' = foldl exec_call l1 (calls_made (socket_callbacks l1) trace) \<and>
    socket_callbacks l' = socket_callbacks l1 \<and> socket_events l' = socket_events l1"
proof -
  have wf: "loop_wf l" "loop_wf l1" using reachable_wf[OF assms(1)] assms(2) by (simp_all add: exec_calls_wf)
  from process_events_eq[OF wf assms(2-4)] obtain s where
    s: "\<And>fd t. fd \<in> fd_isset s t \<longleftrightarrow> selected l r fd t"
    and q: "quiet s (socket_callbacks l1) \<Longrightarrow> \<exists>n. process_events l during (Some r) =
        Returned (foldl exec_call l1 (callback_calls s (socket_callbacks l1)), n, dispatched s (socket_callbacks l1))"
    and "\<not> quiet s (socket_callbacks l1) \<Longrightarrow> process_events l during (Some r) = Deadlock"
    by metis
  then have quiet: "quiet s (socket_callbacks l1)" and trace: "trace = dispatched s (socket_callbacks l1)"
    and l': "l' = foldl exec_call l1 (callback_calls s (socket_callbacks l1))" using assms(5) by fastforce+
  have "socket_callbacks l' = socket_callbacks l1 \<and> socket_events l' = socket_events l1"
    unfolding l' by (rule exec_calls_sockets) (use callback_calls_quiet[OF quiet] in blast)
  moreover have "distinct (map fst (socket_callbacks l1))" using wf(2) by (simp add: loop_wf_def)
  ultimately show ?thesis using distinct_dispatched[of "socket_callbacks l1" s] callback_calls_made[of "socket_callbacks l1" s]
    by (auto simp: set_dispatched s trace l' map_of_eq_None_iff)
qed

text \<open>
  A round hangs exactly when a callback it has to run calls back into the registration of
  sockets: callbacks run under \<^verbatim>\<open>socket_mutex_\<close>, so one that adds, removes or updates a
  socket, or asks for statistics, deadlocks the loop; without such a callback the round returns.
\<close>

theorem dispatch_deadlocks_iff_relocked:
  assumes "loop_reachable l" "l1 = foldl exec_call l during"
    and "\<forall>fd \<in> fst ` set (socket_events l) \<union> fst ` set (socket_events l1). fd_in_range fd"
    and "\<exists>fd \<in> fst ` set (socket_events l). 0 < fd"
  shows "(process_events l during (Some r) = Deadlock \<longleftrightarrow>
      (\<exists>fd t cb c. selected l r fd t \<and> map_of (socket_callbacks l1) fd = Some cb \<and> c \<in> set (cb fd t) \<and> locks_sockets c)) \<and>
    process_events l during (Some r) \<noteq> Bad_fd"
proof -
  have wf: "loop_wf l" "loop_wf l1" using reachable_wf[OF assms(1)] assms(2) by (simp_all add: exec_calls_wf)
  from process_events_eq[OF wf assms(2-4)] obtain s where
    s: "\<And>fd t. fd \<in> fd_isset s t \<longleftrightarrow> selected l r fd t"
    and q: "quiet s (socket_callbacks l1) \<Longrightarrow> \<exists>n. process_events l during (Some r) =
        Returned (foldl exec_call l1 (callback_calls s (socket_callbacks l1)), n, dispatched s (socket_callbacks l1))"
    and d: "\<not> quiet s (socket_callbacks l1) \<Longrightarrow> process_events l during (Some r) = Deadlock"
    by metis
  have "distinct (map fst (socket_callbacks l1))" using wf(2) by (simp add: loop_wf_def)
  moreover have "t \<in> set (fired s fd) \<longleftrightarrow> selected l r fd t" for fd t using s by (cases t) (auto simp: fired_def)
  ultimately have quiet: "quiet s (socket_callbacks l1) \<longleftrightarrow>
    \<not> (\<exists>fd t cb c. selected l r fd t \<and> map_of (socket_callbacks l1) fd = Some cb \<and> c \<in> set (cb fd t) \<and> locks_sockets c)"
    by (auto simp: quiet_def)
  show ?thesis
    unfolding quiet[THEN arg_cong[of _ _ Not], unfolded not_not, symmetric] using q d by fastforce
qed

text \<open>
  Descriptor 0 is taken for an empty set: a loop whose only registered socket is 0 never
  calls its callback, whatever \<^verbatim>\<open>select\<close> would find.
\<close>

theorem descriptor_zero_never_served:
  assumes "\<forall>fd \<in> fst ` set (socket_events l). fd = 0"
  shows "process_events l during ready = Returned (foldl exec_call l during, 0, [])"
proof -
  have "\<exists>s m. setup_fd_sets l = Some (s, m)"
    unfolding setup_fd_sets_def by (rule setup_loop_works) (use assms in \<open>force simp: fd_in_range_def FD_SETSIZE_def\<close>)
  then obtain s m where set: "setup_fd_sets l = Some (s, m)" by blast
  then have "m = foldl max 0 (map fst (socket_events l))" using setup_loop_sets by (fastforce simp: setup_fd_sets_def)
  then have "m = 0" using foldl_max_same[of "map fst (socket_events l)" 0] assms by auto
  then show ?thesis using set by (simp add: process_events_def)
qed

section \<open>Stopping\<close>

lemma exec_call_stop:
  "el_running (exec_call l c) = el_running l" "stop_requested l \<Longrightarrow> stop_requested (exec_call l c)"
  by (cases c; simp add: add_socket_def remove_socket_def update_socket_def add_client_def remove_client_def
      loop_stop_def case_prod_beta split: option.split)+

lemma exec_calls_stop:
  "el_running (foldl exec_call l cs) = el_running l"
  "stop_requested l \<or> el_running l \<and> Stop \<in> set cs \<Longrightarrow> stop_requested (foldl exec_call l cs)"
proof (induction cs arbitrary: l)
  case (Cons c cs)
  { case 1 then show ?case using Cons by (simp add: exec_call_stop) }
  { case 2
    have "stop_requested (exec_call l c) \<or> el_running (exec_call l c) \<and> Stop \<in> set cs"
      using 2 exec_call_stop by (auto simp: loop_stop_def)
    then show ?case using Cons by simp }
qed auto

text \<open>
  \<^verbatim>\<open>stop\<close> called by another thread while the loop runs ends it at the next round, without
  running any further callback.
\<close>

theorem stop_ends_loop:
  assumes "el_running l" "Stop \<in> set (lr_before r)"
  shows "event_loop_main l (r # rs) = Returned (foldl exec_call l (lr_before r), [], True)"
  using exec_calls_stop(2)[of l "lr_before r"] assms by simp

text \<open>
  \<^verbatim>\<open>stop\<close> called while the loop starts is lost: \<^verbatim>\<open>run\<close> sets \<^verbatim>\<open>running_\<close> before it
  resets \<^verbatim>\<open>stop_requested_\<close>, so a request between the two changes nothing about the run.
\<close>

theorem stop_while_starting_is_lost: "loop_run l (early @ [Stop]) rounds = loop_run l early rounds"
  by (simp add: loop_run_def loop_stop_def)

section \<open>Clients\<close>

lemma client_of_fd_unique:
  assumes "get_connection m conn_id = Some c" "sock_fd (conn_socket c) = fd"
    and "\<forall>i d. get_connection m i = Some d \<and> sock_fd (conn_socket d) = fd \<longrightarrow> i = conn_id"
  shows "conn_id \<in> set ids \<Longrightarrow> client_of_fd m ids fd = Some (conn_id, c)"
proof (induction ids)
  case (Cons i ids)
  show ?case
  proof (cases "i = conn_id")
    case True
    then show ?thesis using assms(1,2) by simp
  next
    case False
    then have "sock_fd (conn_socket d) \<noteq> fd" if "get_connection m i = Some d" for d using that assms(3) by blast
    then show ?thesis using False Cons by (cases "get_connection m i") auto
  qed
qed simp

text \<open>
  Data on a client's socket goes to that client's connection: what \<^verbatim>\<open>read\<close> delivers is
  kept in it, at the end of the stream or on an error both the connection and the socket's
  registration are gone, and no other client is affected.
\<close>

theorem handle_client_data_correct:
  assumes "loop_reachable l" "get_connection (el_connections l) conn_id = Some c" "sock_fd (conn_socket c) = fd"
    and "\<forall>i d. get_connection (el_connections l) i = Some d \<and> sock_fd (conn_socket d) = fd \<longrightarrow> i = conn_id"
    and "l' = handle_client_data l fd"
  shows "(snd (conn_read c) > 0 \<longrightarrow>
      get_connection (el_connections l') conn_id = Some (fst (conn_read c)) \<and> socket_callbacks l' = socket_callbacks l) \<and>
    (snd (conn_read c) \<le> 0 \<longrightarrow> get_connection (el_connections l') conn_id = None \<and>
      map_of (socket_callbacks l') fd = None \<and> map_of (socket_events l') fd = None) \<and>
    (\<forall>i. i \<noteq> conn_id \<longrightarrow> get_connection (el_connections l') i = get_connection (el_connections l) i) \<and>
    (\<forall>g. g \<noteq> fd \<longrightarrow> map_of (socket_callbacks l') g = map_of (socket_callbacks l) g)"
proof -
  have "conn_id \<in> set (get_connection_ids (el_connections l))"
    using assms(2) by (force simp: get_connection_def get_connection_ids_def dest: map_of_SomeD)
  from client_of_fd_unique[OF assms(2-4) this] show ?thesis
    unfolding assms(5)
    by (cases "conn_read c")
       (simp add: handle_client_data_def remove_socket_def remove_client_def remove_connection_def put_connection_def
          get_connection_def update_conv' delete_conv' Let_def)
qed

text \<open>A history of a connection manager: connections that are added and removed.\<close>

datatype manager_op = Add connection | Remove u64

fun manager_step :: "conn_manager \<Rightarrow> manager_op \<Rightarrow> conn_manager" where
  "manager_step m (Add c) = fst (add_connection m c)"
| "manager_step m (Remove i) = remove_connection m i"

definition adds :: "manager_op list \<Rightarrow> nat" where
  "adds ops = length (filter (\<lambda>oper. case oper of Add _ \<Rightarrow> True | Remove _ \<Rightarrow> False) ops)"

lemma manager_ids:
  "adds ops < 2 ^ 64 - 1 \<Longrightarrow>
   unat (next_conn_id (foldl manager_step cm_new ops)) = adds ops + 1 \<and>
   (\<forall>i \<in> set (get_connection_ids (foldl manager_step cm_new ops)). 0 < unat i \<and> unat i \<le> adds ops)"
proof (induction ops rule: rev_induct)
  case Nil
  then show ?case by (simp add: cm_new_def get_connection_ids_def adds_def)
next
  case (snoc oper ops)
  let ?m = "foldl manager_step cm_new ops"
  show ?case
  proof (cases oper)
    case (Add c)
    then have n: "adds (ops @ [oper]) = adds ops + 1" by (simp add: adds_def)
    then have ih: "unat (next_conn_id ?m) = adds ops + 1"
      "\<forall>i \<in> set (get_connection_ids ?m). 0 < unat i \<and> unat i \<le> adds ops" using snoc by auto
    have "unat (next_conn_id ?m + 1) = adds ops + 2"
      using ih(1) snoc.prems n by (subst unat_plus_simple[THEN iffD1]) (simp_all add: word_le_nat_alt unat_word_ariths)
    then show ?thesis using ih n Add by (auto simp: add_connection_def get_connection_ids_def Let_def)
  next
    case (Remove i)
    then show ?thesis using snoc by (auto simp: adds_def remove_connection_def get_connection_ids_def)
  qed
qed

text \<open>
  Connection identifiers are not reused: after any history of fewer than \<open>2 ^ 64 - 1\<close> additions a new
  connection gets an identifier, not zero, that no connection has; looking it up gives the new
  connection and every other identifier still gives what it gave before.
\<close>

theorem connection_ids_fresh:
  assumes "m = foldl manager_step cm_new ops" "adds ops < 2 ^ 64 - 1" "add_connection m c = (m', conn_id)"
  shows "conn_id \<noteq> 0 \<and> conn_id \<notin> set (get_connection_ids m) \<and> get_connection m' conn_id = Some c \<and>
    (\<forall>i. i \<noteq> conn_id \<longrightarrow> get_connection m' i = get_connection m i)"
proof -
  have id: "conn_id = next_conn_id m" "m' = m\<lparr>next_conn_id := conn_id + 1, cm_connections := AList.update conn_id c (cm_connections m)\<rparr>"
    using assms(3) by (auto simp: add_connection_def Let_def)
  have "unat conn_id = adds ops + 1" "\<forall>i \<in> set (get_connection_ids m). unat i \<le> adds ops"
    using manager_ids[OF assms(2)] unfolding id(1) assms(1) by auto
  then have "conn_id \<noteq> 0 \<and> conn_id \<notin> set (get_connection_ids m)" by fastforce
  then show ?thesis by (simp add: id(2) get_connection_def update_conv')
qed

section \<open>Witnesses\<close>

definition one_socket :: "callback \<Rightarrow> event_loop" where
  "one_socket cb = exec_call event_loop_new (Add_socket 4 1 cb)"

definition readable :: "int \<Rightarrow> fd_sets" where
  "readable fd = \<lparr>read_fds = {fd}, write_fds = {}, error_fds = {}\<rparr>"

lemma one_socket_reachable: "loop_reachable (one_socket cb)"
  unfolding one_socket_def by (intro loop_reachable.intros)

lemma one_socket_sockets:
  "socket_events (one_socket cb) = [(4, 1)]" "socket_callbacks (one_socket cb) = [(4, cb)]"
  "\<forall>fd \<in> {4 :: int}. fd_in_range fd" "wants 1 READ" "\<not> wants 1 WRITE" "\<not> wants 1 ERROR_EVENT"
  by (simp_all add: one_socket_def event_loop_new_def add_socket_def fd_in_range_def FD_SETSIZE_def wants_def)

lemma one_socket_round:
  "process_events (one_socket (\<lambda>fd t. [Stop])) [] (Some (readable 4)) =
     Returned (one_socket (\<lambda>fd t. [Stop]), 1, [(4, READ)])"
  using one_socket_sockets(3)
  by (simp add: process_events_def setup_fd_sets_def one_socket_sockets select_sets_def select_count_def readable_def
      process_select_events_def fired_def)
     (simp add: one_socket_def add_socket_def loop_stop_def event_loop_new_def)

theorem reachable_loop_consistent_witness:
  "fst ` set (socket_callbacks (exec_call (one_socket (\<lambda>fd t. [])) (Remove_socket 4))) =
   fst ` set (socket_events (exec_call (one_socket (\<lambda>fd t. [])) (Remove_socket 4)))"
  using reachable_loop_consistent[OF loop_reachable.called[OF one_socket_reachable[of "\<lambda>fd t. []"], of "Remove_socket 4"]]
  by simp

theorem dispatch_exact_witness:
  "process_events (one_socket (\<lambda>fd t. [Stop])) [] (Some (readable 4)) =
     Returned (one_socket (\<lambda>fd t. [Stop]), 1, [(4, READ)]) \<and>
   selected (one_socket (\<lambda>fd t. [Stop])) (readable 4) 4 READ"
  using dispatch_exact[OF one_socket_reachable refl _ _ one_socket_round] one_socket_round one_socket_sockets
  by simp blast

theorem dispatch_deadlocks_iff_relocked_witness:
  "process_events (one_socket (\<lambda>fd t. [Remove_socket fd])) [] (Some (readable 4)) = Deadlock"
proof -
  let ?l = "one_socket (\<lambda>fd t. [Remove_socket fd])"
  have "selected ?l (readable 4) 4 READ" by (simp add: selected_def one_socket_sockets readable_def)
  then show ?thesis
    using dispatch_deadlocks_iff_relocked[OF one_socket_reachable refl, of "\<lambda>fd t. [Remove_socket fd]" "[]" "readable 4"]
      one_socket_sockets by fastforce
qed

theorem descriptor_zero_never_served_witness:
  "process_events (add_socket event_loop_new 0 1 (\<lambda>fd t. [Stop])) [] (Some (readable 0)) =
     Returned (add_socket event_loop_new 0 1 (\<lambda>fd t. [Stop]), 0, [])"
proof -
  have "\<forall>fd \<in> fst ` set (socket_events (add_socket event_loop_new 0 1 (\<lambda>fd t. [Stop]))). fd = 0"
    by (simp add: add_socket_def event_loop_new_def)
  from descriptor_zero_never_served[OF this, of "[]"] show ?thesis by simp
qed

theorem stop_ends_loop_witness:
  "event_loop_main (event_loop_new\<lparr>el_running := True\<rparr>) [\<lparr>lr_before = [Stop], lr_during = [], lr_ready = None\<rparr>] =
     Returned (event_loop_new\<lparr>el_running := True, stop_requested := True\<rparr>, [], True)"
  using stop_ends_loop[of "event_loop_new\<lparr>el_running := True\<rparr>" "\<lparr>lr_before = [Stop], lr_during = [], lr_ready = None\<rparr>" "[]"]
  by (simp add: loop_stop_def)

definition one_client :: event_loop where
  "one_client = exec_call (one_socket (\<lambda>fd t. [])) (Add_client (conn_new \<lparr>sock_fd = 4, sock_in = [], sock_plan = [], sock_out = []\<rparr>))"

theorem handle_client_data_correct_witness:
  "get_connection (el_connections (handle_client_data one_client 4)) 1 = None \<and>
   map_of (socket_callbacks (handle_client_data one_client 4)) 4 = None"
proof -
  let ?c = "conn_new \<lparr>sock_fd = 4, sock_in = [], sock_plan = [], sock_out = []\<rparr>"
  have reach: "loop_reachable one_client"
    unfolding one_client_def by (intro loop_reachable.called one_socket_reachable)
  have conns: "cm_connections (el_connections one_client) = [(1, ?c)]"
    by (simp add: one_client_def one_socket_def add_client_def add_socket_def add_connection_def event_loop_new_def cm_new_def)
  then have c: "get_connection (el_connections one_client) 1 = Some ?c" by (simp add: get_connection_def)
  have fd: "sock_fd (conn_socket ?c) = 4" by (simp add: conn_new_def)
  have only: "\<forall>i d. get_connection (el_connections one_client) i = Some d \<and> sock_fd (conn_socket d) = 4 \<longrightarrow> i = 1"
    using conns by (simp add: get_connection_def)
  have "snd (conn_read ?c) = 0" by (simp add: conn_read_def conn_new_def is_connected_def socket_recv_def)
  then show ?thesis using handle_client_data_correct[OF reach c fd only refl] by simp
qed

theorem connection_ids_fresh_witness:
  "(2 :: u64) \<notin> set (get_connection_ids (foldl manager_step cm_new [Add (conn_new \<lparr>sock_fd = 4, sock_in = [], sock_plan = [], sock_out = []\<rparr>), Remove 1]))"
proof -
  let ?ops = "[Add (conn_new \<lparr>sock_fd = 4, sock_in = [], sock_plan = [], sock_out = []\<rparr>), Remove 1]"
  have "add_connection (foldl manager_step cm_new ?ops) c = (fst (add_connection (foldl manager_step cm_new ?ops) c), 2)" for c
    by (simp add: add_connection_def remove_connection_def cm_new_def)
  from connection_ids_fresh[OF refl _ this] show ?thesis by (simp add: adds_def)
qed

end
