(* ===== verification/Logger.thy ===== *)
theory Logger
  imports Prelude
begin

text \<open>
  \<^verbatim>\<open>Logger\<close> of \<^verbatim>\<open>src/src/utils/logger.hpp\<close>: levels, the filter on the minimal level and
  the text of a log line. What \<^verbatim>\<open>std::put_time\<close> prints for the current time is an argument.
  The second half is the logger used by several threads: a line is written in pieces under the
  mutex, and the theorem is that lines of different threads are never mixed.
\<close>

section \<open>Levels\<close>

datatype log_level = DEBUG | INFO | WARN | ERROR_LEVEL | FATAL

fun level_value :: "log_level \<Rightarrow> nat" where
  "level_value DEBUG = 0"
| "level_value INFO = 1"
| "level_value WARN = 2"
| "level_value ERROR_LEVEL = 3"
| "level_value FATAL = 4"

lemma level_value_inject [simp]: "level_value a = level_value b \<longleftrightarrow> a = b"
  by (cases a; cases b) simp_all

instantiation log_level :: linorder
begin

definition less_eq_log_level :: "log_level \<Rightarrow> log_level \<Rightarrow> bool" where
  "less_eq_log_level a b = (level_value a \<le> level_value b)"

definition less_log_level :: "log_level \<Rightarrow> log_level \<Rightarrow> bool" where
  "less_log_level a b = (level_value a < level_value b)"

instance
  by standard (auto simp: less_eq_log_level_def less_log_level_def)

end

fun level_string :: "log_level \<Rightarrow> string" where
  "level_string DEBUG = ''DEBUG''"
| "level_string INFO = ''INFO''"
| "level_string WARN = ''WARN''"
| "level_string ERROR_LEVEL = ''ERROR''"
| "level_string FATAL = ''FATAL''"

section \<open>The logger\<close>

record logger =
  min_level :: log_level
  show_timestamp :: bool
  log_output :: string

definition logger_new :: logger where
  "logger_new = \<lparr>min_level = INFO, show_timestamp = True, log_output = []\<rparr>"

definition set_level :: "logger \<Rightarrow> log_level \<Rightarrow> logger" where
  "set_level l level = l\<lparr>min_level := level\<rparr>"

definition set_show_timestamp :: "logger \<Rightarrow> bool \<Rightarrow> logger" where
  "set_show_timestamp l sh = l\<lparr>show_timestamp := sh\<rparr>"

text \<open>The pieces that are written to \<^verbatim>\<open>std::cerr\<close> one after the other.\<close>

definition log_pieces :: "bool \<Rightarrow> string \<Rightarrow> log_level \<Rightarrow> string \<Rightarrow> string list" where
  "log_pieces sh now level msg =
     (if sh then [''['', now, ''] ''] else []) @ [''['', level_string level, ''] '', msg, [CHR 0x0A]]"

definition log_message :: "logger \<Rightarrow> string \<Rightarrow> log_level \<Rightarrow> string \<Rightarrow> logger" where
  "log_message l now level msg =
     (if level < min_level l then l
      else l\<lparr>log_output := log_output l @ concat (log_pieces (show_timestamp l) now level msg)\<rparr>)"

definition log_debug :: "logger \<Rightarrow> string \<Rightarrow> string \<Rightarrow> logger" where
  "log_debug l now msg = log_message l now DEBUG msg"

definition log_info :: "logger \<Rightarrow> string \<Rightarrow> string \<Rightarrow> logger" where
  "log_info l now msg = log_message l now INFO msg"

definition log_warn :: "logger \<Rightarrow> string \<Rightarrow> string \<Rightarrow> logger" where
  "log_warn l now msg = log_message l now WARN msg"

definition log_error :: "logger \<Rightarrow> string \<Rightarrow> string \<Rightarrow> logger" where
  "log_error l now msg = log_message l now ERROR_LEVEL msg"

definition log_fatal :: "logger \<Rightarrow> string \<Rightarrow> string \<Rightarrow> logger" where
  "log_fatal l now msg = log_message l now FATAL msg"

text \<open>\<^verbatim>\<open>format_log\<close>, of arguments given as the text \<^verbatim>\<open>operator<<\<close> writes for them.\<close>

definition format_log :: "string list \<Rightarrow> string" where
  "format_log args = concat args"

text \<open>A call of the logger: the time, the level and the message.\<close>

type_synonym log_call = "string \<times> log_level \<times> string"

definition log_line :: "bool \<Rightarrow> log_call \<Rightarrow> string" where
  "log_line sh c = (case c of (now, level, msg) \<Rightarrow> concat (log_pieces sh now level msg))"

lemma log_calls_output:
  "foldl (\<lambda>l (now, level, msg). log_message l now level msg) l cs =
   l\<lparr>log_output := log_output l @ concat (map (log_line (show_timestamp l)) (filter (\<lambda>c. min_level l \<le> fst (snd c)) cs))\<rparr>"
proof (induction cs arbitrary: l)
  case (Cons c cs)
  obtain now level msg where c: "c = (now, level, msg)" by (cases c)
  show ?case using Cons[of "log_message l now level msg"]
    by (auto simp: c log_message_def log_line_def not_less)
qed simp

text \<open>
  The log holds exactly the messages at or above the minimal level, each as one line, in the
  order of the calls; with the default level only \<^verbatim>\<open>DEBUG\<close> messages are left out.
\<close>

theorem log_holds_enabled_messages:
  "log_output (foldl (\<lambda>l (now, level, msg). log_message l now level msg) (set_level logger_new level0) cs) =
     concat (map (log_line True) (filter (\<lambda>c. level0 \<le> fst (snd c)) cs)) \<and>
   (INFO \<le> level \<longleftrightarrow> level \<noteq> DEBUG)"
  by (cases level) (simp_all add: log_calls_output set_level_def logger_new_def less_eq_log_level_def)

section \<open>Several threads\<close>

text \<open>
  A thread is idle, waits for the mutex with the call it has made, or holds the mutex and has some pieces of its line still
  to write. \<open>ls_called\<close> is not kept by the code: it lists the calls that passed the filter, with their threads, as
  they were made.
\<close>

datatype log_pc = Idle | Wants log_call | Writes log_call "string list"

record log_state =
  ls_cerr :: string
  ls_mutex :: "nat option"
  ls_pc :: "nat \<Rightarrow> log_pc"
  ls_called :: "(nat \<times> log_call) list"

definition log_start :: log_state where
  "log_start = \<lparr>ls_cerr = [], ls_mutex = None, ls_pc = (\<lambda>_. Idle), ls_called = []\<rparr>"

inductive log_step :: "log_level \<Rightarrow> bool \<Rightarrow> log_state \<Rightarrow> log_state \<Rightarrow> bool" for lv sh where
  call: "ls_pc s i = Idle \<Longrightarrow> \<not> level < lv \<Longrightarrow>
    log_step lv sh s (s\<lparr>ls_pc := (ls_pc s)(i := Wants (now, level, msg)), ls_called := ls_called s @ [(i, now, level, msg)]\<rparr>)"
| lock: "ls_pc s i = Wants (now, level, msg) \<Longrightarrow> ls_mutex s = None \<Longrightarrow>
    log_step lv sh s (s\<lparr>ls_mutex := Some i, ls_pc := (ls_pc s)(i := Writes (now, level, msg) (log_pieces sh now level msg))\<rparr>)"
| piece: "ls_pc s i = Writes c (p # ps) \<Longrightarrow>
    log_step lv sh s (s\<lparr>ls_cerr := ls_cerr s @ p, ls_pc := (ls_pc s)(i := Writes c ps)\<rparr>)"
| unlock: "ls_pc s i = Writes c [] \<Longrightarrow>
    log_step lv sh s (s\<lparr>ls_mutex := None, ls_pc := (ls_pc s)(i := Idle)\<rparr>)"

inductive log_reachable :: "log_level \<Rightarrow> bool \<Rightarrow> log_state \<Rightarrow> bool" for lv sh where
  start: "log_reachable lv sh log_start"
| step: "log_reachable lv sh s \<Longrightarrow> log_step lv sh s s' \<Longrightarrow> log_reachable lv sh s'"

text \<open>How a line of the log reads.\<close>

definition line_text :: "bool \<Rightarrow> log_call \<Rightarrow> string" where
  "line_text sh c =
     (case c of (now, level, msg) \<Rightarrow>
        (if sh then ''['' @ now @ ''] '' else []) @ ''['' @ level_string level @ ''] '' @ msg @ [CHR 0x0A])"

lemma concat_log_pieces: "concat (log_pieces sh now level msg) = line_text sh (now, level, msg)"
  by (simp add: log_pieces_def line_text_def)

text \<open>The calls of a thread, and the one it is in.\<close>

definition calls_of :: "nat \<Rightarrow> (nat \<times> log_call) list \<Rightarrow> log_call list" where
  "calls_of i cs = map snd (filter (\<lambda>e. fst e = i) cs)"

fun current_call :: "log_pc \<Rightarrow> log_call list" where
  "current_call Idle = []"
| "current_call (Wants c) = [c]"
| "current_call (Writes c ps) = [c]"

lemma calls_of_snoc [simp]: "calls_of i (cs @ [(j, c)]) = calls_of i cs @ (if j = i then [c] else [])"
  by (simp add: calls_of_def)

text \<open>What is written of the line of the thread that holds the mutex.\<close>

definition unfinished :: "bool \<Rightarrow> log_state \<Rightarrow> string \<Rightarrow> bool" where
  "unfinished sh s part =
     (case ls_mutex s of
        None \<Rightarrow> part = []
      | Some i \<Rightarrow> \<exists>c ps. ls_pc s i = Writes c ps \<and> part @ concat ps = line_text sh c)"

definition log_inv :: "bool \<Rightarrow> log_state \<Rightarrow> bool" where
  "log_inv sh s =
     ((\<forall>i. (\<exists>c ps. ls_pc s i = Writes c ps) \<longleftrightarrow> ls_mutex s = Some i) \<and>
      (\<exists>written part. ls_cerr s = concat (map (line_text sh \<circ> snd) written) @ part \<and> unfinished sh s part \<and>
         (\<forall>i. calls_of i (ls_called s) = calls_of i written @ current_call (ls_pc s i))))"

lemma log_inv_start: "log_inv sh log_start"
  unfolding log_inv_def by (auto simp: log_start_def unfinished_def calls_of_def intro!: exI[of _ "[]"])

lemma log_inv_step:
  assumes "log_step lv sh s s'" "log_inv sh s"
  shows "log_inv sh s'"
proof -
  have held: "(\<exists>c ps. ls_pc s i = Writes c ps) \<longleftrightarrow> ls_mutex s = Some i" for i using assms(2) by (simp add: log_inv_def)
  obtain written part where w: "ls_cerr s = concat (map (line_text sh \<circ> snd) written) @ part" "unfinished sh s part"
    "\<And>i. calls_of i (ls_called s) = calls_of i written @ current_call (ls_pc s i)"
    using assms(2) by (auto simp: log_inv_def)
  from assms(1) show ?thesis
  proof cases
    case (call i level now msg)
    then have "ls_mutex s \<noteq> Some i" using held[of i] by auto
    then show ?thesis unfolding log_inv_def using call held w
      by (intro conjI exI[of _ written] exI[of _ part]) (auto simp: unfinished_def split: option.splits)
  next
    case (lock i now level msg)
    then show ?thesis unfolding log_inv_def using held w
      by (intro conjI exI[of _ written] exI[of _ "[]"]) (auto simp: unfinished_def concat_log_pieces)
  next
    case (piece i c p ps)
    then have "ls_mutex s = Some i" using held[of i] by blast
    then show ?thesis unfolding log_inv_def using piece held w
      by (intro conjI exI[of _ written] exI[of _ "part @ p"]; cases c) (auto simp: unfinished_def)
  next
    case (unlock i c)
    then have "ls_mutex s = Some i" using held[of i] by blast
    moreover from this have "ls_pc s j \<noteq> Writes c' ps" if "j \<noteq> i" for j c' ps
      using held[of j] that by (metis option.inject)
    ultimately show ?thesis unfolding log_inv_def using unlock w
      by (intro conjI exI[of _ "written @ [(i, c)]"] exI[of _ "[]"]) (auto simp: unfinished_def)
  qed
qed

text \<open>
  C30: Lines of different threads are never mixed: in every state of any number of threads that log, what has
  been written is a concatenation of whole lines, each ended by a newline, followed by the beginning of at most one more, that
  of the thread that holds the mutex; when nobody holds it only whole lines are there. The lines of each thread are those of the
  calls it has made, in their order, each once, but for the call it is in.
\<close>

theorem log_lines_not_mixed:
  assumes "log_reachable lv sh s"
  shows "\<exists>written part. ls_cerr s = concat (map (line_text sh \<circ> snd) written) @ part \<and>
    (case ls_mutex s of
       None \<Rightarrow> part = []
     | Some i \<Rightarrow> \<exists>c ps. ls_pc s i = Writes c ps \<and> part @ concat ps = line_text sh c) \<and>
    (\<forall>i. calls_of i (ls_called s) = calls_of i written @ current_call (ls_pc s i))"
proof -
  have "log_inv sh s" using assms by induction (auto intro: log_inv_start log_inv_step)
  then show ?thesis by (simp add: log_inv_def unfinished_def)
qed

text \<open>A thread that has begun to write its line.\<close>

theorem log_lines_not_mixed_witness:
  "\<exists>s. log_reachable INFO False s \<and> ls_cerr s = ''['' \<and> ls_called s = [(0, [], WARN, ''x'')] \<and>
     (\<exists>written part. ls_cerr s = concat (map (line_text False \<circ> snd) written) @ part \<and>
        calls_of 0 (ls_called s) = calls_of 0 written @ [([], WARN, ''x'')])"
proof -
  let ?ps = "log_pieces False [] WARN ''x''" and ?c = "([], WARN, ''x'') :: log_call"
  let ?s1 = "log_start\<lparr>ls_pc := (ls_pc log_start)(0 := Wants ?c), ls_called := ls_called log_start @ [(0, ?c)]\<rparr>"
  let ?s2 = "?s1\<lparr>ls_mutex := Some 0, ls_pc := (ls_pc ?s1)(0 := Writes ?c ?ps)\<rparr>"
  let ?s3 = "?s2\<lparr>ls_cerr := ls_cerr ?s2 @ ''['', ls_pc := (ls_pc ?s2)(0 := Writes ?c (tl ?ps))\<rparr>"
  have "log_reachable INFO False ?s1"
    by (rule step[OF start call]) (simp_all add: log_start_def less_log_level_def)
  then have "log_reachable INFO False ?s2" by (rule step[OF _ lock]) (simp_all add: log_start_def)
  then have reach: "log_reachable INFO False ?s3" by (rule step[OF _ piece]) (simp add: log_pieces_def)
  have facts: "ls_cerr ?s3 = ''[''" "ls_called ?s3 = [(0, ?c)]" "current_call (ls_pc ?s3 0) = [?c]" by (simp_all add: log_start_def)
  obtain written part where "ls_cerr ?s3 = concat (map (line_text False \<circ> snd) written) @ part"
    "calls_of 0 (ls_called ?s3) = calls_of 0 written @ [?c]"
    using log_lines_not_mixed[OF reach] unfolding facts(3)[symmetric] by blast
  then show ?thesis using reach facts(1,2) by blast
qed

end
