(* ===== verification/Repository_Tests.thy ===== *)
theory Repository_Tests
  imports Hash_Table Protocol Ttl_Manager
begin

text \<open>
  The repository's own tests, \<^verbatim>\<open>src/tests/test_basic.cpp\<close>, run on the model: each test function is the conjunction of
  its assertions, evaluated. What the clock reads in the test of the deadlines is an argument; the test passes
  whenever its sleep of 1.1 seconds lasts at least a second.
\<close>

definition test_hashtable :: bool where
  "test_hashtable =
     (case ht_new 16 of None \<Rightarrow> False | Some table \<Rightarrow>
        let (t1, new1) = ht_set table ''key1'' ''value1'';
            (t2, new2) = ht_set t1 ''key1'' ''value2'';
            (t3, found) = ht_del t2 ''key1'';
            t4 = fst (ht_set (fst (ht_set (fst (ht_set t3 ''a'' ''1'')) ''b'' ''2'')) ''c'' ''3'')
        in new1 \<and> ht_get t1 ''key1'' = Some ''value1'' \<and> ht_exists t1 ''key1'' \<and> ht_size t1 = 1 \<and>
           \<not> new2 \<and> ht_get t2 ''key1'' = Some ''value2'' \<and>
           found \<and> \<not> ht_exists t3 ''key1'' \<and> ht_size t3 = 0 \<and>
           ht_size t4 = 3 \<and> length (ht_keys t4 ''*'') = 3)"

definition test_protocol :: bool where
  "test_protocol =
     (let msg = make_simple_string ''OK'';
          data = serialize msg;
          parser = feed_vector parser_new data;
          cmd = make_command [''SET'', ''key'', ''value'']
      in is_string msg \<and> as_string msg = ''OK'' \<and> length data > 0 \<and> has_message parser \<and>
         (case parse_message parser of (Parsed parsed, b) \<Rightarrow> as_string parsed = ''OK'' | _ \<Rightarrow> False) \<and>
         is_array cmd \<and> parse_command (Some cmd) = [''SET'', ''key'', ''value''])"

text \<open>The clock is read by the first \<^verbatim>\<open>set_ttl\<close>, by the \<^verbatim>\<open>get_ttl\<close> after it, by the second \<^verbatim>\<open>set_ttl\<close> and after the sleep.\<close>

definition test_ttl_manager :: "int \<Rightarrow> int \<Rightarrow> int \<Rightarrow> int \<Rightarrow> bool" where
  "test_ttl_manager now1 now2 now3 now4 =
     (case set_ttl now1 ttl_new ''key1'' 5 of
        Returned (m1, ok1) \<Rightarrow>
          (let (m2, ok2) = remove_ttl m1 ''key1''
           in ok1 \<and> has_ttl m1 ''key1'' \<and> get_ttl now2 m1 ''key1'' > 0 \<and>
              ok2 \<and> \<not> has_ttl m2 ''key1'' \<and> get_ttl now2 m2 ''key1'' = - 1 \<and>
              (case set_ttl now3 m2 ''key2'' 1 of
                 Returned (m3, ok3) \<Rightarrow>
                   (let (m4, keys, expired) = check_expirations now4 m3
                    in ok3 \<and> expired = 1 \<and> \<not> has_ttl m4 ''key2'')
               | _ \<Rightarrow> False))
      | _ \<Rightarrow> False)"

text \<open>The hash table passes by its contract alone.\<close>

lemma test_hashtable_passes: "test_hashtable"
proof -
  let ?t = "\<lambda>m. fst (ht_set (fst (ht_set (fst (ht_set m ''a'' ''1'')) ''b'' ''2'')) ''c'' ''3'')"
  let ?t3 = "fst (ht_del (fst (ht_set (fst (ht_set default_table ''key1'' ''value1'')) ''key1'' ''value2'')) ''key1'')"
  have wf: "ht_wf ?t3" "ht_wf (?t ?t3)" using default_table_wf by (simp_all add: ht.invars)
  have t3: "ht_map ?t3 = Map.empty" using default_table_wf by (simp add: ht.invars ht.maps default_table_map)
  then have dom: "dom (ht_map (?t ?t3)) = {''a'', ''b'', ''c''}" using wf(1) by (auto simp: ht.invars ht.maps)
  then have "ht_size (?t ?t3) = 3" using ht.size_card[OF wf(2)] by simp
  moreover have "set (ht_keys (?t ?t3) ''*'') = {''a'', ''b'', ''c''}"
    using ht.keys_set[OF wf(2), of "''*''"] dom by (auto simp: matches_pattern_def)
  then have "length (ht_keys (?t ?t3) ''*'') = 3" using distinct_card[OF ht.keys_distinct[OF wf(2)], of "''*''"] by simp
  moreover have "ht_size ?t3 = 0" using ht.size_card[OF wf(1)] t3 by simp
  moreover have "ht_size (fst (ht_set default_table ''key1'' ''value1'')) = 1"
    using ht.size_set[OF default_table_wf, of "''key1''" "''value1''"] by (simp add: default_table_map) (simp add: default_table_def)
  ultimately show ?thesis unfolding test_hashtable_def default_table_new option.case using default_table_wf
    by (simp add: case_prod_beta Let_def ht.invars ht.maps default_table_map)
qed

lemma test_protocol_passes: "test_protocol"
  by code_simp

lemma set_ttl_first:
  assumes "0 < seconds" "in_int64 (seconds * ns_per_s)" "in_int64 (now + seconds * ns_per_s)" "expiration_heap m = []" "key_to_index m key = None"
  shows "set_ttl now m key seconds =
    Returned (m\<lparr>expiration_heap := [\<lparr>te_key = key, expire_time = now + seconds * ns_per_s, te_id = next_id m\<rparr>],
      key_to_index := (key_to_index m)(key \<mapsto> 0), key_to_id := (key_to_id m)(key \<mapsto> next_id m), next_id := next_id m + 1\<rparr>, True)"
  using assms by (simp add: set_ttl_def calculate_expire_time_def set_deadline_def Let_def heapify_up.simps)

text \<open>The test of the deadlines passes for all readings of the clock that its timing allows.\<close>

lemma test_ttl_manager_passes:
  assumes "0 \<le> now1" "now1 \<le> now2" "now2 < now1 + 4 * ns_per_s" "now2 \<le> now3" "now3 + ns_per_s \<le> now4" "now4 < 2 ^ 62"
  shows "test_ttl_manager now1 now2 now3 now4"
proof -
  have range: "in_int64 (now1 + 5 * ns_per_s)" "in_int64 (now3 + 1 * ns_per_s)" "in_int64 (5 * ns_per_s)" "in_int64 (1 * ns_per_s)"
    using assms by (auto simp: in_int64_def ns_per_s_def)
  have "(now1 + 5 * ns_per_s - now2) div ns_per_s > 0" using assms by (simp add: ns_per_s_def pos_imp_zdiv_pos_iff)
  then show ?thesis
    using range assms
    by (simp add: test_ttl_manager_def set_ttl_first ttl_new_def remove_ttl_def remove_from_heap_def Let_def has_ttl_def get_ttl_def
        remaining_ttl_def duration_cast_def check_expirations_def expire_loop.simps)
qed

lemma test_ttl_manager_example: "test_ttl_manager 0 1000 2000 1100002000"
  by (rule test_ttl_manager_passes) (simp_all add: ns_per_s_def)

end
