(* ===== verification/Spec2Isabelle.thy ===== *)
theory Spec2Isabelle
  imports Hash_Iterator Concurrent_Store Concurrent_Set Ttl_Mutex Message_Types Entry_Points Poll_Loop Event_Loop Logger
    Repository_Tests
begin

text \<open>
  A verification development for ScuffedRedis, a small key-value server written in C++. Paths below
  are relative to \<^verbatim>\<open>src/src/\<close>.

  \<^bold>\<open>The program.\<close> A client encodes a command as an array of bulk strings
  (\<^verbatim>\<open>protocol/\<close>) and sends it over TCP (\<^verbatim>\<open>client/\<close>, \<^verbatim>\<open>network/tcp_client\<close>). The server
  (\<^verbatim>\<open>network/tcp_server\<close>) reads bytes into the buffer of a connection and calls the command
  handler (\<^verbatim>\<open>server/command_handler\<close>), which feeds them to a parser, executes every message against
  the store (\<^verbatim>\<open>server/kv_store\<close>) and writes the serialised reply back. The store keeps its data in
  a hash table behind a reader-writer lock (\<^verbatim>\<open>data/hashtable\<close>). Beside this path the program
  has sorted sets over an AVL tree (\<^verbatim>\<open>data/sorted_set\<close>, \<^verbatim>\<open>data/avl_tree\<close>), a manager of
  deadlines (\<^verbatim>\<open>data/ttl_manager\<close>) and an event loop (\<^verbatim>\<open>event/event_loop\<close>), which the server
  does not call yet, and a second, self-contained server (\<^verbatim>\<open>server/simple_server\<close>).

  \<^bold>\<open>The theories\<close>, in the order of their imports.

  \<^item> \<^verbatim>\<open>Prelude\<close>: machine types, strings and bytes, shared lemmas and the collections
    \<^verbatim>\<open>wf_intros\<close>, \<^verbatim>\<open>abs_simps\<close> and \<^verbatim>\<open>byte_simps\<close>.
  \<^item> \<^verbatim>\<open>Murmur\<close>: \<^verbatim>\<open>murmur3_32\<close> of \<^verbatim>\<open>data/hashtable.cpp\<close> on 32-bit words.
  \<^item> \<^verbatim>\<open>Wildcard\<close>: \<^verbatim>\<open>matches_pattern\<close>. Its backtracking loop is total and, for keys without
    stars, equivalent to the declarative pattern language; the case of keys with stars is shown
    to differ.
  \<^item> \<^verbatim>\<open>Table_Spec\<close>: the contract of a table (locale \<^verbatim>\<open>kv_table\<close>) and what follows from it for clients.
  \<^item> \<^verbatim>\<open>Hash_Table\<close>, \<^verbatim>\<open>Hash_Iterator\<close>: \<^verbatim>\<open>HashTable\<close>. The state is a record of the buckets, lists of nodes,
    and the size; the invariant (every node in the bucket of its hash, keys distinct, size right,
    capacity a power of two) holds in every reachable state, all operations refine a map, resizing keeps it,
    the table interprets \<^verbatim>\<open>kv_table\<close>; the iterator is a cursor.
  \<^item> \<^verbatim>\<open>Locked_Object\<close>: objects whose methods run under a lock, shared or exclusive, for any object (locale \<^verbatim>\<open>locked_object\<close>): threads
    take the lock, read, write back and release it in separate steps, and every interleaving is a sequential execution.
  \<^item> \<^verbatim>\<open>Threads\<close>: threads that serve requests by programs over such an object and atomic counters. They simulate threads for
    which a method is one step; when every program has one call that decides it, the requests are linearisable (locale
    \<^verbatim>\<open>point_requests\<close>); how to show that a history has no linearisation.
  \<^item> \<^verbatim>\<open>Concurrent_Table\<close>: \<^verbatim>\<open>ConcurrentHashTable\<close> as such an object.
  \<^item> \<^verbatim>\<open>Avl_Tree\<close>: the template \<^verbatim>\<open>AVLTree\<close> for any comparator that is a strict weak order (locale
    \<^verbatim>\<open>strict_weak_order\<close>): insertion and removal keep order and balance with the stored heights and refine a
    sorted association list; range, rank and height bounds.
  \<^item> \<^verbatim>\<open>Sorted_Set\<close>: \<^verbatim>\<open>SortedSet\<close> and \<^verbatim>\<open>SortedSetManager\<close>; scores are IEEE doubles by their bit patterns. The
    tree and the score map agree in every reachable state; ranks, ranges and counts.
  \<^item> \<^verbatim>\<open>Ttl_Manager\<close>: \<^verbatim>\<open>TTLManager\<close> with its heap and index maps; a blocked mutex is a value of the result. No key expires
    early, the maps stay consistent; the sift-down of the heap is shown to be wrong.
  \<^item> \<^verbatim>\<open>Ttl_Background\<close>: the expiration callback, and the background checker with the threads that start and stop it,
    one statement at a time, and the end of the program, which terminates it when the checker still runs.
  \<^item> \<^verbatim>\<open>Locked_Spec\<close>: locked objects whose methods may also fail to return, and their contract towards an abstract specification
    (locale \<^verbatim>\<open>locked_component\<close>): what has returned is a run of the specification.
  \<^item> \<^verbatim>\<open>Concurrent_Ttl\<close>: \<^verbatim>\<open>TTLManager\<close> as such an object, with one callback and readings of the clock to which the amounts can be
    added; for all its threads it is a map of deadlines.
  \<^item> \<^verbatim>\<open>Ttl_Mutex\<close>: the same methods with every locking of the \<^verbatim>\<open>std::mutex\<close> as a statement. That a call with an amount that is not
    positive, and a callback that calls the manager, lock a mutex they hold and then everybody out, is derived from the statements.
  \<^item> \<^verbatim>\<open>Codec\<close>: the contract of a wire format (locale \<^verbatim>\<open>codec\<close>), interpreted for the messages of \<^verbatim>\<open>Protocol\<close> and the frames of
    \<^verbatim>\<open>Simple_Server\<close>: streams of messages can be taken apart in one way only.
  \<^item> \<^verbatim>\<open>Protocol\<close>: messages, serialisation and the buffering parser with its 32-bit lengths; round trips, streams of
    messages, behaviour on split and malformed input. Reads beyond the buffer are the result \<^verbatim>\<open>Crash\<close>.
  \<^item> \<^verbatim>\<open>Kv_Store\<close>: \<^verbatim>\<open>KVStore\<close> with all registered commands; every command refines the abstract store
    \<^verbatim>\<open>redis_step\<close>, an inductive specification over a map.
  \<^item> \<^verbatim>\<open>Concurrent_Store\<close>: the commands as programs over the locked table and the atomic counters of \<^verbatim>\<open>KVStore\<close>. A command that
    runs alone is \<^verbatim>\<open>execute_command\<close>; every request is counted once; commands of several threads are linearisable towards \<^verbatim>\<open>redis_step\<close>, except those
    on several keys, for which a run without linearisation is given.
  \<^item> \<^verbatim>\<open>Concurrent_Set\<close>: the methods of \<^verbatim>\<open>SortedSet\<close> and \<^verbatim>\<open>SortedSetManager\<close> that take their mutexes, used by several threads.
    \<^verbatim>\<open>zcard\<close>, \<^verbatim>\<open>empty\<close> and \<^verbatim>\<open>zrevrank\<close> read \<^verbatim>\<open>size_\<close> without the mutex, which is a data race, and are sequential only.
  \<^item> \<^verbatim>\<open>Message_Types\<close>: a typing of messages; what the parser delivers and the store answers is well typed.
  \<^item> \<^verbatim>\<open>Socket\<close>: \<^verbatim>\<open>Socket\<close> over a description of what the operating system answers, and its objects as owners
    of descriptors: every open descriptor has exactly one owner and none is closed twice, as long as the program gives no descriptor
    to two objects by the constructor from a number; a program that does so closes it twice.
  \<^item> \<^verbatim>\<open>Connection\<close>: \<^verbatim>\<open>ClientConnection\<close>; the contract of a writer (locale \<^verbatim>\<open>byte_sink\<close>) is interpreted here and
    for the client.
  \<^item> \<^verbatim>\<open>Command_Handler\<close>: \<^verbatim>\<open>CommandHandler\<close> and \<^verbatim>\<open>TcpServer::handle_client\<close>; pipelined requests, many clients, and
    how one malformed message silences the server.
  \<^item> \<^verbatim>\<open>Tcp_Server\<close>: the life cycle of \<^verbatim>\<open>TcpServer\<close>: \<^verbatim>\<open>init\<close>, the accept loop with its flags, \<^verbatim>\<open>run_async\<close>, \<^verbatim>\<open>stop\<close>.
    A signal interrupts the accept under way; closing the listening socket in another thread does not, as on Linux, so that a \<^verbatim>\<open>stop\<close> from
    there waits for the next client.
  \<^item> \<^verbatim>\<open>Tcp_Client\<close>, \<^verbatim>\<open>Redis_Client\<close>: \<^verbatim>\<open>TcpClient\<close> with its text protocol, \<^verbatim>\<open>RedisClient\<close> and the interactive mode.
  \<^item> \<^verbatim>\<open>Entry_Points\<close>: the \<^verbatim>\<open>main\<close> functions of server and client, their arguments, signals and exit codes.
  \<^item> \<^verbatim>\<open>Simple_Server\<close>, \<^verbatim>\<open>Poll_Loop\<close>: \<^verbatim>\<open>simple_server.cpp\<close>; the requests, buffers and handlers of one connection, then the
    table of connections and the poll loop: any interleaving of clients is equivalent to one sequence of requests, and no complete
    request is left unexecuted; a write to a connection that was reset ends the process by \<^verbatim>\<open>SIGPIPE\<close>.
  \<^item> \<^verbatim>\<open>Logger\<close>: levels, log lines, and lines of several threads under the mutex.
  \<^item> \<^verbatim>\<open>Event_Loop\<close>: \<^verbatim>\<open>ConnectionManager\<close> and \<^verbatim>\<open>EventLoop\<close>.
  \<^item> \<^verbatim>\<open>Repository_Tests\<close>: the assertions of \<^verbatim>\<open>src/tests/test_basic.cpp\<close> hold in the model.
  \<^item> This theory: a whole run of the server program with many clients, and a command from the client program to
    the store and back.

  \<^bold>\<open>Bounds and partiality.\<close> 32- and 64-bit integers are words where the code can wrap (hashes, lengths on
    the wire, integers in messages, identifiers, the capacity of a new table); sizes of containers are natural numbers.
  Loops that may not return are partial functions whose value \<^verbatim>\<open>None\<close> is divergence: the constructor
  of the hash table, the parser, the loops of the handler. That they return is proved: for
  capacities up to \<^verbatim>\<open>2^63\<close>, and for buffers below \<^verbatim>\<open>2^32\<close> bytes, beyond which the lengths of the protocol wrap. All
  other loops are total functions with a termination proof; no fuel is used. Where
  the code converts a size to \<^verbatim>\<open>int\<close> the wrap-around is written out, and ranks and ranges of a sorted set are
  stated for fewer than \<^verbatim>\<open>2^31\<close> members.

  \<^bold>\<open>Not modelled.\<close> The branches for Windows, the texts of error messages of the system and the messages printed to the
  terminal, except those of the interactive mode; running out of memory, also in \<^verbatim>\<open>Parser::parse_array\<close>, which reserves
  what the header asks for. The counters of \<^verbatim>\<open>KVStore\<close> are natural numbers, where the source has 64-bit atomics that would wrap after
  \<^verbatim>\<open>2^64\<close> requests. \<^verbatim>\<open>SIGPIPE\<close> is modelled for the second server only: the \<^verbatim>\<open>send\<close> of \<^verbatim>\<open>Socket\<close> reports an error to its caller,
  while the program, which does not ignore the signal, would end there when the peer has reset the connection. The clock and the answers of the operating system are arguments or, for sending and
  receiving, part of the state. \<^verbatim>\<open>EventLoop::handle_new_connection\<close> and \<^verbatim>\<open>handle_client_write\<close> only log. The \<^verbatim>\<open>handle_z*\<close>
  members of \<^verbatim>\<open>KVStore\<close>, \<^verbatim>\<open>SortedSet::format_results\<close> and \<^verbatim>\<open>TcpServer::accept_connections\<close> are declared and have no definition. The
  arithmetic of doubles in the statistics of sorted sets is a parameter.

  Memory is sequentially consistent, and reads of plain fields without their mutex, which are data races, are not
  given a meaning: threads that use such a method are not modelled, and \<^verbatim>\<open>TTLManager::set_expiration_callback\<close> is called before there are threads.

  What remains of the sources are accessors of single fields, comments and the branches named above. The event loop is modelled
  by itself: nothing in the repository registers a callback that runs the command handler, so that their composition would
  not be code of the program.
\<close>

section \<open>From the socket to the map\<close>

lemma redis_run_length: "redis_run m cmds m' replies \<Longrightarrow> length replies = length cmds"
  by (induction rule: redis_run.induct) auto

lemma redis_run_append:
  "redis_run m cmds m1 rs \<Longrightarrow> redis_run m1 cmds' m2 rs' \<Longrightarrow> redis_run m (cmds @ cmds') m2 (rs @ rs')"
  by (induction rule: redis_run.induct) (auto intro: redis_run.more)

lemma run_requests_commands:
  "kv_wf s \<Longrightarrow> \<forall>args \<in> set cmds. args \<noteq> [] \<Longrightarrow>
   kv_wf (fst (run_requests s (map make_command cmds))) \<and>
   redis_run (kv_map s) cmds (kv_map (fst (run_requests s (map make_command cmds))))
     (snd (run_requests s (map make_command cmds)))"
proof (induction cmds arbitrary: s)
  case Nil
  then show ?case by (simp add: redis_run.nothing)
next
  case (Cons args cmds)
  let ?s1 = "fst (execute_command s (Some (make_command args)))"
  let ?r = "snd (execute_command s (Some (make_command args)))"
  have step: "kv_wf ?s1" "redis_step (kv_map s) args (kv_map ?s1) ?r"
    using execute_command_step[OF Cons.prems(1), of "Some (make_command args)"] Cons.prems(2)
    by (auto simp: parse_make_command)
  then show ?case using Cons.IH[OF step(1)] Cons.prems(2) redis_run.more[OF step(2)]
    by (simp add: case_prod_beta)
qed

lemma run_clients_commands:
  "kv_wf s \<Longrightarrow> \<forall>segs \<in> set clients. \<forall>cmds \<in> set segs. \<forall>args \<in> set cmds. args \<noteq> [] \<Longrightarrow>
   run_clients s (map (map (map make_command)) clients) = (s', replies) \<Longrightarrow>
   kv_wf s' \<and> redis_run (kv_map s) (concat (concat clients)) (kv_map s') (concat replies) \<and>
   map length replies = map (\<lambda>segs. length (concat segs)) clients"
proof (induction clients arbitrary: s replies)
  case Nil
  then show ?case by (simp add: redis_run.nothing)
next
  case (Cons segs clients)
  let ?r = "run_requests s (map make_command (concat segs))"
  have first: "kv_wf (fst ?r)" "redis_run (kv_map s) (concat segs) (kv_map (fst ?r)) (snd ?r)"
    using run_requests_commands[OF Cons.prems(1), of "concat segs"] Cons.prems(2) by auto
  have "concat (map (map make_command) segs) = map make_command (concat segs)" by (simp add: map_concat)
  then obtain rss where rest: "run_clients (fst ?r) (map (map (map make_command)) clients) = (s', rss)" "replies = snd ?r # rss"
    using Cons.prems(3) by (auto split: prod.splits)
  have "kv_wf s' \<and> redis_run (kv_map (fst ?r)) (concat (concat clients)) (kv_map s') (concat rss) \<and>
      map length rss = map (\<lambda>segs. length (concat segs)) clients"
    by (rule Cons.IH[OF first(1) _ rest(1)]) (use Cons.prems(2) in simp)
  then show ?case using redis_run_append[OF first(2)] redis_run_length[OF first(2)] rest(2) by simp
qed

lemma serialize_messages_concat: "serialize_messages (map Some ms) = concat (map serialize ms)"
  by (induction ms) auto

text \<open>The bytes of a segment that holds commands, and the commands that can be sent in one.\<close>

definition wire :: "string list list \<Rightarrow> bytes" where
  "wire cmds = serialize_messages (map (\<lambda>args. Some (make_command args)) cmds)"

definition segment_ok :: "string list list \<Rightarrow> bool" where
  "segment_ok cmds = (cmds \<noteq> [] \<and> [] \<notin> set cmds \<and> length (wire cmds) \<le> 4096)"

lemma wire_concat: "wire cmds = concat (map serialize (map make_command cmds))"
  using serialize_messages_concat[of "map make_command cmds"] by (simp add: wire_def comp_def)

lemma make_command_well_typed: "well_typed (make_command args)"
  by (auto simp: make_command_def)

lemma segment_messages:
  assumes "segment_ok cmds"
  shows "map make_command cmds \<noteq> [] \<and> (\<forall>m \<in> set (map make_command cmds). msg_ok m) \<and>
    length (concat (map serialize (map make_command cmds))) \<le> 4096"
proof -
  have "length (serialize m) \<le> length (concat (map serialize ms))" if "m \<in> set ms" for m ms
    using that by (induction ms) auto
  then have "msg_ok m" if "m \<in> set (map make_command cmds)" for m
    using that assms make_command_well_typed well_typed_msg_ok[of m]
    unfolding segment_ok_def wire_concat by fastforce
  then show ?thesis using assms by (simp add: segment_ok_def wire_concat)
qed

text \<open>
  C1: End to end: the server is started, any number of clients connect one after the other, each sends any number
  of commands, several to a segment of at most 4096 bytes, and closes; then the server is told to terminate. It
  returns exit code 0, and what it sent to each client is the serialisation of one reply per command, in order;
  the replies, and the map of the store afterwards, are those of the abstract store for all commands in turn.
\<close>

theorem session_end_to_end:
  assumes "kv_wf s" "\<forall>segs \<in> set clients. \<forall>cmds \<in> set segs. segment_ok cmds"
    and "sock_valid fresh" "0 < pton" "0 \<le> bind_rc" "0 \<le> listen_rc" "sig = 2 \<or> sig = 15"
  shows "\<exists>srv h' replies.
    server_main argv fresh pton bind_rc listen_rc (handler_new s)
        (map (\<lambda>segs. Client (client_socket (map wire segs))) clients @ signal_handler sig) =
      Some (Finished (0, srv, h', map (\<lambda>rs. serialize_messages (map Some rs)) replies, True)) \<and>
    redis_run (kv_map s) (concat (concat clients)) (kv_map (h_store h')) (concat replies) \<and>
    map length replies = map (\<lambda>segs. length (concat segs)) clients \<and> kv_wf (h_store h') \<and> h_parser h' = []"
proof -
  let ?mss = "map (map (map make_command)) clients"
  let ?peers = "map (\<lambda>segs. client_socket (map wire segs)) clients"
  obtain s' replies where run: "run_clients s ?mss = (s', replies)" by force
  have peers: "?peers = map (\<lambda>mss. client_socket (map (\<lambda>ms. concat (map serialize ms)) mss)) ?mss"
    using arg_cong[OF ext[of wire, OF wire_concat], of "\<lambda>f. map (\<lambda>segs. client_socket (map f segs)) clients"] by (simp add: comp_def)
  have "\<forall>mss \<in> set ?mss. \<forall>ms \<in> set mss. ms \<noteq> [] \<and> (\<forall>m \<in> set ms. msg_ok m) \<and> length (concat (map serialize ms)) \<le> 4096"
    using assms(2) segment_messages by auto
  from serve_clients_pipelined[OF this, of "handler_new s"] obtain h' where
    h': "serve_clients (handler_new s) ?peers = Some (Finished (h', map (\<lambda>rs. serialize_messages (map Some rs)) replies))"
      "h_parser h' = []" "h_store h' = s'"
    using run unfolding peers serialize_messages_concat by (auto simp: handler_new_def)
  have valid: "\<forall>p \<in> set ?peers. sock_valid p" by (simp add: client_socket_def)
  obtain srv where "server_main argv fresh pton bind_rc listen_rc (handler_new s) (map Client ?peers @ signal_handler sig) =
      Some (Finished (0, srv, h', map (\<lambda>rs. serialize_messages (map Some rs)) replies, True))"
    using server_main_serves[OF valid h'(1) assms(7), of argv fresh pton bind_rc listen_rc] assms(3-6) by auto
  moreover have "\<forall>segs \<in> set clients. \<forall>cmds \<in> set segs. \<forall>args \<in> set cmds. args \<noteq> []"
    using assms(2) by (fastforce simp: segment_ok_def)
  ultimately show ?thesis using run_clients_commands[OF assms(1) _ run] h'(2,3) by (simp add: comp_def) blast
qed

theorem session_end_to_end_witness:
  "\<exists>srv h' replies. server_main [] (socket_new\<lparr>sock_fd := 3\<rparr>) 1 0 0 (handler_new (kv_new default_table))
      (map (\<lambda>segs. Client (client_socket (map wire segs))) [[[[''SET'', ''k'', ''v''], [''GET'', ''k'']]], [[[''PING'']]]] @ signal_handler 2) =
        Some (Finished (0, srv, h', map (\<lambda>rs. serialize_messages (map Some rs)) replies, True)) \<and> map length replies = [2, 1]"
proof -
  have ok: "\<forall>segs \<in> set [[[[''SET'', ''k'', ''v''], [''GET'', ''k'']]], [[[''PING'']]]]. \<forall>cmds \<in> set segs. segment_ok cmds"
    by (simp add: segment_ok_def wire_def length_serialize make_command_def make_array_def make_bulk_string_def as_string_def
        del: serialize.simps)
  show ?thesis
    using session_end_to_end[OF default_kv_wf ok, of "socket_new\<lparr>sock_fd := 3\<rparr>" 1 0 0 2 "[]"] by force
qed

section \<open>From the client to the store and back\<close>

text \<open>
  C2: A command round trip through both programs: when the server answers what the client sent, over a connection that
  delivers the answer in one piece of at most 4096 bytes, \<^verbatim>\<open>execute\<close> of the client returns the reply of the
  abstract store to the command, the server's map is the one after the command, and nothing is left in either parser.
\<close>

theorem client_server_round_trip:
  assumes "kv_wf s" "segment_ok [args]"
    and "serve_clients (handler_new s) [client_socket [wire [args]]] = Some (Finished (h', [out]))" "length out \<le> 4096"
    and "client_connected (rc_client r)" "rc_parser r = []" "cl_ready (rc_client r) = []"
    and "sock_plan (cl_socket (rc_client r)) = []" "sock_in (cl_socket (rc_client r)) = [Data out]"
  shows "\<exists>r' reply. client_execute r args = Completed (r', reply) \<and>
    redis_step (kv_map s) args (kv_map (h_store h')) reply \<and> rc_parser r' = [] \<and> h_parser h' = [] \<and>
    sock_out (cl_socket (rc_client r')) = sock_out (cl_socket (rc_client r)) @ wire [args]"
proof -
  let ?m = "make_command args"
  let ?e = "execute_command s (Some ?m)"
  have args: "args \<noteq> []" using assms(2) by (auto simp: segment_ok_def)
  have m: "msg_ok ?m" "length (serialize ?m) \<le> 4096" using segment_messages[OF assms(2)] by simp_all
  obtain h1 c1 where "serve_loop (handler_new s) (conn_new (client_socket [serialize ?m])) = Some (Finished (h1, c1))"
    "h_parser h1 = []" "h_store h1 = fst ?e" "sock_out (conn_socket c1) = serialize (snd ?e)"
    using serve_one_segment[of "handler_new s" "[?m]"] m by (auto simp: handler_new_def case_prod_beta)
  then have h': "h_parser h' = []" "h_store h' = fst ?e" "out = serialize (snd ?e)"
    using assms(3) by (auto simp: wire_concat)
  have step: "redis_step (kv_map s) args (kv_map (fst ?e)) (snd ?e)"
    using execute_command_step[OF assms(1), of "Some ?m"] args by (auto simp: parse_make_command)
  have "msg_ok (snd ?e)" using well_typed_msg_ok[OF redis_step_well_typed[OF step]] assms(4) h'(3) by simp
  then obtain r' where "send_command r ?m = Completed (r', snd ?e)" "rc_parser r' = []"
    "sock_out (cl_socket (rc_client r')) = sock_out (cl_socket (rc_client r)) @ serialize ?m"
    using send_command_reply[OF assms(5-8), of "[out]" "snd ?e" ?m] assms(4,9) h'(3) serialize_nonempty by auto
  then show ?thesis using args step h' by (auto simp: client_execute_def wire_concat)
qed

theorem client_server_round_trip_witness:
  "\<exists>r' reply. client_execute \<lparr>rc_client = client_on \<lparr>sock_fd = 4, sock_in = [Data (serialize pong_response)], sock_plan = [], sock_out = []\<rparr>,
     rc_parser = []\<rparr> [''PING''] = Completed (r', reply)"
proof -
  have ok: "segment_ok [[''PING'']]"
    by (simp add: segment_ok_def wire_def length_serialize make_command_def make_array_def make_bulk_string_def as_string_def
        del: serialize.simps)
  have wire: "wire [[''PING'']] = serialize (make_command [''PING''])" by (simp add: wire_concat)
  obtain h' where served: "serve_clients (handler_new (kv_new default_table)) [client_socket [wire [[''PING'']]]] =
      Some (Finished (h', [serialize pong_response]))"
    using ping_answered unfolding fresh_handler_def wire by blast
  have "length (serialize pong_response) \<le> 4096" by (simp add: pong_response_def make_simple_string_def as_string_def)
  then show ?thesis
    using client_server_round_trip[OF default_kv_wf ok served, of
        "\<lparr>rc_client = client_on \<lparr>sock_fd = 4, sock_in = [Data (serialize pong_response)], sock_plan = [], sock_out = []\<rparr>, rc_parser = []\<rparr>"]
    by (auto simp: client_on_def tcp_client_new_def client_connected_def sock_valid_def)
qed

end
